theory Spec2Isabelle
  imports Complex_Main "HOL-Library.AList"
begin

section \<open>Command queue: named lanes and session lanes (src/process/command-queue.ts)\<close>

text \<open>
  \<^verbatim>\<open>TaskPriority\<close> is a numeric enum (src/process/lanes.ts): Urgent = 0, Normal = 1,
  Background = 2. The queue compares and clamps priorities as numbers, so the model keeps
  them as integers.
\<close>

type_synonym TaskPriority = int

definition Urgent :: TaskPriority where "Urgent = 0"
definition Normal :: TaskPriority where "Normal = 1"
definition Background :: TaskPriority where "Background = 2"

text \<open>
  A call either returns or throws. What is thrown is opaque to the scheduler.
\<close>

datatype Completion = Returned | Thrown

text \<open>
  The \<^verbatim>\<open>onWait\<close> callback is a function of the caller. The scheduler calls it with the
  time waited and the number of entries still queued, ignores what it returns and does
  not catch what it throws; so a callback is modelled by what a call of it does, as a
  function of the two arguments. A callback is taken not to call back into the queue.
\<close>

type_synonym OnWait = "int \<Rightarrow> nat \<Rightarrow> Completion"

text \<open>
  A queue entry. The callable \<^verbatim>\<open>task\<close> and the promise callbacks \<^verbatim>\<open>resolve\<close> and
  \<^verbatim>\<open>reject\<close> are opaque to the scheduler; one identifier stands for the three of them.
\<close>

record QueueEntry =
  task :: nat
  enqueuedAt :: int
  warnAfterMs :: int
  priority :: TaskPriority
  sessionKey :: "string option"
  onWait :: "OnWait option"

record LaneState =
  lane :: string
  buckets :: "QueueEntry list list"
  active :: int
  activeTaskIds :: "nat set"
  maxConcurrent :: int
  draining :: bool

text \<open>
  The session lane's fields \<^verbatim>\<open>sessionKey\<close> and \<^verbatim>\<open>active\<close> carry the prefix \<open>sl_\<close>,
  because the entry and the named lane already use these names.
\<close>

record SessionLaneState =
  sl_sessionKey :: string
  queue :: "QueueEntry list"
  sl_active :: bool

text \<open>
  The module state. \<^verbatim>\<open>lanes\<close> and \<^verbatim>\<open>sessionLanes\<close> are JavaScript Maps, which iterate in
  insertion order: association lists with \<^const>\<open>AList.update\<close> (replace in place, or
  append a new key). The fields \<open>laneRunning\<close> and \<open>sessionRunning\<close> hold the tasks whose
  asynchronous wrapper has been started and has not settled yet: for a named lane the
  lane name, the task id and the entry, for a session lane the session key and the entry
  that the wrapper captured. The fields \<open>laneOnWaitErrors\<close> and \<open>sessionOnWaitErrors\<close>
  record the exceptions that \<^verbatim>\<open>onWait\<close> callbacks threw, in \<^verbatim>\<open>pump\<close> and in
  \<^verbatim>\<open>drainSessionLane\<close>: the entries whose callback threw, in order. Such an entry has
  left its queue and its task is never started.
\<close>

record QState =
  lanes :: "(string \<times> LaneState) list"
  nextTaskId :: nat
  sessionLanes :: "(string \<times> SessionLaneState) list"
  maxConcurrentSessions :: int
  activeSessionCount :: int
  laneRunning :: "(string \<times> nat \<times> QueueEntry) list"
  sessionRunning :: "(string \<times> QueueEntry) list"
  laneOnWaitErrors :: "QueueEntry list"
  sessionOnWaitErrors :: "QueueEntry list"

definition initialQState :: QState where
  "initialQState = \<lparr> lanes = [], nextTaskId = 1, sessionLanes = [],
     maxConcurrentSessions = 16, activeSessionCount = 0,
     laneRunning = [], sessionRunning = [],
     laneOnWaitErrors = [], sessionOnWaitErrors = [] \<rparr>"

definition createEmptyBuckets :: "QueueEntry list list" where
  "createEmptyBuckets = [[], [], []]"

definition getLaneState :: "string \<Rightarrow> QState \<Rightarrow> LaneState \<times> QState" where
  "getLaneState name s =
     (case map_of (lanes s) name of
        Some existing \<Rightarrow> (existing, s)
      | None \<Rightarrow>
          (let created = \<lparr> lane = name, buckets = createEmptyBuckets, active = 0,
                           activeTaskIds = {}, maxConcurrent = 1, draining = False \<rparr>
           in (created, s\<lparr> lanes := AList.update name created (lanes s) \<rparr>)))"

definition getSessionLaneState :: "string \<Rightarrow> QState \<Rightarrow> SessionLaneState \<times> QState" where
  "getSessionLaneState k s =
     (case map_of (sessionLanes s) k of
        Some existing \<Rightarrow> (existing, s)
      | None \<Rightarrow>
          (let created = \<lparr> sl_sessionKey = k, queue = [], sl_active = False \<rparr>
           in (created, s\<lparr> sessionLanes := AList.update k created (sessionLanes s) \<rparr>)))"

definition getTotalQueued :: "LaneState \<Rightarrow> nat" where
  "getTotalQueued st = foldl (\<lambda>sum bucket. sum + length bucket) 0 (buckets st)"

text \<open>
  \<^verbatim>\<open>dequeueHighestPriority\<close> walks the buckets in index order and shifts the first
  non-empty one; \<open>None\<close> is JavaScript's \<^verbatim>\<open>undefined\<close>.
\<close>

fun dequeueFrom :: "QueueEntry list list \<Rightarrow> (QueueEntry \<times> QueueEntry list list) option" where
  "dequeueFrom [] = None"
| "dequeueFrom (bucket # rest) =
     (case bucket of
        entry # later \<Rightarrow> Some (entry, later # rest)
      | [] \<Rightarrow> (case dequeueFrom rest of
                 None \<Rightarrow> None
               | Some (entry, rest') \<Rightarrow> Some (entry, [] # rest')))"

definition dequeueHighestPriority :: "LaneState \<Rightarrow> QueueEntry option \<times> LaneState" where
  "dequeueHighestPriority st =
     (case dequeueFrom (buckets st) of
        None \<Rightarrow> (None, st)
      | Some (entry, bs) \<Rightarrow> (Some entry, st\<lparr> buckets := bs \<rparr>))"

text \<open>
  \<^verbatim>\<open>enqueueWithPriority\<close> clamps the priority to a bucket index and pushes the entry at
  the end of that bucket. With no bucket at all the index is \<open>-1\<close> and the push raises a
  TypeError: \<open>None\<close>.
\<close>

definition bucketIndex :: "LaneState \<Rightarrow> QueueEntry \<Rightarrow> int" where
  "bucketIndex st entry = min (max 0 (priority entry)) (int (length (buckets st)) - 1)"

definition enqueueWithPriority :: "LaneState \<Rightarrow> QueueEntry \<Rightarrow> LaneState option" where
  "enqueueWithPriority st entry =
     (let i = bucketIndex st entry
      in if 0 \<le> i \<and> i < int (length (buckets st))
         then Some (st\<lparr> buckets := (buckets st)[nat i := (buckets st ! nat i) @ [entry]] \<rparr>)
         else None)"


lemma getTotalQueued_foldl:
  "foldl (\<lambda>sum bucket. sum + length bucket) a bs = a + sum_list (map length bs)"
  by (induction bs arbitrary: a) simp_all

lemma dequeueFrom_decreases:
  "dequeueFrom bs = Some (entry, bs') \<Longrightarrow>
     Suc (sum_list (map length bs')) = sum_list (map length bs)"
  by (induction bs arbitrary: bs') (auto split: list.splits option.splits)

lemma dequeueHighestPriority_decreases:
  "dequeueHighestPriority st = (Some entry, st1) \<Longrightarrow> getTotalQueued st1 < getTotalQueued st"
  by (auto simp: dequeueHighestPriority_def getTotalQueued_def getTotalQueued_foldl
           split: option.splits dest: dequeueFrom_decreases)

text \<open>
  The wait warning both drains make for the entry they took, with the clock value \<open>now\<close>
  and the number of entries still queued:
  \<^verbatim>\<open>if (waitedMs >= entry.warnAfterMs) { entry.onWait?.(waitedMs, queueAhead); diag.warn(...) }\<close>.
  The call is not guarded, so it throws when the callback does. The log calls are taken
  to return. One step of the scheduler is taken to read one clock value.
\<close>

definition waitWarning :: "QueueEntry \<Rightarrow> int \<Rightarrow> nat \<Rightarrow> Completion" where
  "waitWarning entry now queueAhead =
     (let waitedMs = now - enqueuedAt entry
      in if waitedMs \<ge> warnAfterMs entry
         then (case onWait entry of None \<Rightarrow> Returned | Some callback \<Rightarrow> callback waitedMs queueAhead)
         else Returned)"

text \<open>
  The \<^verbatim>\<open>pump\<close> closure of \<^verbatim>\<open>drainLane\<close>, on the lane it captured. It returns the entry
  whose \<^verbatim>\<open>onWait\<close> threw (\<open>None\<close> when the loop ran to its end), the lane, the tasks it
  started (with their task ids) and the next free task id. Starting a task is
  \<^verbatim>\<open>void (async () => { ... await entry.task() ... })()\<close>: the wrapper runs up to its
  first \<^verbatim>\<open>await\<close> and the loop goes on; the continuation is the step
  \<open>laneTaskSettles\<close> below. (A task is taken to return a promise, as its type says,
  and not to throw before it does.) When \<^verbatim>\<open>onWait\<close> throws, the entry has been dequeued and is
  not started, and \<^verbatim>\<open>state.draining = false\<close> is not reached.
\<close>

function pumpLane ::
  "int \<Rightarrow> LaneState \<Rightarrow> nat \<Rightarrow> QueueEntry option \<times> LaneState \<times> (nat \<times> QueueEntry) list \<times> nat" where
  "pumpLane now st taskId =
     (if active st < maxConcurrent st \<and> getTotalQueued st > 0 then
        (case dequeueHighestPriority st of
           (None, st1) \<Rightarrow> (None, st1\<lparr> draining := False \<rparr>, [], taskId)
         | (Some entry, st1) \<Rightarrow>
             (case waitWarning entry now (getTotalQueued st1) of
                Thrown \<Rightarrow> (Some entry, st1, [], taskId)
              | Returned \<Rightarrow>
                  (case pumpLane now (st1\<lparr> active := active st1 + 1,
                                          activeTaskIds := insert taskId (activeTaskIds st1) \<rparr>)
                                 (taskId + 1) of
                     (thrown, st2, started, next) \<Rightarrow>
                       (thrown, st2, (taskId, entry) # started, next))))
      else (None, st\<lparr> draining := False \<rparr>, [], taskId))"
  by pat_completeness auto
termination
proof (relation "measure (\<lambda>(now, st, taskId). getTotalQueued st)", goal_cases)
  case 1
  show ?case by simp
next
  case (2 now st taskId x y entry)
  then have "getTotalQueued y < getTotalQueued st"
    using dequeueHighestPriority_decreases [of st entry y] by simp
  then show ?case by (simp add: getTotalQueued_def)
qed

text \<open>
  A call of \<^verbatim>\<open>pump\<close> on the lane stored under a name: the lane, the task counter and
  the started tasks are written back, and an exception is recorded.
\<close>

definition runPump :: "string \<Rightarrow> LaneState \<Rightarrow> int \<Rightarrow> QState \<Rightarrow> Completion \<times> QState" where
  "runPump name st now s =
     (case pumpLane now st (nextTaskId s) of
        (thrown, st', started, next) \<Rightarrow>
          ((case thrown of None \<Rightarrow> Returned | Some entry \<Rightarrow> Thrown),
           s\<lparr> lanes := AList.update name st' (lanes s),
              nextTaskId := next,
              laneRunning := laneRunning s @ map (\<lambda>(taskId, entry). (name, taskId, entry)) started,
              laneOnWaitErrors :=
                laneOnWaitErrors s @ (case thrown of None \<Rightarrow> [] | Some entry \<Rightarrow> [entry]) \<rparr>))"

definition drainLane :: "string \<Rightarrow> int \<Rightarrow> QState \<Rightarrow> Completion \<times> QState" where
  "drainLane name now s =
     (case getLaneState name s of
        (st, s1) \<Rightarrow>
          if draining st then (Returned, s1) else runPump name (st\<lparr> draining := True \<rparr>) now s1)"

text \<open>
  The continuation of a named-lane task. Both the \<^verbatim>\<open>try\<close> block (the task resolved) and
  the \<^verbatim>\<open>catch\<close> block (the task rejected, or the \<^verbatim>\<open>try\<close> block threw) run
  \<^verbatim>\<open>state.active -= 1; state.activeTaskIds.delete(taskId); pump()\<close> and then settle the
  promise of the entry: \<open>laneSettleBlock\<close>. When \<^verbatim>\<open>pump\<close> throws in the \<^verbatim>\<open>try\<close> block
  the \<^verbatim>\<open>catch\<close> block runs as well; when it throws in the \<^verbatim>\<open>catch\<close> block the exception
  leaves the wrapper. \<open>ok\<close> tells whether the task resolved. The runtime resumes only a
  wrapper that is suspended, so the step does nothing for a task that is not running.
\<close>

definition laneSettleBlock :: "string \<Rightarrow> nat \<Rightarrow> int \<Rightarrow> QState \<Rightarrow> Completion \<times> QState" where
  "laneSettleBlock name taskId now s =
     (case map_of (lanes s) name of
        None \<Rightarrow> (Returned, s)
      | Some st \<Rightarrow>
          runPump name
            (st\<lparr> active := active st - 1, activeTaskIds := activeTaskIds st - {taskId} \<rparr>) now s)"

definition laneTaskSettles :: "string \<Rightarrow> nat \<Rightarrow> bool \<Rightarrow> int \<Rightarrow> QState \<Rightarrow> Completion \<times> QState" where
  "laneTaskSettles name taskId ok now s =
     (case (filter (\<lambda>(n, t, e). n = name \<and> t = taskId) (laneRunning s), map_of (lanes s) name) of
        (r # _, Some st) \<Rightarrow>
          (let s0 = s\<lparr> laneRunning :=
                         filter (\<lambda>(n, t, e). \<not> (n = name \<and> t = taskId)) (laneRunning s) \<rparr>
           in if ok then
                (case laneSettleBlock name taskId now s0 of
                   (Returned, s1) \<Rightarrow> (Returned, s1)
                 | (Thrown, s1) \<Rightarrow> laneSettleBlock name taskId now s1)
              else laneSettleBlock name taskId now s0)
      | _ \<Rightarrow> (Returned, s))"

text \<open>
  \<^verbatim>\<open>drainSessionLane\<close>: the three guards, then \<^verbatim>\<open>queue.shift()\<close>, \<^verbatim>\<open>active = true\<close>,
  \<^verbatim>\<open>activeSessionCount += 1\<close>, the wait warning and the start of the task's wrapper.
  When \<^verbatim>\<open>onWait\<close> throws, the lane is flagged active and counted, and no task is started.
\<close>

definition drainSessionLane :: "string \<Rightarrow> int \<Rightarrow> QState \<Rightarrow> Completion \<times> QState" where
  "drainSessionLane k now s =
     (case getSessionLaneState k s of
        (st, s1) \<Rightarrow>
          if sl_active st then (Returned, s1)
          else if length (queue st) = 0 then (Returned, s1)
          else if activeSessionCount s1 \<ge> maxConcurrentSessions s1 then (Returned, s1)
          else (case queue st of
                  [] \<Rightarrow> (Returned, s1)
                | entry # rest \<Rightarrow>
                    (let s2 = s1\<lparr> sessionLanes :=
                                    AList.update k (st\<lparr> queue := rest, sl_active := True \<rparr>)
                                      (sessionLanes s1),
                                  activeSessionCount := activeSessionCount s1 + 1 \<rparr>
                     in case waitWarning entry now (length rest) of
                          Thrown \<Rightarrow>
                            (Thrown, s2\<lparr> sessionOnWaitErrors := sessionOnWaitErrors s2 @ [entry] \<rparr>)
                        | Returned \<Rightarrow>
                            (Returned, s2\<lparr> sessionRunning := sessionRunning s2 @ [(k, entry)] \<rparr>))))"

text \<open>
  \<^verbatim>\<open>drainWaitingSessions\<close> walks the Map in insertion order and reads each lane's
  current fields; no key is added or removed while it runs, so the walk is over the key
  list taken at the start. An exception of \<^verbatim>\<open>drainSessionLane\<close> ends the walk.
\<close>

fun drainWaitingLoop :: "string list \<Rightarrow> int \<Rightarrow> QState \<Rightarrow> Completion \<times> QState" where
  "drainWaitingLoop [] now s = (Returned, s)"
| "drainWaitingLoop (k # ks) now s =
     (case map_of (sessionLanes s) k of
        None \<Rightarrow> drainWaitingLoop ks now s
      | Some st \<Rightarrow>
          if \<not> sl_active st \<and> length (queue st) > 0 then
            (case drainSessionLane k now s of
               (Thrown, s1) \<Rightarrow> (Thrown, s1)
             | (Returned, s1) \<Rightarrow>
                 if activeSessionCount s1 \<ge> maxConcurrentSessions s1 then (Returned, s1)
                 else drainWaitingLoop ks now s1)
          else drainWaitingLoop ks now s)"

definition drainWaitingSessions :: "int \<Rightarrow> QState \<Rightarrow> Completion \<times> QState" where
  "drainWaitingSessions now s =
     (if activeSessionCount s \<ge> maxConcurrentSessions s then (Returned, s)
      else drainWaitingLoop (map fst (sessionLanes s)) now s)"

text \<open>
  The continuation of a session task. Both the \<^verbatim>\<open>try\<close> block (the task resolved) and the
  \<^verbatim>\<open>catch\<close> block (the task rejected, or the \<^verbatim>\<open>try\<close> block threw) run
  \<^verbatim>\<open>state.active = false; activeSessionCount -= 1; drainSessionLane(sessionKey);
  drainWaitingSessions()\<close> and then settle the promise of the entry: \<open>sessionSettleBlock\<close>.
  When a drain throws in the \<^verbatim>\<open>try\<close> block the \<^verbatim>\<open>catch\<close> block runs as well; when it
  throws in the \<^verbatim>\<open>catch\<close> block the exception leaves the wrapper. The lane object the
  wrapper captured is the one stored under the key, since no lane is ever removed from
  the Map. The step names the wrapper that resumes by its session key and its position
  \<open>i\<close> among the running wrappers of that key; \<open>ok\<close> tells whether the task resolved.
\<close>

definition sessionSettleBlock :: "string \<Rightarrow> int \<Rightarrow> QState \<Rightarrow> Completion \<times> QState" where
  "sessionSettleBlock k now s =
     (case map_of (sessionLanes s) k of
        None \<Rightarrow> (Returned, s)
      | Some st \<Rightarrow>
          (case drainSessionLane k now
                  (s\<lparr> sessionLanes := AList.update k (st\<lparr> sl_active := False \<rparr>) (sessionLanes s),
                      activeSessionCount := activeSessionCount s - 1 \<rparr>) of
             (Thrown, s1) \<Rightarrow> (Thrown, s1)
           | (Returned, s1) \<Rightarrow> drainWaitingSessions now s1))"

definition sessionTaskSettles :: "string \<Rightarrow> nat \<Rightarrow> bool \<Rightarrow> int \<Rightarrow> QState \<Rightarrow> Completion \<times> QState" where
  "sessionTaskSettles k i ok now s =
     (let running = filter (\<lambda>(k', e). k' = k) (sessionRunning s)
      in if i < length running \<and> map_of (sessionLanes s) k \<noteq> None then
           (let s0 = s\<lparr> sessionRunning := remove1 (running ! i) (sessionRunning s) \<rparr>
            in if ok then
                 (case sessionSettleBlock k now s0 of
                    (Returned, s1) \<Rightarrow> (Returned, s1)
                  | (Thrown, s1) \<Rightarrow> sessionSettleBlock k now s1)
               else sessionSettleBlock k now s0)
         else (Returned, s))"

text \<open>
  \<^verbatim>\<open>String.prototype.trim\<close>. The strings of the model are lists of characters with
  codes up to 255, read as code points; the white space and line terminators of
  JavaScript in that range are tab, line feed, vertical tab, form feed, carriage return,
  space and no-break space. Lane names with code points beyond that range are outside
  the model.
\<close>

definition isWhiteSpace :: "char \<Rightarrow> bool" where
  "isWhiteSpace c =
     (c \<in> set [CHR 0x09, CHR 0x0A, CHR 0x0B, CHR 0x0C, CHR 0x0D, CHR '' '', CHR 0xA0])"

definition trim :: "string \<Rightarrow> string" where
  "trim str = rev (dropWhile isWhiteSpace (rev (dropWhile isWhiteSpace str)))"

definition CommandLane_Main :: string where
  "CommandLane_Main = ''main''"

definition cleanLane :: "string \<Rightarrow> string" where
  "cleanLane name = (if trim name = [] then CommandLane_Main else trim name)"

text \<open>
  The two setters end with a drain and throw when the drain does. Their numeric argument
  is taken to be a finite number.
\<close>

definition setCommandLaneConcurrency :: "string \<Rightarrow> real \<Rightarrow> int \<Rightarrow> QState \<Rightarrow> Completion \<times> QState" where
  "setCommandLaneConcurrency name n now s =
     (let cleaned = cleanLane name
      in case getLaneState cleaned s of
           (st, s1) \<Rightarrow>
             drainLane cleaned now
               (s1\<lparr> lanes := AList.update cleaned
                                (st\<lparr> maxConcurrent := max 1 \<lfloor>n\<rfloor> \<rparr>) (lanes s1) \<rparr>))"

definition setMaxConcurrentSessions :: "real \<Rightarrow> int \<Rightarrow> QState \<Rightarrow> Completion \<times> QState" where
  "setMaxConcurrentSessions n now s =
     (let previous = maxConcurrentSessions s;
          s1 = s\<lparr> maxConcurrentSessions := max 1 \<lfloor>n\<rfloor> \<rparr>
      in if maxConcurrentSessions s1 > previous then drainWaitingSessions now s1
         else (Returned, s1))"

text \<open>
  The option objects. A missing field is \<open>None\<close>; the fields carry the prefix \<open>opt_\<close>.
\<close>

record EnqueueOptions =
  opt_warnAfterMs :: "int option"
  opt_priority :: "TaskPriority option"
  opt_onWait :: "OnWait option"

record SessionEnqueueOptions = EnqueueOptions +
  opt_sessionKey :: string

text \<open>
  The two enqueue functions build the entry and drain inside the executor of the promise
  they return, so an exception of the drain rejects that promise and does not reach the
  caller: the functions return, and the state is the one the drain left.
\<close>

definition enqueueCommandInLane ::
  "string \<Rightarrow> nat \<Rightarrow> EnqueueOptions option \<Rightarrow> int \<Rightarrow> QState \<Rightarrow> QState" where
  "enqueueCommandInLane name t opts now s =
     (let cleaned = cleanLane name;
          warnAfter = (case Option.bind opts opt_warnAfterMs of None \<Rightarrow> 2000 | Some w \<Rightarrow> w);
          prio = (case Option.bind opts opt_priority of None \<Rightarrow> Normal | Some p \<Rightarrow> p)
      in case getLaneState cleaned s of
           (st, s1) \<Rightarrow>
             (let entry = \<lparr> task = t, enqueuedAt = now, warnAfterMs = warnAfter,
                             priority = prio, sessionKey = None,
                             onWait = Option.bind opts opt_onWait \<rparr>
              in case enqueueWithPriority st entry of
                   None \<Rightarrow> s1
                 | Some st' \<Rightarrow>
                     snd (drainLane cleaned now
                            (s1\<lparr> lanes := AList.update cleaned st' (lanes s1) \<rparr>))))"

text \<open>
  The insertion loop of \<^verbatim>\<open>enqueueSessionTask\<close>: \<^verbatim>\<open>splice(i, 0, entry)\<close> at the first
  index whose entry has a greater priority number, \<^verbatim>\<open>push\<close> when the loop ends without
  inserting.
\<close>

fun insertByPriority :: "QueueEntry \<Rightarrow> QueueEntry list \<Rightarrow> QueueEntry list" where
  "insertByPriority entry [] = [entry]"
| "insertByPriority entry (q # qs) =
     (if priority q > priority entry then entry # q # qs
      else q # insertByPriority entry qs)"

definition enqueueSessionTask :: "nat \<Rightarrow> SessionEnqueueOptions \<Rightarrow> int \<Rightarrow> QState \<Rightarrow> QState" where
  "enqueueSessionTask t opts now s =
     (let k = opt_sessionKey opts;
          warnAfter = (case opt_warnAfterMs opts of None \<Rightarrow> 2000 | Some w \<Rightarrow> w);
          prio = (case opt_priority opts of None \<Rightarrow> Normal | Some p \<Rightarrow> p);
          onW = opt_onWait opts
      in if k = [] then
           enqueueCommandInLane CommandLane_Main t
             (Some \<lparr> opt_warnAfterMs = Some warnAfter, opt_priority = Some prio,
                     opt_onWait = onW \<rparr>) now s
         else
           (case getSessionLaneState k s of
              (st, s1) \<Rightarrow>
                (let entry = \<lparr> task = t, enqueuedAt = now, warnAfterMs = warnAfter,
                                priority = prio, sessionKey = Some k, onWait = onW \<rparr>
                 in snd (drainSessionLane k now
                           (s1\<lparr> sessionLanes :=
                                  AList.update k (st\<lparr> queue := insertByPriority entry (queue st) \<rparr>)
                                    (sessionLanes s1) \<rparr>)))))"

definition enqueueCommand :: "nat \<Rightarrow> EnqueueOptions option \<Rightarrow> int \<Rightarrow> QState \<Rightarrow> QState" where
  "enqueueCommand t opts now s = enqueueCommandInLane CommandLane_Main t opts now s"

definition clearCommandLane :: "string \<Rightarrow> QState \<Rightarrow> nat \<times> QState" where
  "clearCommandLane name s =
     (let cleaned = cleanLane name
      in case map_of (lanes s) cleaned of
           None \<Rightarrow> (0, s)
         | Some st \<Rightarrow>
             (getTotalQueued st,
              s\<lparr> lanes := AList.update cleaned (st\<lparr> buckets := createEmptyBuckets \<rparr>) (lanes s) \<rparr>))"

definition clearSessionLane :: "string \<Rightarrow> QState \<Rightarrow> nat \<times> QState" where
  "clearSessionLane k s =
     (case map_of (sessionLanes s) k of
        None \<Rightarrow> (0, s)
      | Some st \<Rightarrow>
          (length (queue st),
           s\<lparr> sessionLanes := AList.update k (st\<lparr> queue := [] \<rparr>) (sessionLanes s) \<rparr>))"

text \<open>
  The calls and continuations that change the scheduler, each with the clock value it
  reads, and a run of them from a state. A run goes on after a step that threw: the
  exception went to the caller of a setter or left a task's wrapper, and the module state
  is what the step left.
\<close>

datatype QAction =
    EnqueueCommandInLane string nat "EnqueueOptions option" int
  | EnqueueSessionTask nat SessionEnqueueOptions int
  | LaneTaskSettles string nat bool int
  | SessionTaskSettles string nat bool int
  | SetCommandLaneConcurrency string real int
  | SetMaxConcurrentSessions real int
  | ClearCommandLane string
  | ClearSessionLane string

fun execQ :: "QAction \<Rightarrow> QState \<Rightarrow> QState" where
  "execQ (EnqueueCommandInLane name t opts now) s = enqueueCommandInLane name t opts now s"
| "execQ (EnqueueSessionTask t opts now) s = enqueueSessionTask t opts now s"
| "execQ (LaneTaskSettles name taskId ok now) s = snd (laneTaskSettles name taskId ok now s)"
| "execQ (SessionTaskSettles k i ok now) s = snd (sessionTaskSettles k i ok now s)"
| "execQ (SetCommandLaneConcurrency name n now) s = snd (setCommandLaneConcurrency name n now s)"
| "execQ (SetMaxConcurrentSessions n now) s = snd (setMaxConcurrentSessions n now s)"
| "execQ (ClearCommandLane name) s = snd (clearCommandLane name s)"
| "execQ (ClearSessionLane k) s = snd (clearSessionLane k s)"

fun runQ :: "QAction list \<Rightarrow> QState \<Rightarrow> QState" where
  "runQ [] s = s"
| "runQ (a # as) s = runQ as (execQ a s)"



subsection \<open>Named lanes: bucket discipline\<close>

text \<open>
  A run of \<^verbatim>\<open>enqueueWithPriority\<close> and \<^verbatim>\<open>dequeueHighestPriority\<close> calls on one lane,
  with the entries the dequeues returned, in order. A dequeue on an empty lane returns
  \<^verbatim>\<open>undefined\<close> and adds nothing.
\<close>

datatype LaneOp = Enqueue QueueEntry | Dequeue

fun laneTrace :: "LaneOp list \<Rightarrow> LaneState \<Rightarrow> LaneState \<times> QueueEntry list" where
  "laneTrace [] st = (st, [])"
| "laneTrace (Enqueue entry # ops) st =
     (case enqueueWithPriority st entry of
        None \<Rightarrow> laneTrace ops st
      | Some st' \<Rightarrow> laneTrace ops st')"
| "laneTrace (Dequeue # ops) st =
     (case dequeueHighestPriority st of
        (None, st') \<Rightarrow> laneTrace ops st'
      | (Some entry, st') \<Rightarrow>
          (case laneTrace ops st' of (st'', out) \<Rightarrow> (st'', entry # out)))"

fun enqueued :: "LaneOp list \<Rightarrow> QueueEntry list" where
  "enqueued [] = []"
| "enqueued (Enqueue entry # ops) = entry # enqueued ops"
| "enqueued (Dequeue # ops) = enqueued ops"

text \<open>The lane \<^verbatim>\<open>getLaneState\<close> creates on first use.\<close>

definition freshLane :: "string \<Rightarrow> LaneState" where
  "freshLane name = fst (getLaneState name initialQState)"

text \<open>Every queued entry sits in the bucket its clamped priority names.\<close>

definition wellBucketed :: "LaneState \<Rightarrow> bool" where
  "wellBucketed st = (\<forall>i < length (buckets st). \<forall>e \<in> set (buckets st ! i). bucketIndex st e = int i)"

lemma dequeueFrom_None: "dequeueFrom bs = None \<longleftrightarrow> (\<forall>b \<in> set bs. b = [])"
  by (induction bs) (auto split: list.splits option.splits)

lemma dequeueFrom_Some:
  "dequeueFrom bs = Some (e, bs') \<Longrightarrow>
     \<exists>i < length bs. (\<forall>j < i. bs ! j = []) \<and> bs ! i = e # bs' ! i \<and> bs' = bs[i := tl (bs ! i)]"
proof (induction bs arbitrary: bs')
  case Nil
  then show ?case by simp
next
  case (Cons b bs)
  show ?case
  proof (cases b)
    case Nil
    with Cons.prems obtain r where r: "dequeueFrom bs = Some (e, r)" and bs': "bs' = [] # r"
      by (auto split: option.splits)
    from Cons.IH [OF r] obtain i where i: "i < length bs" "\<forall>j < i. bs ! j = []"
      "bs ! i = e # r ! i" "r = bs[i := tl (bs ! i)]" by blast
    have "\<forall>j < Suc i. (b # bs) ! j = []"
      using i(2) Nil by (auto simp: nth_Cons split: nat.splits)
    with i bs' Nil show ?thesis
      by (intro exI [of _ "Suc i"]) auto
  next
    case (Cons a list)
    with Cons.prems show ?thesis
      by (intro exI [of _ 0]) auto
  qed
qed

lemma enqueue_buckets:
  "enqueueWithPriority st e = Some st' \<Longrightarrow>
     length (buckets st') = length (buckets st) \<and>
     nat (bucketIndex st e) < length (buckets st) \<and> 0 \<le> bucketIndex st e \<and>
     buckets st' = (buckets st)[nat (bucketIndex st e) := buckets st ! nat (bucketIndex st e) @ [e]]"
  by (auto simp: enqueueWithPriority_def Let_def split: if_splits)

lemma bucketIndex_cong: "length (buckets st') = length (buckets st) \<Longrightarrow> bucketIndex st' e = bucketIndex st e"
  by (simp add: bucketIndex_def)

lemma enqueue_nth:
  assumes "enqueueWithPriority st e = Some st'" "i < length (buckets st)"
  shows "buckets st' ! i = (if bucketIndex st e = int i then buckets st ! i @ [e] else buckets st ! i)"
proof -
  note eb = enqueue_buckets [OF assms(1)]
  show ?thesis
  proof (cases "bucketIndex st e = int i")
    case True
    then have "nat (bucketIndex st e) = i" by simp
    then show ?thesis using eb assms(2) True by simp
  next
    case False
    then have "nat (bucketIndex st e) \<noteq> i" using eb by auto
    then show ?thesis using eb assms(2) False by simp
  qed
qed

lemma wellBucketed_enqueue:
  assumes "wellBucketed st" "enqueueWithPriority st e = Some st'"
  shows "wellBucketed st'"
proof -
  have len: "length (buckets st') = length (buckets st)"
    using enqueue_buckets [OF assms(2)] by blast
  show ?thesis
    unfolding wellBucketed_def
  proof (intro allI impI ballI)
    fix i x assume i: "i < length (buckets st')" and x: "x \<in> set (buckets st' ! i)"
    have i0: "i < length (buckets st)" using i len by simp
    have bi: "bucketIndex st' x = bucketIndex st x" using len by (rule bucketIndex_cong)
    have old: "y \<in> set (buckets st ! i) \<Longrightarrow> bucketIndex st y = int i" for y
      using assms(1) i0 unfolding wellBucketed_def by blast
    have "x \<in> set (buckets st ! i) \<or> (x = e \<and> bucketIndex st e = int i)"
      using x unfolding enqueue_nth [OF assms(2) i0] by (auto split: if_splits)
    then show "bucketIndex st' x = int i"
      unfolding bi using old by blast
  qed
qed

lemma dequeue_buckets:
  "dequeueHighestPriority st = (Some e, st') \<Longrightarrow>
     \<exists>i < length (buckets st). (\<forall>j < i. buckets st ! j = []) \<and> buckets st ! i = e # buckets st' ! i
        \<and> buckets st' = (buckets st)[i := tl (buckets st ! i)]"
  by (auto simp: dequeueHighestPriority_def split: option.splits dest!: dequeueFrom_Some)

lemma dequeue_None: "dequeueHighestPriority st = (None, st') \<Longrightarrow> st' = st \<and> (\<forall>b \<in> set (buckets st). b = [])"
  by (auto simp: dequeueHighestPriority_def dequeueFrom_None split: option.splits)

lemma wellBucketed_dequeue:
  assumes "wellBucketed st" "dequeueHighestPriority st = (Some e, st')"
  shows "wellBucketed st'"
proof -
  from dequeue_buckets [OF assms(2)] obtain i where i: "i < length (buckets st)"
    and hd: "buckets st ! i = e # buckets st' ! i"
    and upd: "buckets st' = (buckets st)[i := tl (buckets st ! i)]" by blast
  have len: "length (buckets st') = length (buckets st)" by (subst upd) simp
  show ?thesis unfolding wellBucketed_def
  proof (intro allI impI ballI)
    fix j x assume j: "j < length (buckets st')" and x: "x \<in> set (buckets st' ! j)"
    have "x \<in> set (buckets st ! j)"
    proof (cases "j = i")
      case True
      have "x \<in> set (e # buckets st' ! i)" using x True by simp
      then show ?thesis unfolding True hd [symmetric] .
    next
      case False
      have "buckets st' ! j = buckets st ! j" by (subst upd) (use False in simp)
      then show ?thesis using x by simp
    qed
    moreover have "bucketIndex st' x = bucketIndex st x" using len by (rule bucketIndex_cong)
    ultimately show "bucketIndex st' x = int j"
      using assms(1) j len unfolding wellBucketed_def by metis
  qed
qed

lemma dequeue_nth:
  assumes "wellBucketed st" "dequeueHighestPriority st = (Some e, st')" "i < length (buckets st)"
  shows "buckets st ! i = (if bucketIndex st e = int i then e # buckets st' ! i else buckets st' ! i)"
    and "length (buckets st') = length (buckets st)"
proof -
  from dequeue_buckets [OF assms(2)] obtain k where k: "k < length (buckets st)"
    and hd: "buckets st ! k = e # buckets st' ! k"
    and upd: "buckets st' = (buckets st)[k := tl (buckets st ! k)]" by blast
  show "length (buckets st') = length (buckets st)" by (subst upd) simp
  have "e \<in> set (buckets st ! k)" unfolding hd by simp
  then have ek: "bucketIndex st e = int k"
    using assms(1) k unfolding wellBucketed_def by blast
  show "buckets st ! i = (if bucketIndex st e = int i then e # buckets st' ! i else buckets st' ! i)"
  proof (cases "k = i")
    case True
    then show ?thesis using hd ek by simp
  next
    case False
    have "buckets st' ! i = buckets st ! i" by (subst upd) (use False in simp)
    then show ?thesis using ek False by simp
  qed
qed

lemma laneTrace_fifo:
  "wellBucketed st \<Longrightarrow> laneTrace ops st = (st', out) \<Longrightarrow> i < length (buckets st) \<Longrightarrow>
     filter (\<lambda>e. bucketIndex st e = int i) out @ buckets st' ! i
       = buckets st ! i @ filter (\<lambda>e. bucketIndex st e = int i) (enqueued ops)"
proof (induction ops st arbitrary: st' out rule: laneTrace.induct)
  case (1 st)
  then show ?case by simp
next
  case (2 entry ops st)
  show ?case
  proof (cases "enqueueWithPriority st entry")
    case None
    then have "bucketIndex st entry < 0 \<or> buckets st = []"
      by (auto simp: enqueueWithPriority_def Let_def bucketIndex_def split: if_splits)
    with "2.prems"(3) have False by (auto simp: bucketIndex_def)
    then show ?thesis ..
  next
    case (Some st1)
    note eb = enqueue_buckets [OF Some]
    have wb: "wellBucketed st1" using wellBucketed_enqueue "2.prems"(1) Some by blast
    have tr: "laneTrace ops st1 = (st', out)" using "2.prems"(2) Some by simp
    have len: "length (buckets st1) = length (buckets st)" using eb by blast
    have i1: "i < length (buckets st1)" using len "2.prems"(3) by simp
    have bi: "bucketIndex st1 = bucketIndex st" using len by (intro ext) (rule bucketIndex_cong)
    have IH: "filter (\<lambda>e. bucketIndex st e = int i) out @ buckets st' ! i
         = buckets st1 ! i @ filter (\<lambda>e. bucketIndex st e = int i) (enqueued ops)"
      using "2.IH"(2) [OF Some wb tr i1] unfolding bi .
    show ?thesis
      unfolding IH enqueue_nth [OF Some "2.prems"(3)] by simp
  qed
next
  case (3 ops st)
  obtain r st1 where Pair: "dequeueHighestPriority st = (r, st1)" by (cases "dequeueHighestPriority st")
  show ?case
  proof (cases r)
    case None
    with Pair have "st1 = st" using dequeue_None by blast
    with "3.prems" "3.IH"(1) Pair None show ?thesis by simp
  next
    case (Some entry)
    with Pair have dq: "dequeueHighestPriority st = (Some entry, st1)" by simp
    have wb: "wellBucketed st1" using wellBucketed_dequeue "3.prems"(1) dq by blast
    obtain out1 where tr: "laneTrace ops st1 = (st', out1)" and out: "out = entry # out1"
      using "3.prems"(2) dq by (auto split: prod.splits)
    have len: "length (buckets st1) = length (buckets st)"
      using dequeue_nth(2) [OF "3.prems"(1) dq "3.prems"(3)] .
    have bi: "bucketIndex st1 = bucketIndex st" using len by (intro ext) (rule bucketIndex_cong)
    have i1: "i < length (buckets st1)" using len "3.prems"(3) by simp
    have IH: "filter (\<lambda>e. bucketIndex st e = int i) out1 @ buckets st' ! i
           = buckets st1 ! i @ filter (\<lambda>e. bucketIndex st e = int i) (enqueued ops)"
      using "3.IH"(2) [OF Pair [symmetric] Some wb tr i1] unfolding bi .
    show ?thesis
      unfolding out dequeue_nth(1) [OF "3.prems"(1) dq "3.prems"(3)]
      using IH by simp
  qed
qed


lemma laneTrace_wellBucketed:
  "wellBucketed st \<Longrightarrow> buckets st \<noteq> [] \<Longrightarrow> laneTrace ops st = (st', out) \<Longrightarrow>
     wellBucketed st' \<and> length (buckets st') = length (buckets st)"
proof (induction ops st arbitrary: st' out rule: laneTrace.induct)
  case (1 st)
  then show ?case by simp
next
  case (2 entry ops st)
  show ?case
  proof (cases "enqueueWithPriority st entry")
    case None
    have tr: "laneTrace ops st = (st', out)" using "2.prems"(3) None by simp
    show ?thesis using "2.IH"(1) [OF None "2.prems"(1) "2.prems"(2) tr] .
  next
    case (Some st1)
    have len: "length (buckets st1) = length (buckets st)"
      using enqueue_buckets [OF Some] by blast
    have ne: "buckets st1 \<noteq> []" using len "2.prems"(2) by auto
    have wb: "wellBucketed st1" using wellBucketed_enqueue "2.prems"(1) Some by blast
    have tr: "laneTrace ops st1 = (st', out)" using "2.prems"(3) Some by simp
    show ?thesis using "2.IH"(2) [OF Some wb ne tr] len by simp
  qed
next
  case (3 ops st)
  obtain r st1 where Pair: "dequeueHighestPriority st = (r, st1)" by (cases "dequeueHighestPriority st")
  show ?case
  proof (cases r)
    case None
    have eq: "st1 = st" using Pair None dequeue_None by blast
    have tr: "laneTrace ops st1 = (st', out)" using "3.prems"(3) Pair None by simp
    show ?thesis
      using "3.IH"(1) [OF Pair [symmetric] None _ _ tr] "3.prems"(1,2) unfolding eq by blast
  next
    case (Some entry)
    with Pair have dq: "dequeueHighestPriority st = (Some entry, st1)" by simp
    have wb: "wellBucketed st1" using wellBucketed_dequeue "3.prems"(1) dq by blast
    obtain out1 where tr: "laneTrace ops st1 = (st', out1)"
      using "3.prems"(3) dq by (auto split: prod.splits)
    have "0 < length (buckets st)" using "3.prems"(2) by simp
    then have len: "length (buckets st1) = length (buckets st)"
      using dequeue_nth(2) [OF "3.prems"(1) dq] by blast
    have ne: "buckets st1 \<noteq> []" using len "3.prems"(2) by auto
    show ?thesis using "3.IH"(2) [OF Pair [symmetric] Some wb ne tr] len by simp
  qed
qed

lemma freshLane_buckets: "buckets (freshLane name) = [[], [], []]"
  by (simp add: freshLane_def getLaneState_def initialQState_def createEmptyBuckets_def Let_def)

lemma wellBucketed_freshLane: "wellBucketed (freshLane name)"
  unfolding wellBucketed_def freshLane_buckets
  by (auto simp: nth_Cons split: nat.splits)

lemma enqueue_defined:
  "buckets st \<noteq> [] \<Longrightarrow>
     \<exists>st'. enqueueWithPriority st e = Some st' \<and>
       buckets st' = (buckets st)[nat (bucketIndex st e) := buckets st ! nat (bucketIndex st e) @ [e]]"
  by (cases "buckets st") (auto simp: enqueueWithPriority_def bucketIndex_def Let_def)

text \<open>
  Claim C5. For every named lane and every sequence of enqueues and dequeues from the
  lane's creation: (1) per bucket, the entries dequeued so far followed by the entries
  still queued are exactly the entries enqueued into that bucket, in enqueue order, so
  dequeue order within a bucket is enqueue order; (2) a dequeue that returns an entry
  returns the head of the entry's bucket, every lower-numbered (higher-priority) bucket
  is empty, and no other bucket changes; (3) a dequeue returns nothing only when all
  buckets are empty; (4) an enqueue appends the entry at the end of the bucket given by
  its clamped priority.
\<close>

theorem lane_dequeue_order:
  "laneTrace ops (freshLane name) = (st, out) \<Longrightarrow>
     (\<forall>i < length (buckets st).
        filter (\<lambda>e. bucketIndex st e = int i) out @ buckets st ! i
          = filter (\<lambda>e. bucketIndex st e = int i) (enqueued ops))
   \<and> (\<forall>e st'. dequeueHighestPriority st = (Some e, st') \<longrightarrow>
         0 \<le> bucketIndex st e \<and> nat (bucketIndex st e) < length (buckets st) \<and>
         (\<forall>j < nat (bucketIndex st e). buckets st ! j = []) \<and>
         buckets st ! nat (bucketIndex st e) = e # buckets st' ! nat (bucketIndex st e) \<and>
         (\<forall>j. j \<noteq> nat (bucketIndex st e) \<longrightarrow> buckets st' ! j = buckets st ! j))
   \<and> (\<forall>st'. dequeueHighestPriority st = (None, st') \<longrightarrow>
         st' = st \<and> (\<forall>b \<in> set (buckets st). b = []))
   \<and> (\<forall>e. \<exists>st'. enqueueWithPriority st e = Some st' \<and>
         buckets st' = (buckets st)[nat (bucketIndex st e) := buckets st ! nat (bucketIndex st e) @ [e]])"
proof -
  assume tr: "laneTrace ops (freshLane name) = (st, out)"
  have ne0: "buckets (freshLane name) \<noteq> []" by (simp add: freshLane_buckets)
  from laneTrace_wellBucketed [OF wellBucketed_freshLane ne0 tr]
  have wb: "wellBucketed st" and len: "length (buckets st) = length (buckets (freshLane name))"
    by simp_all
  have ne: "buckets st \<noteq> []" using len ne0 by auto
  have bi: "bucketIndex (freshLane name) = bucketIndex st"
    using len [symmetric] by (intro ext) (rule bucketIndex_cong)
  have fifo: "\<forall>i < length (buckets st).
        filter (\<lambda>e. bucketIndex st e = int i) out @ buckets st ! i
          = filter (\<lambda>e. bucketIndex st e = int i) (enqueued ops)"
  proof (intro allI impI)
    fix i assume "i < length (buckets st)"
    then have i: "i < length (buckets (freshLane name))" using len by simp
    have "buckets (freshLane name) ! i = []"
      using i unfolding freshLane_buckets by (auto simp: nth_Cons split: nat.splits)
    then show "filter (\<lambda>e. bucketIndex st e = int i) out @ buckets st ! i
          = filter (\<lambda>e. bucketIndex st e = int i) (enqueued ops)"
      using laneTrace_fifo [OF wellBucketed_freshLane tr i] unfolding bi by simp
  qed
  have deq: "\<forall>e st'. dequeueHighestPriority st = (Some e, st') \<longrightarrow>
         0 \<le> bucketIndex st e \<and> nat (bucketIndex st e) < length (buckets st) \<and>
         (\<forall>j < nat (bucketIndex st e). buckets st ! j = []) \<and>
         buckets st ! nat (bucketIndex st e) = e # buckets st' ! nat (bucketIndex st e) \<and>
         (\<forall>j. j \<noteq> nat (bucketIndex st e) \<longrightarrow> buckets st' ! j = buckets st ! j)"
  proof (intro allI impI)
    fix e st' assume dq: "dequeueHighestPriority st = (Some e, st')"
    from dequeue_buckets [OF dq] obtain k where k: "k < length (buckets st)"
      and emp: "\<forall>j < k. buckets st ! j = []"
      and hd: "buckets st ! k = e # buckets st' ! k"
      and upd: "buckets st' = (buckets st)[k := tl (buckets st ! k)]" by blast
    have "e \<in> set (buckets st ! k)" unfolding hd by simp
    then have ek: "bucketIndex st e = int k" using wb k unfolding wellBucketed_def by blast
    have same: "\<forall>j. j \<noteq> k \<longrightarrow> buckets st' ! j = buckets st ! j"
      by (subst upd) simp
    show "0 \<le> bucketIndex st e \<and> nat (bucketIndex st e) < length (buckets st) \<and>
         (\<forall>j < nat (bucketIndex st e). buckets st ! j = []) \<and>
         buckets st ! nat (bucketIndex st e) = e # buckets st' ! nat (bucketIndex st e) \<and>
         (\<forall>j. j \<noteq> nat (bucketIndex st e) \<longrightarrow> buckets st' ! j = buckets st ! j)"
      unfolding ek using k emp hd same by simp
  qed
  have none: "\<forall>st'. dequeueHighestPriority st = (None, st') \<longrightarrow>
         st' = st \<and> (\<forall>b \<in> set (buckets st). b = [])"
    using dequeue_None by blast
  have enq: "\<forall>e. \<exists>st'. enqueueWithPriority st e = Some st' \<and>
         buckets st' = (buckets st)[nat (bucketIndex st e) := buckets st ! nat (bucketIndex st e) @ [e]]"
    using enqueue_defined [OF ne] by blast
  show ?thesis using fifo deq none enq by blast
qed

text \<open>An entry with the default options, for the concrete runs below.\<close>

definition exampleEntry :: "nat \<Rightarrow> TaskPriority \<Rightarrow> QueueEntry" where
  "exampleEntry t p = \<lparr> task = t, enqueuedAt = 0, warnAfterMs = 2000, priority = p,
                         sessionKey = None, onWait = None \<rparr>"

lemmas lane_eval = freshLane_def getLaneState_def initialQState_def createEmptyBuckets_def
  enqueueWithPriority_def bucketIndex_def dequeueHighestPriority_def Let_def exampleEntry_def
  Urgent_def Normal_def Background_def

theorem lane_dequeue_order_witness:
  "laneTrace [Enqueue (exampleEntry 1 Normal), Enqueue (exampleEntry 2 Background),
            Enqueue (exampleEntry 3 Urgent), Enqueue (exampleEntry 4 Normal), Dequeue, Dequeue]
           (freshLane ''main'')
     = (\<lparr> lane = ''main'', buckets = [[], [exampleEntry 4 Normal], [exampleEntry 2 Background]],
          active = 0, activeTaskIds = {}, maxConcurrent = 1, draining = False \<rparr>,
        [exampleEntry 3 Urgent, exampleEntry 1 Normal])
   \<and> filter (\<lambda>e. bucketIndex (freshLane ''main'') e = 1)
        [exampleEntry 3 Urgent, exampleEntry 1 Normal] @ [exampleEntry 4 Normal]
      = [exampleEntry 1 Normal, exampleEntry 4 Normal]"
proof -
  have run: "laneTrace [Enqueue (exampleEntry 1 Normal), Enqueue (exampleEntry 2 Background),
            Enqueue (exampleEntry 3 Urgent), Enqueue (exampleEntry 4 Normal), Dequeue, Dequeue]
           (freshLane ''main'')
     = (\<lparr> lane = ''main'', buckets = [[], [exampleEntry 4 Normal], [exampleEntry 2 Background]],
          active = 0, activeTaskIds = {}, maxConcurrent = 1, draining = False \<rparr>,
        [exampleEntry 3 Urgent, exampleEntry 1 Normal])"
    by (simp add: lane_eval)
  show ?thesis
    using run lane_dequeue_order [OF run]
    by (simp add: lane_eval)
qed



subsection \<open>Session lanes: what a state shows\<close>

text \<open>
  The queue and the \<^verbatim>\<open>active\<close> flag of the lane stored under a key (a key with no lane
  has no queue and is not active), the number of lanes whose flag is set, and the number
  of started, unsettled tasks of a key.
\<close>

definition sessionQueue :: "string \<Rightarrow> QState \<Rightarrow> QueueEntry list" where
  "sessionQueue k s = (case map_of (sessionLanes s) k of None \<Rightarrow> [] | Some st \<Rightarrow> queue st)"

definition laneActive :: "string \<Rightarrow> QState \<Rightarrow> bool" where
  "laneActive k s = (case map_of (sessionLanes s) k of None \<Rightarrow> False | Some st \<Rightarrow> sl_active st)"

definition countActive :: "(string \<times> SessionLaneState) list \<Rightarrow> nat" where
  "countActive al = length (filter (\<lambda>(k, st). sl_active st) al)"

definition activeSessions :: "QState \<Rightarrow> nat" where
  "activeSessions s = countActive (sessionLanes s)"

definition runningIn :: "string \<Rightarrow> QState \<Rightarrow> nat" where
  "runningIn k s = length (filter (\<lambda>(k', e). k' = k) (sessionRunning s))"

lemma countActive_update_new:
  "map_of al k = None \<Longrightarrow>
     countActive (AList.update k v al) = countActive al + (if sl_active v then 1 else 0)"
  by (induction al) (auto simp: countActive_def)

lemma countActive_update_old:
  "distinct (map fst al) \<Longrightarrow> map_of al k = Some v0 \<Longrightarrow>
     countActive (AList.update k v al) + (if sl_active v0 then 1 else 0)
       = countActive al + (if sl_active v then 1 else 0)"
proof (induction al)
  case Nil
  then show ?case by simp
next
  case (Cons a al)
  obtain k' v' where a: "a = (k', v')" by (cases a)
  show ?case
  proof (cases "k' = k")
    case True
    then show ?thesis using Cons.prems a by (simp add: countActive_def)
  next
    case False
    then have "map_of al k = Some v0" using Cons.prems a by simp
    moreover have "distinct (map fst al)" using Cons.prems by simp
    ultimately have "countActive (AList.update k v al) + (if sl_active v0 then 1 else 0)
       = countActive al + (if sl_active v then 1 else 0)" using Cons.IH by blast
    then show ?thesis using False a by (simp add: countActive_def)
  qed
qed

lemma obs_update:
  assumes "distinct (map fst (sessionLanes s))"
    and "sessionLanes s' = AList.update k v (sessionLanes s)"
  shows "laneActive k' s' = (if k' = k then sl_active v else laneActive k' s)"
    and "sessionQueue k' s' = (if k' = k then queue v else sessionQueue k' s)"
    and "int (activeSessions s') =
           int (activeSessions s) - (if laneActive k s then 1 else 0) + (if sl_active v then 1 else 0)"
    and "distinct (map fst (sessionLanes s'))"
proof -
  show "laneActive k' s' = (if k' = k then sl_active v else laneActive k' s)"
    by (simp add: laneActive_def assms(2) update_conv)
  show "sessionQueue k' s' = (if k' = k then queue v else sessionQueue k' s)"
    by (simp add: sessionQueue_def assms(2) update_conv)
  show "distinct (map fst (sessionLanes s'))"
    by (simp add: assms distinct_update)
  show "int (activeSessions s') =
           int (activeSessions s) - (if laneActive k s then 1 else 0) + (if sl_active v then 1 else 0)"
  proof (cases "map_of (sessionLanes s) k")
    case None
    then show ?thesis
      using countActive_update_new [OF None, of v]
      by (simp add: activeSessions_def assms(2) laneActive_def)
  next
    case (Some v0)
    then show ?thesis
      using countActive_update_old [OF assms(1) Some, of v]
      by (simp add: activeSessions_def assms(2) laneActive_def split: if_splits)
  qed
qed


text \<open>The three guards of \<^verbatim>\<open>drainSessionLane\<close>, read from the state.\<close>

definition canStart :: "string \<Rightarrow> QState \<Rightarrow> bool" where
  "canStart k s = (\<not> laneActive k s \<and> sessionQueue k s \<noteq> [] \<and>
                    activeSessionCount s < maxConcurrentSessions s)"

lemma getSessionLaneState_obs:
  assumes "getSessionLaneState k s = (st, s1)"
  shows "map_of (sessionLanes s1) k = Some st"
    and "sl_active st = laneActive k s"
    and "queue st = sessionQueue k s"
    and "laneActive k' s1 = laneActive k' s"
    and "sessionQueue k' s1 = sessionQueue k' s"
    and "activeSessions s1 = activeSessions s"
    and "distinct (map fst (sessionLanes s)) \<Longrightarrow> distinct (map fst (sessionLanes s1))"
    and "s1 = s\<lparr> sessionLanes := sessionLanes s1 \<rparr>"
proof -
  show "map_of (sessionLanes s1) k = Some st"
    using assms by (auto simp: getSessionLaneState_def Let_def update_conv split: option.splits)
  show "sl_active st = laneActive k s"
    using assms by (auto simp: getSessionLaneState_def Let_def laneActive_def split: option.splits)
  show "queue st = sessionQueue k s"
    using assms by (auto simp: getSessionLaneState_def Let_def sessionQueue_def split: option.splits)
  show "laneActive k' s1 = laneActive k' s"
    using assms by (auto simp: getSessionLaneState_def Let_def laneActive_def update_conv split: option.splits if_splits)
  show "sessionQueue k' s1 = sessionQueue k' s"
    using assms by (auto simp: getSessionLaneState_def Let_def sessionQueue_def update_conv split: option.splits if_splits)
  show "activeSessions s1 = activeSessions s"
    using assms by (auto simp: getSessionLaneState_def Let_def activeSessions_def
        countActive_update_new split: option.splits)
  show "distinct (map fst (sessionLanes s)) \<Longrightarrow> distinct (map fst (sessionLanes s1))"
    using assms by (auto simp: getSessionLaneState_def Let_def distinct_update split: option.splits)
  show "s1 = s\<lparr> sessionLanes := sessionLanes s1 \<rparr>"
    using assms by (auto simp: getSessionLaneState_def Let_def split: option.splits)
qed

text \<open>The wait warning \<^verbatim>\<open>drainSessionLane\<close> makes for the head of a queue.\<close>

definition headWarning :: "string \<Rightarrow> int \<Rightarrow> QState \<Rightarrow> Completion" where
  "headWarning k now s =
     waitWarning (hd (sessionQueue k s)) now (length (tl (sessionQueue k s)))"

lemma drainSessionLane_idle:
  assumes "\<not> canStart k s"
  shows "snd (drainSessionLane k now s) = s\<lparr> sessionLanes := sessionLanes (snd (drainSessionLane k now s)) \<rparr>"
    and "laneActive k' (snd (drainSessionLane k now s)) = laneActive k' s"
    and "sessionQueue k' (snd (drainSessionLane k now s)) = sessionQueue k' s"
    and "activeSessions (snd (drainSessionLane k now s)) = activeSessions s"
    and "distinct (map fst (sessionLanes s)) \<Longrightarrow>
           distinct (map fst (sessionLanes (snd (drainSessionLane k now s))))"
    and "fst (drainSessionLane k now s) = Returned"
proof -
  obtain st s1 where g: "getSessionLaneState k s = (st, s1)"
    by (cases "getSessionLaneState k s")
  note o = getSessionLaneState_obs [OF g]
  have cnt: "activeSessionCount s1 = activeSessionCount s" "maxConcurrentSessions s1 = maxConcurrentSessions s"
    by (subst o(8), simp)+
  have "sl_active st \<or> length (queue st) = 0 \<or> activeSessionCount s1 \<ge> maxConcurrentSessions s1"
    using assms unfolding canStart_def o(2) o(3) cnt by auto
  then have eq: "drainSessionLane k now s = (Returned, s1)"
    unfolding drainSessionLane_def g by (auto split: list.splits)
  show "snd (drainSessionLane k now s) = s\<lparr> sessionLanes := sessionLanes (snd (drainSessionLane k now s)) \<rparr>"
    unfolding eq snd_conv by (rule o(8))
  show "laneActive k' (snd (drainSessionLane k now s)) = laneActive k' s" unfolding eq snd_conv by (rule o(4))
  show "sessionQueue k' (snd (drainSessionLane k now s)) = sessionQueue k' s" unfolding eq snd_conv by (rule o(5))
  show "activeSessions (snd (drainSessionLane k now s)) = activeSessions s" unfolding eq snd_conv by (rule o(6))
  show "distinct (map fst (sessionLanes s)) \<Longrightarrow>
           distinct (map fst (sessionLanes (snd (drainSessionLane k now s))))"
    unfolding eq snd_conv by (rule o(7))
  show "fst (drainSessionLane k now s) = Returned" unfolding eq by simp
qed

lemma drainSessionLane_start:
  assumes "canStart k s" "distinct (map fst (sessionLanes s))"
  shows "snd (drainSessionLane k now s) =
           s\<lparr> sessionLanes := sessionLanes (snd (drainSessionLane k now s)),
              activeSessionCount := activeSessionCount s + 1,
              sessionRunning := sessionRunning s @
                (if headWarning k now s = Returned then [(k, hd (sessionQueue k s))] else []),
              sessionOnWaitErrors := sessionOnWaitErrors s @
                (if headWarning k now s = Returned then [] else [hd (sessionQueue k s)]) \<rparr>"
    and "laneActive k' (snd (drainSessionLane k now s)) = (k' = k \<or> laneActive k' s)"
    and "sessionQueue k' (snd (drainSessionLane k now s)) =
           (if k' = k then tl (sessionQueue k s) else sessionQueue k' s)"
    and "activeSessions (snd (drainSessionLane k now s)) = activeSessions s + 1"
    and "distinct (map fst (sessionLanes (snd (drainSessionLane k now s))))"
    and "fst (drainSessionLane k now s) = headWarning k now s"
proof -
  obtain st s1 where g: "getSessionLaneState k s = (st, s1)"
    by (cases "getSessionLaneState k s")
  note o = getSessionLaneState_obs [OF g]
  have cnt: "activeSessionCount s1 = activeSessionCount s" "maxConcurrentSessions s1 = maxConcurrentSessions s"
    "sessionRunning s1 = sessionRunning s" "sessionOnWaitErrors s1 = sessionOnWaitErrors s"
    by (subst o(8), simp)+
  obtain entry rest where q: "queue st = entry # rest"
    using assms(1) unfolding canStart_def o(3) [symmetric] by (cases "queue st") auto
  have na: "\<not> sl_active st" using assms(1) unfolding canStart_def o(2) by simp
  have lt: "\<not> activeSessionCount s1 \<ge> maxConcurrentSessions s1"
    using assms(1) unfolding canStart_def cnt by simp
  have hd: "hd (sessionQueue k s) = entry" "tl (sessionQueue k s) = rest"
    unfolding o(3) [symmetric] q by simp_all
  have hw: "headWarning k now s = waitWarning entry now (length rest)"
    unfolding headWarning_def hd ..
  define v where "v = st\<lparr> queue := rest, sl_active := True \<rparr>"
  have eq: "drainSessionLane k now s =
      (headWarning k now s,
       s1\<lparr> sessionLanes := AList.update k v (sessionLanes s1),
           activeSessionCount := activeSessionCount s1 + 1,
           sessionRunning := sessionRunning s1 @
             (if headWarning k now s = Returned then [(k, entry)] else []),
           sessionOnWaitErrors := sessionOnWaitErrors s1 @
             (if headWarning k now s = Returned then [] else [entry]) \<rparr>)"
    unfolding drainSessionLane_def g v_def hw using na lt q
    by (cases "waitWarning entry now (length rest)") (simp_all add: Let_def)
  have d1: "distinct (map fst (sessionLanes s1))" using o(7) assms(2) by blast
  have sl: "sessionLanes (snd (drainSessionLane k now s)) = AList.update k v (sessionLanes s1)"
    unfolding eq by simp
  note u = obs_update [OF d1 sl]
  show "snd (drainSessionLane k now s) =
           s\<lparr> sessionLanes := sessionLanes (snd (drainSessionLane k now s)),
              activeSessionCount := activeSessionCount s + 1,
              sessionRunning := sessionRunning s @
                (if headWarning k now s = Returned then [(k, hd (sessionQueue k s))] else []),
              sessionOnWaitErrors := sessionOnWaitErrors s @
                (if headWarning k now s = Returned then [] else [hd (sessionQueue k s)]) \<rparr>"
    unfolding hd sl unfolding eq cnt snd_conv by (subst o(8)) simp
  show "laneActive k' (snd (drainSessionLane k now s)) = (k' = k \<or> laneActive k' s)"
    unfolding u(1) o(4) by (simp add: v_def)
  show "sessionQueue k' (snd (drainSessionLane k now s)) =
           (if k' = k then tl (sessionQueue k s) else sessionQueue k' s)"
    unfolding u(2) o(5) hd by (simp add: v_def)
  have "\<not> laneActive k s1" unfolding o(4) using assms(1) by (simp add: canStart_def)
  then have "int (activeSessions (snd (drainSessionLane k now s))) = int (activeSessions s1) + 1"
    unfolding u(3) by (simp add: v_def)
  then show "activeSessions (snd (drainSessionLane k now s)) = activeSessions s + 1"
    unfolding o(6) by simp
  show "distinct (map fst (sessionLanes (snd (drainSessionLane k now s))))" by (rule u(4))
  show "fst (drainSessionLane k now s) = headWarning k now s" unfolding eq by simp
qed

lemma drainSessionLane_idle_fields:
  assumes "\<not> canStart k s"
  shows "activeSessionCount (snd (drainSessionLane k now s)) = activeSessionCount s"
    and "maxConcurrentSessions (snd (drainSessionLane k now s)) = maxConcurrentSessions s"
    and "sessionRunning (snd (drainSessionLane k now s)) = sessionRunning s"
    and "lanes (snd (drainSessionLane k now s)) = lanes s"
    and "nextTaskId (snd (drainSessionLane k now s)) = nextTaskId s"
    and "laneRunning (snd (drainSessionLane k now s)) = laneRunning s"
    and "sessionOnWaitErrors (snd (drainSessionLane k now s)) = sessionOnWaitErrors s"
  by (subst drainSessionLane_idle(1) [OF assms], simp)+

lemma drainSessionLane_start_fields:
  assumes "canStart k s" "distinct (map fst (sessionLanes s))"
  shows "activeSessionCount (snd (drainSessionLane k now s)) = activeSessionCount s + 1"
    and "maxConcurrentSessions (snd (drainSessionLane k now s)) = maxConcurrentSessions s"
    and "sessionRunning (snd (drainSessionLane k now s)) = sessionRunning s @
           (if headWarning k now s = Returned then [(k, hd (sessionQueue k s))] else [])"
    and "lanes (snd (drainSessionLane k now s)) = lanes s"
    and "nextTaskId (snd (drainSessionLane k now s)) = nextTaskId s"
    and "laneRunning (snd (drainSessionLane k now s)) = laneRunning s"
    and "sessionOnWaitErrors (snd (drainSessionLane k now s)) = sessionOnWaitErrors s @
           (if headWarning k now s = Returned then [] else [hd (sessionQueue k s)])"
  by (subst drainSessionLane_start(1) [OF assms], simp)+


subsection \<open>Session lanes: what every step keeps\<close>

text \<open>
  Properties of a session scheduler state. \<open>lanesOrdered\<close>: keys are unique and every
  queue is ordered by priority number. \<open>sessionInv\<close>: in addition the global counter is
  the number of active lanes and a lane runs one task exactly when its flag is set.
  \<open>withinCap\<close>: the counter is within the limit.
\<close>

definition lanesOrdered :: "QState \<Rightarrow> bool" where
  "lanesOrdered s =
     (distinct (map fst (sessionLanes s)) \<and>
      (\<forall>k. sorted (map priority (sessionQueue k s))))"

definition sessionInv :: "QState \<Rightarrow> bool" where
  "sessionInv s =
     (distinct (map fst (sessionLanes s)) \<and>
      activeSessionCount s = int (activeSessions s) \<and>
      (\<forall>k. runningIn k s = (if laneActive k s then 1 else 0)) \<and>
      (\<forall>k. sorted (map priority (sessionQueue k s))))"

definition withinCap :: "QState \<Rightarrow> bool" where
  "withinCap s = (activeSessionCount s \<le> maxConcurrentSessions s)"

text \<open>
  What every step of the scheduler keeps, from a state to the result of a call: an
  exception is recorded; the limit stays; the counter grows only within the limit; the
  lanes stay ordered; and \<open>sessionInv\<close> is kept when no callback has thrown.
\<close>

definition weakStep :: "QState \<Rightarrow> Completion \<times> QState \<Rightarrow> bool" where
  "weakStep s r =
     ((sessionOnWaitErrors (snd r) = [] \<longrightarrow> sessionOnWaitErrors s = [] \<and> fst r = Returned) \<and>
      maxConcurrentSessions (snd r) = maxConcurrentSessions s \<and>
      activeSessionCount (snd r) \<le> max (activeSessionCount s) (maxConcurrentSessions s) \<and>
      (lanesOrdered s \<longrightarrow> lanesOrdered (snd r)))"

definition goodStep :: "QState \<Rightarrow> Completion \<times> QState \<Rightarrow> bool" where
  "goodStep s r =
     (weakStep s r \<and> (sessionInv s \<longrightarrow> sessionOnWaitErrors (snd r) = [] \<longrightarrow> sessionInv (snd r)))"

lemma weakStep_D:
  assumes "weakStep s r"
  shows "sessionOnWaitErrors (snd r) = [] \<Longrightarrow> sessionOnWaitErrors s = []"
    and "sessionOnWaitErrors (snd r) = [] \<Longrightarrow> fst r = Returned"
    and "maxConcurrentSessions (snd r) = maxConcurrentSessions s"
    and "activeSessionCount (snd r) \<le> max (activeSessionCount s) (maxConcurrentSessions s)"
    and "lanesOrdered s \<Longrightarrow> lanesOrdered (snd r)"
  using assms unfolding weakStep_def by blast+

lemma weakStep_I:
  assumes "sessionOnWaitErrors (snd r) = [] \<Longrightarrow> sessionOnWaitErrors s = []"
    and "sessionOnWaitErrors (snd r) = [] \<Longrightarrow> fst r = Returned"
    and "maxConcurrentSessions (snd r) = maxConcurrentSessions s"
    and "activeSessionCount (snd r) \<le> max (activeSessionCount s) (maxConcurrentSessions s)"
    and "lanesOrdered s \<Longrightarrow> lanesOrdered (snd r)"
  shows "weakStep s r"
  unfolding weakStep_def using assms by blast

lemma weakStep_refl: "weakStep s (Returned, s)"
  by (simp add: weakStep_def)

lemma weakStep_returned: "weakStep s r \<Longrightarrow> weakStep s (Returned, snd r)"
  by (simp add: weakStep_def)

lemma weakStep_trans:
  assumes "weakStep s r1" "weakStep (snd r1) r2"
  shows "weakStep s r2"
proof (rule weakStep_I)
  note a = weakStep_D [OF assms(1)] and b = weakStep_D [OF assms(2)]
  show "sessionOnWaitErrors (snd r2) = [] \<Longrightarrow> sessionOnWaitErrors s = []" using a(1) b(1) by blast
  show "sessionOnWaitErrors (snd r2) = [] \<Longrightarrow> fst r2 = Returned" by (rule b(2))
  show "maxConcurrentSessions (snd r2) = maxConcurrentSessions s" using a(3) b(3) by simp
  show "activeSessionCount (snd r2) \<le> max (activeSessionCount s) (maxConcurrentSessions s)"
    using a(3) a(4) b(4) by simp
  show "lanesOrdered s \<Longrightarrow> lanesOrdered (snd r2)" using a(5) b(5) by blast
qed

lemma weakStep_bind:
  assumes "weakStep s (f s)" "\<And>s1. weakStep s1 (g s1)"
  shows "weakStep s (case f s of (Returned, s1) \<Rightarrow> g s1 | (Thrown, s1) \<Rightarrow> (Thrown, s1))"
proof (cases "f s")
  case (Pair c s1)
  show ?thesis
  proof (cases c)
    case Returned
    have "weakStep (snd (f s)) (g s1)" unfolding Pair snd_conv by (rule assms(2))
    from weakStep_trans [OF assms(1) this] show ?thesis unfolding Pair Returned by simp
  next
    case Thrown
    show ?thesis using assms(1) unfolding Pair Thrown by simp
  qed
qed

text \<open>The \<^verbatim>\<open>try\<close> block followed, when it threw, by the \<^verbatim>\<open>catch\<close> block.\<close>

lemma weakStep_catch:
  assumes "weakStep s (f s)" "\<And>s1. weakStep s1 (g s1)"
  shows "weakStep s (case f s of (Returned, s1) \<Rightarrow> (Returned, s1) | (Thrown, s1) \<Rightarrow> g s1)"
proof (cases "f s")
  case (Pair c s1)
  show ?thesis
  proof (cases c)
    case Returned
    show ?thesis using assms(1) unfolding Pair Returned by simp
  next
    case Thrown
    have "weakStep (snd (f s)) (g s1)" unfolding Pair snd_conv by (rule assms(2))
    from weakStep_trans [OF assms(1) this] show ?thesis unfolding Pair Thrown by simp
  qed
qed

lemma goodStep_D:
  assumes "goodStep s r"
  shows "sessionOnWaitErrors (snd r) = [] \<Longrightarrow> sessionOnWaitErrors s = []"
    and "sessionOnWaitErrors (snd r) = [] \<Longrightarrow> fst r = Returned"
    and "maxConcurrentSessions (snd r) = maxConcurrentSessions s"
    and "activeSessionCount (snd r) \<le> max (activeSessionCount s) (maxConcurrentSessions s)"
    and "lanesOrdered s \<Longrightarrow> lanesOrdered (snd r)"
    and "sessionInv s \<Longrightarrow> sessionOnWaitErrors (snd r) = [] \<Longrightarrow> sessionInv (snd r)"
    and "weakStep s r"
proof -
  have w: "weakStep s r" using assms by (simp add: goodStep_def)
  note d = weakStep_D [OF w]
  show "sessionOnWaitErrors (snd r) = [] \<Longrightarrow> sessionOnWaitErrors s = []" by (rule d(1))
  show "sessionOnWaitErrors (snd r) = [] \<Longrightarrow> fst r = Returned" by (rule d(2))
  show "maxConcurrentSessions (snd r) = maxConcurrentSessions s" by (rule d(3))
  show "activeSessionCount (snd r) \<le> max (activeSessionCount s) (maxConcurrentSessions s)"
    by (rule d(4))
  show "lanesOrdered s \<Longrightarrow> lanesOrdered (snd r)" by (rule d(5))
  show "sessionInv s \<Longrightarrow> sessionOnWaitErrors (snd r) = [] \<Longrightarrow> sessionInv (snd r)"
    using assms by (simp add: goodStep_def)
  show "weakStep s r" by (rule w)
qed

lemma goodStep_I:
  assumes "sessionOnWaitErrors (snd r) = [] \<Longrightarrow> sessionOnWaitErrors s = []"
    and "sessionOnWaitErrors (snd r) = [] \<Longrightarrow> fst r = Returned"
    and "maxConcurrentSessions (snd r) = maxConcurrentSessions s"
    and "activeSessionCount (snd r) \<le> max (activeSessionCount s) (maxConcurrentSessions s)"
    and "lanesOrdered s \<Longrightarrow> lanesOrdered (snd r)"
    and "sessionInv s \<Longrightarrow> sessionOnWaitErrors (snd r) = [] \<Longrightarrow> sessionInv (snd r)"
  shows "goodStep s r"
  unfolding goodStep_def using weakStep_I [of r s, OF assms(1-5)] assms(6) by blast

lemma goodStep_I2:
  assumes "weakStep s r"
    and "sessionInv s \<Longrightarrow> sessionOnWaitErrors (snd r) = [] \<Longrightarrow> sessionInv (snd r)"
  shows "goodStep s r"
  unfolding goodStep_def using assms by blast

lemma goodStep_refl: "goodStep s (Returned, s)"
  by (simp add: goodStep_def weakStep_refl)

lemma goodStep_returned: "goodStep s r \<Longrightarrow> goodStep s (Returned, snd r)"
  by (simp add: goodStep_def weakStep_returned)

lemma goodStep_trans:
  assumes "goodStep s r1" "goodStep (snd r1) r2"
  shows "goodStep s r2"
proof (rule goodStep_I2)
  note a = goodStep_D [OF assms(1)] and b = goodStep_D [OF assms(2)]
  show "weakStep s r2" by (rule weakStep_trans [OF a(7) b(7)])
  show "sessionInv s \<Longrightarrow> sessionOnWaitErrors (snd r2) = [] \<Longrightarrow> sessionInv (snd r2)"
    using a(6) b(1) b(6) by blast
qed

lemma goodStep_bind:
  assumes "goodStep s (f s)" "\<And>s1. goodStep s1 (g s1)"
  shows "goodStep s (case f s of (Returned, s1) \<Rightarrow> g s1 | (Thrown, s1) \<Rightarrow> (Thrown, s1))"
proof (cases "f s")
  case (Pair c s1)
  show ?thesis
  proof (cases c)
    case Returned
    have "goodStep (snd (f s)) (g s1)" unfolding Pair snd_conv by (rule assms(2))
    from goodStep_trans [OF assms(1) this] show ?thesis unfolding Pair Returned by simp
  next
    case Thrown
    show ?thesis using assms(1) unfolding Pair Thrown by simp
  qed
qed

lemma sorted_tl_map: "sorted (map f xs) \<Longrightarrow> sorted (map f (tl xs))"
  by (cases xs) simp_all

lemma drainSessionLane_raw:
  "(sessionOnWaitErrors (snd (drainSessionLane k now s)) = [] \<longrightarrow>
      sessionOnWaitErrors s = [] \<and> fst (drainSessionLane k now s) = Returned) \<and>
   maxConcurrentSessions (snd (drainSessionLane k now s)) = maxConcurrentSessions s \<and>
   activeSessionCount (snd (drainSessionLane k now s))
     \<le> max (activeSessionCount s) (maxConcurrentSessions s)"
  by (auto simp: drainSessionLane_def getSessionLaneState_def Let_def
           split: option.splits list.splits Completion.splits)

lemma drainSessionLane_good: "goodStep s (drainSessionLane k now s)"
proof (rule goodStep_I)
  let ?r = "drainSessionLane k now s"
  let ?s' = "snd ?r"
  note raw = drainSessionLane_raw [of k now s]
  show "sessionOnWaitErrors ?s' = [] \<Longrightarrow> sessionOnWaitErrors s = []" using raw by blast
  show "sessionOnWaitErrors ?s' = [] \<Longrightarrow> fst ?r = Returned" using raw by blast
  show "maxConcurrentSessions ?s' = maxConcurrentSessions s" using raw by blast
  show "activeSessionCount ?s' \<le> max (activeSessionCount s) (maxConcurrentSessions s)"
    using raw by blast
  show "lanesOrdered ?s'" if lo: "lanesOrdered s"
  proof -
    have d: "distinct (map fst (sessionLanes s))"
      and so: "\<And>k'. sorted (map priority (sessionQueue k' s))"
      using lo by (simp_all add: lanesOrdered_def)
    show ?thesis
    proof (cases "canStart k s")
      case False
      note i = drainSessionLane_idle [OF False, where now = now]
      show ?thesis unfolding lanesOrdered_def i(3) using i(5) [OF d] so by simp
    next
      case True
      note i = drainSessionLane_start [OF True d, where now = now]
      have "\<And>k'. sorted (map priority (sessionQueue k' ?s'))"
        unfolding i(3) using so sorted_tl_map by auto
      then show ?thesis unfolding lanesOrdered_def using i(5) by simp
    qed
  qed
  show "sessionInv ?s'" if inv: "sessionInv s" and quiet: "sessionOnWaitErrors ?s' = []"
  proof -
    have d: "distinct (map fst (sessionLanes s))" using inv by (simp add: sessionInv_def)
    have c: "activeSessionCount s = int (activeSessions s)" using inv by (simp add: sessionInv_def)
    have r: "\<And>k'. runningIn k' s = (if laneActive k' s then 1 else 0)"
      using inv by (simp add: sessionInv_def)
    have so: "\<And>k'. sorted (map priority (sessionQueue k' s))"
      using inv by (simp add: sessionInv_def)
    show ?thesis
    proof (cases "canStart k s")
      case False
      note i = drainSessionLane_idle [OF False, where now = now]
        and f = drainSessionLane_idle_fields [OF False, where now = now]
      have "\<And>k'. runningIn k' ?s' = runningIn k' s" by (simp add: runningIn_def f(3))
      then show ?thesis
        unfolding sessionInv_def using i(2,3,4) i(5) [OF d] f(1) c r so by simp
    next
      case True
      note i = drainSessionLane_start [OF True d, where now = now]
        and f = drainSessionLane_start_fields [OF True d, where now = now]
      have hw: "headWarning k now s = Returned"
        using quiet unfolding f(7) by (simp split: if_splits)
      have nk: "\<not> laneActive k s" using True by (simp add: canStart_def)
      have run: "\<And>k'. runningIn k' ?s' = runningIn k' s + (if k' = k then 1 else 0)"
        by (simp add: runningIn_def f(3) hw)
      have r': "\<And>k'. runningIn k' ?s' = (if laneActive k' ?s' then 1 else 0)"
        unfolding run i(2) using r nk by auto
      have so': "\<And>k'. sorted (map priority (sessionQueue k' ?s'))"
        unfolding i(3) using so sorted_tl_map by auto
      show ?thesis
        unfolding sessionInv_def using i(5) i(4) f(1) c r' so' by simp
    qed
  qed
qed

lemma drainWaitingLoop_good: "goodStep s (drainWaitingLoop ks now s)"
proof (induction ks arbitrary: s)
  case Nil
  show ?case by (simp add: goodStep_refl)
next
  case (Cons k ks)
  show ?case
  proof (cases "map_of (sessionLanes s) k")
    case None
    then show ?thesis using Cons.IH [of s] by simp
  next
    case (Some st)
    show ?thesis
    proof (cases "\<not> sl_active st \<and> length (queue st) > 0")
      case False
      then show ?thesis using Cons.IH [of s] Some by auto
    next
      case True
      define g where "g = (\<lambda>s1. if activeSessionCount s1 \<ge> maxConcurrentSessions s1
                                  then (Returned, s1) else drainWaitingLoop ks now s1)"
      have gg: "goodStep s1 (g s1)" for s1
        unfolding g_def using Cons.IH [of s1] by (simp add: goodStep_refl)
      have "drainWaitingLoop (k # ks) now s
              = (case drainSessionLane k now s of
                   (Returned, s1) \<Rightarrow> g s1 | (Thrown, s1) \<Rightarrow> (Thrown, s1))"
        using Some True unfolding g_def
        by (simp split: prod.splits Completion.splits)
      then show ?thesis
        using goodStep_bind [where f = "drainSessionLane k now" and g = g, OF drainSessionLane_good gg]
        by simp
    qed
  qed
qed

lemma drainWaitingSessions_good: "goodStep s (drainWaitingSessions now s)"
  unfolding drainWaitingSessions_def using drainWaitingLoop_good by (simp add: goodStep_refl)


lemma setLane_inv:
  assumes "sessionInv s" "sl_active v = laneActive k s" "sorted (map priority (queue v))"
    and "sessionLanes s' = AList.update k v (sessionLanes s)"
    and "activeSessionCount s' = activeSessionCount s" "sessionRunning s' = sessionRunning s"
  shows "sessionInv s'"
proof -
  have d: "distinct (map fst (sessionLanes s))" using assms(1) by (simp add: sessionInv_def)
  note u = obs_update [OF d assms(4)]
  have "\<And>k'. runningIn k' s' = runningIn k' s" by (simp add: runningIn_def assms(6))
  moreover have "\<And>k'. laneActive k' s' = laneActive k' s" unfolding u(1) using assms(2) by simp
  moreover have "int (activeSessions s') = int (activeSessions s)" unfolding u(3) using assms(2) by simp
  moreover have "\<And>k'. sorted (map priority (sessionQueue k' s'))"
    unfolding u(2) using assms(1,3) by (simp add: sessionInv_def)
  ultimately show ?thesis
    using assms(1,5) u(4) unfolding sessionInv_def by simp
qed

lemma setLane_ordered:
  assumes "lanesOrdered s" "sorted (map priority (queue v))"
    and "sessionLanes s' = AList.update k v (sessionLanes s)"
  shows "lanesOrdered s'"
proof -
  have d: "distinct (map fst (sessionLanes s))" using assms(1) by (simp add: lanesOrdered_def)
  note u = obs_update [OF d assms(3)]
  have "\<And>k'. sorted (map priority (sessionQueue k' s'))"
    unfolding u(2) using assms(1,2) by (simp add: lanesOrdered_def)
  then show ?thesis using u(4) unfolding lanesOrdered_def by simp
qed

lemma getSessionLaneState_fields:
  assumes "getSessionLaneState k s = (st, s1)"
  shows "activeSessionCount s1 = activeSessionCount s"
    and "maxConcurrentSessions s1 = maxConcurrentSessions s"
    and "sessionRunning s1 = sessionRunning s"
    and "sessionOnWaitErrors s1 = sessionOnWaitErrors s"
  by (subst getSessionLaneState_obs(8) [OF assms], simp)+

lemma getSessionLaneState_inv:
  assumes "getSessionLaneState k s = (st, s1)"
  shows "sessionInv s \<Longrightarrow> sessionInv s1"
    and "lanesOrdered s \<Longrightarrow> lanesOrdered s1"
proof -
  note o = getSessionLaneState_obs [OF assms] and f = getSessionLaneState_fields [OF assms]
  have "\<And>k'. runningIn k' s1 = runningIn k' s" by (simp add: runningIn_def f(3))
  then show "sessionInv s \<Longrightarrow> sessionInv s1"
    using o(7) unfolding sessionInv_def o(4) o(5) o(6) f(1) by simp
  show "lanesOrdered s \<Longrightarrow> lanesOrdered s1"
    using o(7) unfolding lanesOrdered_def o(5) by simp
qed

lemma set_insertByPriority: "set (insertByPriority entry q) = insert entry (set q)"
  by (induction q) auto

lemma insertByPriority_sorted:
  "sorted (map priority q) \<Longrightarrow> sorted (map priority (insertByPriority entry q))"
  by (induction q) (auto simp: set_insertByPriority)

lemma insertByPriority_split:
  "insertByPriority entry q =
     takeWhile (\<lambda>x. \<not> priority x > priority entry) q
       @ entry # dropWhile (\<lambda>x. \<not> priority x > priority entry) q"
  by (induction q) auto

lemma sorted_takeWhile_filter:
  "sorted (map priority q) \<Longrightarrow>
     takeWhile (\<lambda>x. \<not> priority x > p) q = filter (\<lambda>x. priority x \<le> p) q \<and>
     dropWhile (\<lambda>x. \<not> priority x > p) q = filter (\<lambda>x. priority x > p) q"
proof (induction q)
  case Nil
  then show ?case by simp
next
  case (Cons a q)
  show ?case
  proof (cases "priority a > p")
    case True
    have "\<forall>x \<in> set q. priority x > p" using Cons.prems True by auto
    then have "filter (\<lambda>x. priority x \<le> p) q = []" "filter (\<lambda>x. priority x > p) q = q"
      by (auto simp: filter_empty_conv filter_id_conv)
    then show ?thesis using True by simp
  next
    case False
    then show ?thesis using Cons by (auto simp: not_less)
  qed
qed

text \<open>The state \<^verbatim>\<open>enqueueSessionTask\<close> drains: the entry is in its place in the queue.\<close>

lemma enqueueSessionTask_unfold:
  assumes "opt_sessionKey opts \<noteq> []" "getSessionLaneState (opt_sessionKey opts) s = (st, s1)"
  shows "enqueueSessionTask t opts now s =
           snd (drainSessionLane (opt_sessionKey opts) now
                  (s1\<lparr> sessionLanes :=
                         AList.update (opt_sessionKey opts)
                           (st\<lparr> queue := insertByPriority
                                   \<lparr> task = t, enqueuedAt = now,
                                     warnAfterMs = (case opt_warnAfterMs opts of None \<Rightarrow> 2000 | Some w \<Rightarrow> w),
                                     priority = (case opt_priority opts of None \<Rightarrow> Normal | Some p \<Rightarrow> p),
                                     sessionKey = Some (opt_sessionKey opts),
                                     onWait = opt_onWait opts \<rparr> (queue st) \<rparr>)
                           (sessionLanes s1) \<rparr>))"
  using assms unfolding enqueueSessionTask_def Let_def by simp

lemma enqueueSessionTask_good:
  assumes "opt_sessionKey opts \<noteq> []"
  shows "goodStep s (Returned, enqueueSessionTask t opts now s)"
proof -
  define k where "k = opt_sessionKey opts"
  obtain st s1 where g: "getSessionLaneState k s = (st, s1)" by (cases "getSessionLaneState k s")
  define entry where "entry = \<lparr> task = t, enqueuedAt = now,
      warnAfterMs = (case opt_warnAfterMs opts of None \<Rightarrow> 2000 | Some w \<Rightarrow> w),
      priority = (case opt_priority opts of None \<Rightarrow> Normal | Some p \<Rightarrow> p),
      sessionKey = Some k, onWait = opt_onWait opts \<rparr>"
  define v where "v = st\<lparr> queue := insertByPriority entry (queue st) \<rparr>"
  define s2 where "s2 = s1\<lparr> sessionLanes := AList.update k v (sessionLanes s1) \<rparr>"
  have eq: "enqueueSessionTask t opts now s = snd (drainSessionLane k now s2)"
    using enqueueSessionTask_unfold [OF assms g [unfolded k_def], of t now]
    unfolding s2_def v_def entry_def k_def .
  note o = getSessionLaneState_obs [OF g] and i = getSessionLaneState_inv [OF g]
    and f = getSessionLaneState_fields [OF g]
  have sl2: "sessionLanes s2 = AList.update k v (sessionLanes s1)" by (simp add: s2_def)
  have f2: "activeSessionCount s2 = activeSessionCount s" "maxConcurrentSessions s2 = maxConcurrentSessions s"
    "sessionOnWaitErrors s2 = sessionOnWaitErrors s" "sessionRunning s2 = sessionRunning s1"
    "activeSessionCount s2 = activeSessionCount s1"
    unfolding s2_def using f by simp_all
  have ac: "sl_active v = laneActive k s1" unfolding o(4) using o(2) by (simp add: v_def)
  have ord2: "lanesOrdered s2" if lo: "lanesOrdered s"
  proof -
    have "sorted (map priority (queue st))"
      using i(2) [OF lo] unfolding o(3) o(5) [symmetric] by (simp add: lanesOrdered_def)
    then have so: "sorted (map priority (queue v))"
      using insertByPriority_sorted by (simp add: v_def)
    show ?thesis by (rule setLane_ordered [OF i(2) [OF lo] so sl2])
  qed
  have inv2: "sessionInv s2" if inv: "sessionInv s"
  proof -
    have "sorted (map priority (queue st))"
      using i(1) [OF inv] unfolding o(3) o(5) [symmetric] by (simp add: sessionInv_def)
    then have so: "sorted (map priority (queue v))"
      using insertByPriority_sorted by (simp add: v_def)
    show ?thesis by (rule setLane_inv [OF i(1) [OF inv] ac so sl2 f2(5) f2(4)])
  qed
  have g2: "goodStep s (Returned, s2)"
    by (rule goodStep_I) (simp_all add: f2 ord2 inv2)
  have "goodStep (snd (Returned, s2)) (drainSessionLane k now s2)"
    by (simp add: drainSessionLane_good)
  from goodStep_returned [OF goodStep_trans [OF g2 this]]
  show ?thesis unfolding eq .
qed

lemma filter_remove1_length:
  "r \<in> set xs \<Longrightarrow>
     length (filter P (remove1 r xs)) + (if P r then 1 else 0) = length (filter P xs)"
  by (induction xs) auto

lemma sessionSettleBlock_unfold:
  "map_of (sessionLanes s) k = Some st \<Longrightarrow>
     sessionSettleBlock k now s =
       (case drainSessionLane k now
               (s\<lparr> sessionLanes := AList.update k (st\<lparr> sl_active := False \<rparr>) (sessionLanes s),
                   activeSessionCount := activeSessionCount s - 1 \<rparr>) of
          (Returned, s1) \<Rightarrow> drainWaitingSessions now s1
        | (Thrown, s1) \<Rightarrow> (Thrown, s1))"
  by (simp add: sessionSettleBlock_def split: prod.splits Completion.splits)

lemma sessionSettleBlock_weak: "weakStep s (sessionSettleBlock k now s)"
proof (cases "map_of (sessionLanes s) k")
  case None
  then show ?thesis by (simp add: sessionSettleBlock_def weakStep_refl)
next
  case (Some st)
  define s0 where "s0 = s\<lparr> sessionLanes := AList.update k (st\<lparr> sl_active := False \<rparr>) (sessionLanes s),
                   activeSessionCount := activeSessionCount s - 1 \<rparr>"
  have sl0: "sessionLanes s0 = AList.update k (st\<lparr> sl_active := False \<rparr>) (sessionLanes s)"
    by (simp add: s0_def)
  have ord: "lanesOrdered s0" if lo: "lanesOrdered s"
  proof -
    have "sorted (map priority (queue (st\<lparr> sl_active := False \<rparr>)))"
      using lo Some unfolding lanesOrdered_def sessionQueue_def
      by (auto dest: spec [of _ k])
    from setLane_ordered [OF lo this sl0] show ?thesis .
  qed
  have w0: "weakStep s (Returned, s0)"
    by (rule weakStep_I) (simp_all add: ord, simp_all add: s0_def)
  have w1: "weakStep s1 (drainWaitingSessions now s1)" for s1
    using goodStep_D(7) [OF drainWaitingSessions_good] .
  have "weakStep (snd (Returned, s0))
          (case drainSessionLane k now s0 of
             (Returned, s1) \<Rightarrow> drainWaitingSessions now s1 | (Thrown, s1) \<Rightarrow> (Thrown, s1))"
    unfolding snd_conv
    by (rule weakStep_bind [where f = "drainSessionLane k now" and g = "drainWaitingSessions now",
          OF goodStep_D(7) [OF drainSessionLane_good] w1])
  from weakStep_trans [OF w0 this]
  show ?thesis unfolding sessionSettleBlock_unfold [OF Some] s0_def .
qed

lemma sessionTaskSettles_weak: "weakStep s (sessionTaskSettles k i ok now s)"
proof -
  define running where "running = filter (\<lambda>(k', e). k' = k) (sessionRunning s)"
  show ?thesis
  proof (cases "i < length running \<and> map_of (sessionLanes s) k \<noteq> None")
    case False
    then have "sessionTaskSettles k i ok now s = (Returned, s)"
      unfolding sessionTaskSettles_def Let_def running_def by auto
    then show ?thesis by (simp add: weakStep_refl)
  next
    case True
    define s0 where "s0 = s\<lparr> sessionRunning := remove1 (running ! i) (sessionRunning s) \<rparr>"
    have eq: "sessionTaskSettles k i ok now s =
        (if ok then (case sessionSettleBlock k now s0 of
                       (Returned, s1) \<Rightarrow> (Returned, s1)
                     | (Thrown, s1) \<Rightarrow> sessionSettleBlock k now s1)
         else sessionSettleBlock k now s0)"
      using True unfolding sessionTaskSettles_def Let_def running_def s0_def by simp
    have "lanesOrdered s0 = lanesOrdered s"
      by (simp add: lanesOrdered_def s0_def sessionQueue_def)
    then have w0: "weakStep s (Returned, s0)"
      by (intro weakStep_I) (simp_all add: s0_def)
    have blk: "weakStep s1 (sessionSettleBlock k now s1)" for s1 by (rule sessionSettleBlock_weak)
    have c: "weakStep s0 (case sessionSettleBlock k now s0 of
                       (Returned, s1) \<Rightarrow> (Returned, s1)
                     | (Thrown, s1) \<Rightarrow> sessionSettleBlock k now s1)"
      by (rule weakStep_catch [where f = "sessionSettleBlock k now" and g = "sessionSettleBlock k now",
            OF blk blk])
    have "weakStep (snd (Returned, s0)) (sessionTaskSettles k i ok now s)"
      unfolding eq snd_conv using c blk by simp
    from weakStep_trans [OF w0 this] show ?thesis .
  qed
qed

lemma sessionTaskSettles_inv:
  assumes "sessionInv s" "sessionOnWaitErrors (snd (sessionTaskSettles k i ok now s)) = []"
  shows "sessionInv (snd (sessionTaskSettles k i ok now s))"
proof -
  define running where "running = filter (\<lambda>(k', e). k' = k) (sessionRunning s)"
  show ?thesis
  proof (cases "i < length running \<and> map_of (sessionLanes s) k \<noteq> None")
    case False
    then have "sessionTaskSettles k i ok now s = (Returned, s)"
      unfolding sessionTaskSettles_def Let_def running_def by auto
    then show ?thesis using assms(1) by simp
  next
    case True
    then obtain st where Some: "map_of (sessionLanes s) k = Some st" by auto
    define r where "r = running ! i"
    define s0 where "s0 = s\<lparr> sessionRunning := remove1 r (sessionRunning s) \<rparr>"
    define s0' where "s0' = s0\<lparr> sessionLanes := AList.update k (st\<lparr> sl_active := False \<rparr>) (sessionLanes s0),
                   activeSessionCount := activeSessionCount s0 - 1 \<rparr>"
    have eq: "sessionTaskSettles k i ok now s =
        (if ok then (case sessionSettleBlock k now s0 of
                       (Returned, s1) \<Rightarrow> (Returned, s1)
                     | (Thrown, s1) \<Rightarrow> sessionSettleBlock k now s1)
         else sessionSettleBlock k now s0)"
      using True unfolding sessionTaskSettles_def Let_def running_def s0_def r_def by simp
    have Some0: "map_of (sessionLanes s0) k = Some st" using Some by (simp add: s0_def)
    have blk: "sessionSettleBlock k now s0 =
       (case drainSessionLane k now s0' of
          (Returned, s1) \<Rightarrow> drainWaitingSessions now s1
        | (Thrown, s1) \<Rightarrow> (Thrown, s1))"
      unfolding sessionSettleBlock_unfold [OF Some0] s0'_def ..
    have d: "distinct (map fst (sessionLanes s))" using assms(1) by (simp add: sessionInv_def)
    have "r \<in> set running" unfolding r_def using True by simp
    then have rin: "r \<in> set (sessionRunning s)" and rk: "fst r = k"
      unfolding running_def by (auto simp: case_prod_unfold)
    have "running \<noteq> []" using True by auto
    then have "runningIn k s \<noteq> 0" unfolding runningIn_def running_def by simp
    then have act: "laneActive k s" using assms(1) unfolding sessionInv_def by (metis)
    have sl0: "sessionLanes s0' = AList.update k (st\<lparr> sl_active := False \<rparr>) (sessionLanes s)"
      by (simp add: s0'_def s0_def)
    note u = obs_update [OF d sl0]
    have run0: "runningIn k' s0' = runningIn k' s - (if k' = k then 1 else 0)" for k'
      unfolding runningIn_def
      using filter_remove1_length [OF rin, of "\<lambda>(k'', e). k'' = k'"] rk
      by (auto simp: s0'_def s0_def case_prod_unfold)
    have r0: "\<And>k'. runningIn k' s0' = (if laneActive k' s0' then 1 else 0)"
      unfolding run0 u(1) using assms(1) by (auto simp: sessionInv_def)
    have q0: "\<And>k'. sessionQueue k' s0' = sessionQueue k' s"
      unfolding u(2) using Some by (simp add: sessionQueue_def)
    have c0: "activeSessionCount s0' = int (activeSessions s0')"
      unfolding u(3) using act assms(1) by (simp add: s0'_def s0_def sessionInv_def)
    have inv0: "sessionInv s0'"
      unfolding sessionInv_def q0 using u(4) c0 r0 assms(1) by (simp add: sessionInv_def)
    have gd: "goodStep s0' (sessionSettleBlock k now s0)"
      unfolding blk
      by (rule goodStep_bind [where f = "drainSessionLane k now" and g = "drainWaitingSessions now",
            OF drainSessionLane_good drainWaitingSessions_good])
    have first: "sessionOnWaitErrors (snd (sessionSettleBlock k now s0)) = []
              \<and> sessionTaskSettles k i ok now s = sessionSettleBlock k now s0"
    proof (cases ok)
      case False
      then show ?thesis using assms(2) unfolding eq by simp
    next
      case True
      obtain c s1 where b: "sessionSettleBlock k now s0 = (c, s1)"
        by (cases "sessionSettleBlock k now s0")
      show ?thesis
      proof (cases c)
        case Returned
        then show ?thesis using assms(2) True b unfolding eq by simp
      next
        case Thrown
        have e2: "sessionTaskSettles k i ok now s = sessionSettleBlock k now s1"
          using True b Thrown unfolding eq by simp
        have "sessionOnWaitErrors s1 = []"
          using weakStep_D(1) [OF sessionSettleBlock_weak [of s1 k now]] assms(2)
          unfolding e2 by simp
        then have "fst (sessionSettleBlock k now s0) = Returned"
          using goodStep_D(2) [OF gd] b by simp
        then show ?thesis using b Thrown by simp
      qed
    qed
    then have "sessionInv (snd (sessionSettleBlock k now s0))"
      using goodStep_D(6) [OF gd inv0] by simp
    then show ?thesis using first by simp
  qed
qed

lemma sessionTaskSettles_good: "goodStep s (sessionTaskSettles k i ok now s)"
  by (rule goodStep_I2 [OF sessionTaskSettles_weak sessionTaskSettles_inv])


text \<open>The part of the state the session scheduler owns.\<close>

definition sessionPart ::
  "QState \<Rightarrow> (string \<times> SessionLaneState) list \<times> int \<times> int \<times> (string \<times> QueueEntry) list
             \<times> QueueEntry list" where
  "sessionPart s = (sessionLanes s, maxConcurrentSessions s, activeSessionCount s, sessionRunning s,
                    sessionOnWaitErrors s)"

lemma sessionPart_fields:
  "sessionPart s' = sessionPart s \<Longrightarrow>
     sessionLanes s' = sessionLanes s \<and> maxConcurrentSessions s' = maxConcurrentSessions s \<and>
     activeSessionCount s' = activeSessionCount s \<and> sessionRunning s' = sessionRunning s \<and>
     sessionOnWaitErrors s' = sessionOnWaitErrors s"
  by (simp add: sessionPart_def)

lemma sessionPart_inv:
  assumes "sessionPart s' = sessionPart s"
  shows "sessionInv s' = sessionInv s" and "withinCap s' = withinCap s"
    and "lanesOrdered s' = lanesOrdered s"
  using sessionPart_fields [OF assms]
  by (simp_all add: sessionInv_def withinCap_def lanesOrdered_def activeSessions_def runningIn_def
      laneActive_def sessionQueue_def)

text \<open>
  The calls on named lanes leave that part as it is, whatever their callbacks do: for
  the session scheduler they are steps that returned.
\<close>

lemma sessionPart_good:
  assumes "sessionPart s' = sessionPart s"
  shows "goodStep s (Returned, s')"
proof (rule goodStep_I)
  note f = sessionPart_fields [OF assms] and i = sessionPart_inv [OF assms]
  show "sessionOnWaitErrors (snd (Returned, s')) = [] \<Longrightarrow> sessionOnWaitErrors s = []"
    using f by simp
  show "sessionOnWaitErrors (snd (Returned, s')) = [] \<Longrightarrow> fst (Returned, s') = Returned"
    by simp
  show "maxConcurrentSessions (snd (Returned, s')) = maxConcurrentSessions s" using f by simp
  show "activeSessionCount (snd (Returned, s'))
          \<le> max (activeSessionCount s) (maxConcurrentSessions s)"
    using f by simp
  show "lanesOrdered s \<Longrightarrow> lanesOrdered (snd (Returned, s'))" using i(3) by simp
  show "sessionInv s \<Longrightarrow> sessionOnWaitErrors (snd (Returned, s')) = [] \<Longrightarrow>
          sessionInv (snd (Returned, s'))"
    using i(1) by simp
qed

lemma getLaneState_frame:
  assumes "getLaneState name s = (st, s1)"
  shows "sessionPart s1 = sessionPart s"
  using assms by (auto simp: getLaneState_def sessionPart_def Let_def split: option.splits)

lemma runPump_frame:
  "sessionPart (snd (runPump name st now s)) = sessionPart s"
proof -
  obtain thrown st' started nxt where p: "pumpLane now st (nextTaskId s) = (thrown, st', started, nxt)"
    by (cases "pumpLane now st (nextTaskId s)")
  show ?thesis unfolding runPump_def p by (simp add: sessionPart_def)
qed

lemma drainLane_frame:
  "sessionPart (snd (drainLane name now s)) = sessionPart s"
proof -
  obtain st s1 where g: "getLaneState name s = (st, s1)" by (cases "getLaneState name s")
  show ?thesis
    unfolding drainLane_def g using getLaneState_frame [OF g] by (simp add: runPump_frame)
qed

lemma laneSettleBlock_frame:
  "sessionPart (snd (laneSettleBlock name taskId now s)) = sessionPart s"
  by (simp add: laneSettleBlock_def runPump_frame split: option.splits)

lemma laneTaskSettles_frame:
  "sessionPart (snd (laneTaskSettles name taskId ok now s)) = sessionPart s"
proof -
  define s0 where "s0 = s\<lparr> laneRunning :=
                         filter (\<lambda>(n, t, e). \<not> (n = name \<and> t = taskId)) (laneRunning s) \<rparr>"
  define r where "r = (if ok then
                (case laneSettleBlock name taskId now s0 of
                   (Returned, s1) \<Rightarrow> (Returned, s1)
                 | (Thrown, s1) \<Rightarrow> laneSettleBlock name taskId now s1)
              else laneSettleBlock name taskId now s0)"
  have p0: "sessionPart s0 = sessionPart s" by (simp add: s0_def sessionPart_def)
  have p: "sessionPart (snd r) = sessionPart s0"
  proof (cases "laneSettleBlock name taskId now s0")
    case (Pair c s1)
    have "sessionPart s1 = sessionPart s0"
      using laneSettleBlock_frame [of name taskId now s0] Pair by simp
    then show ?thesis
      unfolding r_def Pair using laneSettleBlock_frame [of name taskId now s1]
      by (cases c) (simp_all add: laneSettleBlock_frame)
  qed
  have cases: "laneTaskSettles name taskId ok now s = r \<or> laneTaskSettles name taskId ok now s = (Returned, s)"
    unfolding laneTaskSettles_def r_def s0_def Let_def
    by (auto split: list.splits option.splits)
  show ?thesis using cases p p0 by auto
qed

lemma setCommandLaneConcurrency_frame:
  "sessionPart (snd (setCommandLaneConcurrency name n now s)) = sessionPart s"
proof -
  obtain st s1 where g: "getLaneState (cleanLane name) s = (st, s1)"
    by (cases "getLaneState (cleanLane name) s")
  define s2 where "s2 = s1\<lparr> lanes := AList.update (cleanLane name)
                                (st\<lparr> maxConcurrent := max 1 \<lfloor>n\<rfloor> \<rparr>) (lanes s1) \<rparr>"
  have p2: "sessionPart s2 = sessionPart s"
    using getLaneState_frame [OF g] by (simp add: s2_def sessionPart_def)
  have eq: "setCommandLaneConcurrency name n now s = drainLane (cleanLane name) now s2"
    unfolding setCommandLaneConcurrency_def Let_def g s2_def by simp
  show ?thesis unfolding eq using drainLane_frame [of "cleanLane name" now s2] p2 by simp
qed

lemma enqueueCommandInLane_frame:
  "sessionPart (enqueueCommandInLane name t opts now s) = sessionPart s"
proof -
  obtain st s1 where g: "getLaneState (cleanLane name) s = (st, s1)"
    by (cases "getLaneState (cleanLane name) s")
  have upd: "sessionPart (s1\<lparr> lanes := L \<rparr>) = sessionPart s1" for L
    by (simp add: sessionPart_def)
  show ?thesis
    unfolding enqueueCommandInLane_def Let_def g
    using getLaneState_frame [OF g] by (simp add: drainLane_frame upd split: option.splits)
qed

lemma enqueueCommandInLane_good: "goodStep s (Returned, enqueueCommandInLane name t opts now s)"
  by (rule sessionPart_good) (rule enqueueCommandInLane_frame)

lemma clearCommandLane_frame:
  "sessionPart (snd (clearCommandLane name s)) = sessionPart s"
  by (simp add: clearCommandLane_def Let_def sessionPart_def split: option.splits)

lemma clearSessionLane_good: "goodStep s (Returned, snd (clearSessionLane k s))"
proof (cases "map_of (sessionLanes s) k")
  case None
  then show ?thesis by (simp add: clearSessionLane_def goodStep_refl)
next
  case (Some st)
  define s' where "s' = s\<lparr> sessionLanes := AList.update k (st\<lparr> queue := [] \<rparr>) (sessionLanes s) \<rparr>"
  have eq: "snd (clearSessionLane k s) = s'" using Some by (simp add: clearSessionLane_def s'_def)
  have sl: "sessionLanes s' = AList.update k (st\<lparr> queue := [] \<rparr>) (sessionLanes s)"
    by (simp add: s'_def)
  have a: "sessionInv s \<Longrightarrow> sessionInv s'"
    by (rule setLane_inv [where v = "st\<lparr> queue := [] \<rparr>" and k = k, OF _ _ _ sl])
       (simp_all add: laneActive_def Some s'_def)
  have b: "lanesOrdered s \<Longrightarrow> lanesOrdered s'"
    by (rule setLane_ordered [where v = "st\<lparr> queue := [] \<rparr>" and k = k, OF _ _ sl]) simp_all
  show ?thesis unfolding eq
    by (rule goodStep_I) (simp_all add: a b, simp_all add: s'_def)
qed

text \<open>
  \<^verbatim>\<open>setMaxConcurrentSessions\<close> is the one call that changes the limit; the rest of its
  work is a drain under the new limit.
\<close>

lemma setMaxConcurrentSessions_step:
  "maxConcurrentSessions (snd (setMaxConcurrentSessions n now s)) = max 1 \<lfloor>n\<rfloor>"
  "activeSessionCount (snd (setMaxConcurrentSessions n now s))
     \<le> max (activeSessionCount s) (max 1 \<lfloor>n\<rfloor>)"
  "sessionOnWaitErrors (snd (setMaxConcurrentSessions n now s)) = [] \<Longrightarrow> sessionOnWaitErrors s = []"
  "sessionOnWaitErrors (snd (setMaxConcurrentSessions n now s)) = [] \<Longrightarrow>
     fst (setMaxConcurrentSessions n now s) = Returned"
  "lanesOrdered s \<Longrightarrow> lanesOrdered (snd (setMaxConcurrentSessions n now s))"
  "sessionInv s \<Longrightarrow> sessionOnWaitErrors (snd (setMaxConcurrentSessions n now s)) = [] \<Longrightarrow>
     sessionInv (snd (setMaxConcurrentSessions n now s))"
proof -
  define s1 where "s1 = s\<lparr> maxConcurrentSessions := max 1 \<lfloor>n\<rfloor> \<rparr>"
  have i1: "sessionInv s1 = sessionInv s" "lanesOrdered s1 = lanesOrdered s"
    by (simp_all add: s1_def sessionInv_def lanesOrdered_def activeSessions_def runningIn_def
        laneActive_def sessionQueue_def)
  have f1: "maxConcurrentSessions s1 = max 1 \<lfloor>n\<rfloor>" "activeSessionCount s1 = activeSessionCount s"
    "sessionOnWaitErrors s1 = sessionOnWaitErrors s"
    by (simp_all add: s1_def)
  define r where "r = (if maxConcurrentSessions s1 > maxConcurrentSessions s
                       then drainWaitingSessions now s1 else (Returned, s1))"
  have eq: "setMaxConcurrentSessions n now s = r"
    by (simp add: setMaxConcurrentSessions_def Let_def s1_def r_def)
  have g: "goodStep s1 r"
    unfolding r_def by (simp add: drainWaitingSessions_good goodStep_refl)
  note d = goodStep_D [OF g]
  show "maxConcurrentSessions (snd (setMaxConcurrentSessions n now s)) = max 1 \<lfloor>n\<rfloor>"
    unfolding eq d(3) f1 ..
  show "activeSessionCount (snd (setMaxConcurrentSessions n now s))
     \<le> max (activeSessionCount s) (max 1 \<lfloor>n\<rfloor>)"
    unfolding eq using d(4) unfolding f1 .
  show "sessionOnWaitErrors (snd (setMaxConcurrentSessions n now s)) = [] \<Longrightarrow> sessionOnWaitErrors s = []"
    unfolding eq using d(1) f1 by simp
  show "sessionOnWaitErrors (snd (setMaxConcurrentSessions n now s)) = [] \<Longrightarrow>
     fst (setMaxConcurrentSessions n now s) = Returned"
    unfolding eq by (rule d(2))
  show "lanesOrdered s \<Longrightarrow> lanesOrdered (snd (setMaxConcurrentSessions n now s))"
    unfolding eq using d(5) i1 by simp
  show "sessionInv s \<Longrightarrow> sessionOnWaitErrors (snd (setMaxConcurrentSessions n now s)) = [] \<Longrightarrow>
     sessionInv (snd (setMaxConcurrentSessions n now s))"
    unfolding eq using d(6) i1 by simp
qed


text \<open>
  A call of \<^verbatim>\<open>setMaxConcurrentSessions\<close> respects the running sessions when the new
  limit is not below the value of the counter at the call.
\<close>

fun capRespected :: "QAction \<Rightarrow> QState \<Rightarrow> bool" where
  "capRespected (SetMaxConcurrentSessions n now) s = (activeSessionCount s \<le> max 1 \<lfloor>n\<rfloor>)"
| "capRespected _ s = True"

fun neverLoweredBelowActive :: "QAction list \<Rightarrow> QState \<Rightarrow> bool" where
  "neverLoweredBelowActive [] s = True"
| "neverLoweredBelowActive (a # as) s =
     (capRespected a s \<and> neverLoweredBelowActive as (execQ a s))"

lemma execQ_good:
  assumes "\<And>n now. a \<noteq> SetMaxConcurrentSessions n now"
  shows "goodStep s (Returned, execQ a s)"
proof (cases a)
  case (EnqueueCommandInLane name t opts now)
  then show ?thesis by (simp add: enqueueCommandInLane_good)
next
  case (EnqueueSessionTask t opts now)
  show ?thesis
  proof (cases "opt_sessionKey opts = []")
    case True
    then have "execQ a s = enqueueCommandInLane CommandLane_Main t
           (Some \<lparr> opt_warnAfterMs = Some (case opt_warnAfterMs opts of None \<Rightarrow> 2000 | Some w \<Rightarrow> w),
                   opt_priority = Some (case opt_priority opts of None \<Rightarrow> Normal | Some p \<Rightarrow> p),
                   opt_onWait = opt_onWait opts \<rparr>) now s"
      using EnqueueSessionTask by (simp add: enqueueSessionTask_def Let_def)
    then show ?thesis by (simp add: enqueueCommandInLane_good)
  next
    case False
    then show ?thesis using enqueueSessionTask_good [OF False] EnqueueSessionTask by simp
  qed
next
  case (LaneTaskSettles name taskId ok now)
  have "goodStep s (Returned, snd (laneTaskSettles name taskId ok now s))"
    by (rule sessionPart_good [OF laneTaskSettles_frame])
  then show ?thesis using LaneTaskSettles by simp
next
  case (SessionTaskSettles k i ok now)
  from goodStep_returned [OF sessionTaskSettles_good [where s = s and k = k and i = i and ok = ok and now = now]]
  show ?thesis using SessionTaskSettles by simp
next
  case (SetCommandLaneConcurrency name n now)
  have "goodStep s (Returned, snd (setCommandLaneConcurrency name n now s))"
    by (rule sessionPart_good [OF setCommandLaneConcurrency_frame])
  then show ?thesis using SetCommandLaneConcurrency by simp
next
  case (SetMaxConcurrentSessions n now)
  then show ?thesis using assms by simp
next
  case (ClearCommandLane name)
  have "goodStep s (Returned, snd (clearCommandLane name s))"
    by (rule sessionPart_good) (rule clearCommandLane_frame)
  then show ?thesis using ClearCommandLane by simp
next
  case (ClearSessionLane k)
  then show ?thesis by (simp add: clearSessionLane_good)
qed

lemma execQ_step:
  shows "sessionOnWaitErrors (execQ a s) = [] \<Longrightarrow> sessionOnWaitErrors s = []"
    and "activeSessionCount (execQ a s)
           \<le> max (activeSessionCount s) (maxConcurrentSessions (execQ a s))"
    and "lanesOrdered s \<Longrightarrow> lanesOrdered (execQ a s)"
    and "sessionInv s \<Longrightarrow> sessionOnWaitErrors (execQ a s) = [] \<Longrightarrow> sessionInv (execQ a s)"
    and "withinCap s \<Longrightarrow> capRespected a s \<Longrightarrow> withinCap (execQ a s)"
proof -
  have all: "(sessionOnWaitErrors (execQ a s) = [] \<longrightarrow> sessionOnWaitErrors s = []) \<and>
      activeSessionCount (execQ a s)
           \<le> max (activeSessionCount s) (maxConcurrentSessions (execQ a s)) \<and>
      (lanesOrdered s \<longrightarrow> lanesOrdered (execQ a s)) \<and>
      (sessionInv s \<longrightarrow> sessionOnWaitErrors (execQ a s) = [] \<longrightarrow> sessionInv (execQ a s)) \<and>
      (withinCap s \<longrightarrow> capRespected a s \<longrightarrow> withinCap (execQ a s))"
  proof (cases "\<exists>n now. a = SetMaxConcurrentSessions n now")
    case True
    then obtain n now where a: "a = SetMaxConcurrentSessions n now" by blast
    note st = setMaxConcurrentSessions_step [where n = n and now = now and s = s]
    have cap: "withinCap s \<longrightarrow> capRespected a s \<longrightarrow> withinCap (execQ a s)"
      unfolding a using st(1) st(2) by (auto simp: withinCap_def max_def split: if_splits)
    have cnt: "activeSessionCount (execQ a s)
           \<le> max (activeSessionCount s) (maxConcurrentSessions (execQ a s))"
      unfolding a using st(1) st(2) by simp
    show ?thesis
      using st(3) st(5) st(6) cap cnt unfolding a by simp
  next
    case False
    then have "\<And>n now. a \<noteq> SetMaxConcurrentSessions n now" by blast
    note d = goodStep_D [OF execQ_good [OF this, where s = s], unfolded snd_conv]
    have "withinCap s \<longrightarrow> withinCap (execQ a s)"
      using d(3) d(4) by (auto simp: withinCap_def max_def split: if_splits)
    then show ?thesis using d(1) d(3) d(4) d(5) d(6) by simp
  qed
  show "sessionOnWaitErrors (execQ a s) = [] \<Longrightarrow> sessionOnWaitErrors s = []" using all by blast
  show "activeSessionCount (execQ a s)
           \<le> max (activeSessionCount s) (maxConcurrentSessions (execQ a s))" using all by blast
  show "lanesOrdered s \<Longrightarrow> lanesOrdered (execQ a s)" using all by blast
  show "sessionInv s \<Longrightarrow> sessionOnWaitErrors (execQ a s) = [] \<Longrightarrow> sessionInv (execQ a s)"
    using all by blast
  show "withinCap s \<Longrightarrow> capRespected a s \<Longrightarrow> withinCap (execQ a s)" using all by blast
qed




lemma runQ_ordered: "lanesOrdered s \<Longrightarrow> lanesOrdered (runQ as s)"
  by (induction as arbitrary: s) (simp_all add: execQ_step(3))



lemma lanesOrdered_initial: "lanesOrdered initialQState"
  by (simp add: lanesOrdered_def initialQState_def sessionQueue_def)

lemma withinCap_initial: "withinCap initialQState"
  by (simp add: withinCap_def initialQState_def)



text \<open>Session options with a key and a priority only, for the concrete runs.\<close>

definition sessionOpts :: "string \<Rightarrow> TaskPriority \<Rightarrow> SessionEnqueueOptions" where
  "sessionOpts k p = \<lparr> opt_warnAfterMs = None, opt_priority = Some p, opt_onWait = None,
                        opt_sessionKey = k \<rparr>"

lemmas queue_eval = initialQState_def enqueueSessionTask_def getSessionLaneState_def
  drainSessionLane_def drainWaitingSessions_def sessionTaskSettles_def sessionSettleBlock_def
  setMaxConcurrentSessions_def waitWarning_def sessionOpts_def Let_def
  Urgent_def Normal_def Background_def
  activeSessions_def countActive_def runningIn_def laneActive_def sessionQueue_def





text \<open>
  The hypothesis on the callbacks is needed. With a limit of 2, sessions \<open>a\<close> and \<open>c\<close>
  run and session \<open>b\<close> waits with an \<^verbatim>\<open>onWait\<close> callback that throws. When the task of
  \<open>c\<close> resolves, its wrapper activates \<open>b\<close>, the callback throws before the task of \<open>b\<close>
  is started, and the \<^verbatim>\<open>catch\<close> block of the wrapper decrements the counter once more.
  A fourth session then starts: three lanes are flagged active under a limit of 2, the
  counter says 2, and lane \<open>b\<close> is flagged active with no task.
\<close>

definition throwingOpts :: "string \<Rightarrow> SessionEnqueueOptions" where
  "throwingOpts k = \<lparr> opt_warnAfterMs = None, opt_priority = None,
                       opt_onWait = Some (\<lambda>waitMs queuedAhead. Thrown), opt_sessionKey = k \<rparr>"

definition throwingRun :: "QAction list" where
  "throwingRun = [SetMaxConcurrentSessions 2 0,
                  EnqueueSessionTask 1 (sessionOpts ''a'' Normal) 0,
                  EnqueueSessionTask 2 (sessionOpts ''c'' Normal) 0,
                  EnqueueSessionTask 3 (throwingOpts ''b'') 0,
                  SessionTaskSettles ''c'' 0 True 5000,
                  EnqueueSessionTask 4 (sessionOpts ''d'' Normal) 5000]"

lemma throwing_onWait_breaks_invariants:
  "activeSessions (runQ throwingRun initialQState) = 3
   \<and> maxConcurrentSessions (runQ throwingRun initialQState) = 2
   \<and> activeSessionCount (runQ throwingRun initialQState) = 2
   \<and> laneActive ''b'' (runQ throwingRun initialQState)
   \<and> runningIn ''b'' (runQ throwingRun initialQState) = 0
   \<and> map task (sessionOnWaitErrors (runQ throwingRun initialQState)) = [3]
   \<and> neverLoweredBelowActive throwingRun initialQState"
  by (simp add: throwingRun_def throwingOpts_def queue_eval)


subsection \<open>Session lanes: the place of a new entry\<close>

text \<open>The entry \<^verbatim>\<open>enqueueSessionTask\<close> builds from its options.\<close>

definition sessionEntry :: "nat \<Rightarrow> SessionEnqueueOptions \<Rightarrow> int \<Rightarrow> QueueEntry" where
  "sessionEntry t opts now =
     \<lparr> task = t, enqueuedAt = now,
       warnAfterMs = (case opt_warnAfterMs opts of None \<Rightarrow> 2000 | Some w \<Rightarrow> w),
       priority = (case opt_priority opts of None \<Rightarrow> Normal | Some p \<Rightarrow> p),
       sessionKey = Some (opt_sessionKey opts), onWait = opt_onWait opts \<rparr>"

lemma enqueueSessionTask_effect:
  assumes "lanesOrdered s" "opt_sessionKey opts \<noteq> []"
  shows "sessionQueue (opt_sessionKey opts) (enqueueSessionTask t opts now s) =
           (if \<not> laneActive (opt_sessionKey opts) s \<and> activeSessionCount s < maxConcurrentSessions s
            then tl (insertByPriority (sessionEntry t opts now) (sessionQueue (opt_sessionKey opts) s))
            else insertByPriority (sessionEntry t opts now) (sessionQueue (opt_sessionKey opts) s))"
    and "sessionRunning (enqueueSessionTask t opts now s) =
           (if \<not> laneActive (opt_sessionKey opts) s \<and> activeSessionCount s < maxConcurrentSessions s
               \<and> waitWarning
                    (hd (insertByPriority (sessionEntry t opts now) (sessionQueue (opt_sessionKey opts) s)))
                    now
                    (length (tl (insertByPriority (sessionEntry t opts now)
                                   (sessionQueue (opt_sessionKey opts) s)))) = Returned
            then sessionRunning s @
                 [(opt_sessionKey opts,
                   hd (insertByPriority (sessionEntry t opts now) (sessionQueue (opt_sessionKey opts) s)))]
            else sessionRunning s)"
    and "sessionOnWaitErrors (enqueueSessionTask t opts now s) =
           (if \<not> laneActive (opt_sessionKey opts) s \<and> activeSessionCount s < maxConcurrentSessions s
               \<and> waitWarning
                    (hd (insertByPriority (sessionEntry t opts now) (sessionQueue (opt_sessionKey opts) s)))
                    now
                    (length (tl (insertByPriority (sessionEntry t opts now)
                                   (sessionQueue (opt_sessionKey opts) s)))) = Thrown
            then sessionOnWaitErrors s @
                 [hd (insertByPriority (sessionEntry t opts now) (sessionQueue (opt_sessionKey opts) s))]
            else sessionOnWaitErrors s)"
proof -
  define k where "k = opt_sessionKey opts"
  obtain st s1 where g: "getSessionLaneState k s = (st, s1)" by (cases "getSessionLaneState k s")
  define entry where "entry = sessionEntry t opts now"
  define q' where "q' = insertByPriority entry (sessionQueue k s)"
  define s2 where "s2 = s1\<lparr> sessionLanes :=
       AList.update k (st\<lparr> queue := insertByPriority entry (queue st) \<rparr>) (sessionLanes s1) \<rparr>"
  have eq: "enqueueSessionTask t opts now s = snd (drainSessionLane k now s2)"
    using enqueueSessionTask_unfold [OF assms(2) g [unfolded k_def], of t now]
    unfolding s2_def entry_def sessionEntry_def k_def .
  note o = getSessionLaneState_obs [OF g] and i = getSessionLaneState_inv [OF g]
    and f = getSessionLaneState_fields [OF g]
  have d1: "distinct (map fst (sessionLanes s1))" using i(2) [OF assms(1)] by (simp add: lanesOrdered_def)
  have sl2: "sessionLanes s2 = AList.update k (st\<lparr> queue := insertByPriority entry (queue st) \<rparr>) (sessionLanes s1)"
    by (simp add: s2_def)
  note u = obs_update [OF d1 sl2]
  have q2: "sessionQueue k s2 = q'" unfolding u(2) q'_def o(3) by simp
  have a2: "laneActive k s2 = laneActive k s" unfolding u(1) using o(2) by simp
  have f2: "activeSessionCount s2 = activeSessionCount s" "maxConcurrentSessions s2 = maxConcurrentSessions s"
    "sessionRunning s2 = sessionRunning s" "sessionOnWaitErrors s2 = sessionOnWaitErrors s"
    unfolding s2_def using f by simp_all
  have ne: "q' \<noteq> []" unfolding q'_def by (cases "sessionQueue k s") auto
  have cs: "canStart k s2 \<longleftrightarrow> \<not> laneActive k s \<and> activeSessionCount s < maxConcurrentSessions s"
    unfolding canStart_def q2 a2 f2 using ne by simp
  have d2: "distinct (map fst (sessionLanes s2))" by (rule u(4))
  have hw: "headWarning k now s2 = waitWarning (hd q') now (length (tl q'))"
    unfolding headWarning_def q2 ..
  have ex: "waitWarning (hd q') now (length (tl q')) \<noteq> Returned
              \<longleftrightarrow> waitWarning (hd q') now (length (tl q')) = Thrown"
    by (cases "waitWarning (hd q') now (length (tl q'))") simp_all
  have "sessionQueue k (snd (drainSessionLane k now s2)) =
           (if \<not> laneActive k s \<and> activeSessionCount s < maxConcurrentSessions s then tl q' else q')
        \<and> sessionRunning (snd (drainSessionLane k now s2)) =
           (if \<not> laneActive k s \<and> activeSessionCount s < maxConcurrentSessions s
               \<and> waitWarning (hd q') now (length (tl q')) = Returned
            then sessionRunning s @ [(k, hd q')] else sessionRunning s)
        \<and> sessionOnWaitErrors (snd (drainSessionLane k now s2)) =
           (if \<not> laneActive k s \<and> activeSessionCount s < maxConcurrentSessions s
               \<and> waitWarning (hd q') now (length (tl q')) = Thrown
            then sessionOnWaitErrors s @ [hd q'] else sessionOnWaitErrors s)"
  proof (cases "canStart k s2")
    case True
    note st = drainSessionLane_start(3) [OF True d2, where k' = k and now = now]
      and fl = drainSessionLane_start_fields [OF True d2, where now = now]
    show ?thesis
      unfolding st fl(3) fl(7) hw q2 f2 using True cs ex by auto
  next
    case False
    note st = drainSessionLane_idle(3) [OF False, where k' = k and now = now]
      and fl = drainSessionLane_idle_fields [OF False, where now = now]
    show ?thesis
      unfolding st fl(3) fl(7) q2 f2 using False cs by auto
  qed
  then show "sessionQueue (opt_sessionKey opts) (enqueueSessionTask t opts now s) =
           (if \<not> laneActive (opt_sessionKey opts) s \<and> activeSessionCount s < maxConcurrentSessions s
            then tl (insertByPriority (sessionEntry t opts now) (sessionQueue (opt_sessionKey opts) s))
            else insertByPriority (sessionEntry t opts now) (sessionQueue (opt_sessionKey opts) s))"
    and "sessionRunning (enqueueSessionTask t opts now s) =
           (if \<not> laneActive (opt_sessionKey opts) s \<and> activeSessionCount s < maxConcurrentSessions s
               \<and> waitWarning
                    (hd (insertByPriority (sessionEntry t opts now) (sessionQueue (opt_sessionKey opts) s)))
                    now
                    (length (tl (insertByPriority (sessionEntry t opts now)
                                   (sessionQueue (opt_sessionKey opts) s)))) = Returned
            then sessionRunning s @
                 [(opt_sessionKey opts,
                   hd (insertByPriority (sessionEntry t opts now) (sessionQueue (opt_sessionKey opts) s)))]
            else sessionRunning s)"
    and "sessionOnWaitErrors (enqueueSessionTask t opts now s) =
           (if \<not> laneActive (opt_sessionKey opts) s \<and> activeSessionCount s < maxConcurrentSessions s
               \<and> waitWarning
                    (hd (insertByPriority (sessionEntry t opts now) (sessionQueue (opt_sessionKey opts) s)))
                    now
                    (length (tl (insertByPriority (sessionEntry t opts now)
                                   (sessionQueue (opt_sessionKey opts) s)))) = Thrown
            then sessionOnWaitErrors s @
                 [hd (insertByPriority (sessionEntry t opts now) (sessionQueue (opt_sessionKey opts) s))]
            else sessionOnWaitErrors s)"
    unfolding eq q'_def entry_def k_def by simp_all
qed

text \<open>
  Claim C6. In every reachable state, an \<^verbatim>\<open>enqueueSessionTask\<close> with a non-empty
  session key inserts the new entry immediately before the first queued entry whose
  priority number is strictly greater, and at the end when there is none; since queues
  are ordered, the new entry stands after every queued entry of smaller or equal priority
  number and before every entry of greater priority number. The drain that follows takes
  the head of that queue when the lane is idle and the global count is below the limit,
  and leaves the queue as inserted otherwise. The task of the entry taken is started
  unless its \<^verbatim>\<open>onWait\<close> callback throws; then the entry is recorded as dropped.
\<close>

theorem session_enqueue_position:
  "opt_sessionKey opts \<noteq> [] \<Longrightarrow>
   s = runQ acts initialQState \<Longrightarrow>
   k = opt_sessionKey opts \<Longrightarrow>
   entry = sessionEntry t opts now \<Longrightarrow>
     insertByPriority entry (sessionQueue k s)
       = takeWhile (\<lambda>x. \<not> priority x > priority entry) (sessionQueue k s)
           @ entry # dropWhile (\<lambda>x. \<not> priority x > priority entry) (sessionQueue k s)
   \<and> insertByPriority entry (sessionQueue k s)
       = filter (\<lambda>x. priority x \<le> priority entry) (sessionQueue k s)
           @ entry # filter (\<lambda>x. priority x > priority entry) (sessionQueue k s)
   \<and> sessionQueue k (enqueueSessionTask t opts now s)
       = (if \<not> laneActive k s \<and> activeSessionCount s < maxConcurrentSessions s
          then tl (insertByPriority entry (sessionQueue k s))
          else insertByPriority entry (sessionQueue k s))
   \<and> sessionRunning (enqueueSessionTask t opts now s)
       = (if \<not> laneActive k s \<and> activeSessionCount s < maxConcurrentSessions s
             \<and> waitWarning (hd (insertByPriority entry (sessionQueue k s))) now
                  (length (tl (insertByPriority entry (sessionQueue k s)))) = Returned
          then sessionRunning s @ [(k, hd (insertByPriority entry (sessionQueue k s)))]
          else sessionRunning s)
   \<and> sessionOnWaitErrors (enqueueSessionTask t opts now s)
       = (if \<not> laneActive k s \<and> activeSessionCount s < maxConcurrentSessions s
             \<and> waitWarning (hd (insertByPriority entry (sessionQueue k s))) now
                  (length (tl (insertByPriority entry (sessionQueue k s)))) = Thrown
          then sessionOnWaitErrors s @ [hd (insertByPriority entry (sessionQueue k s))]
          else sessionOnWaitErrors s)"
proof -
  assume ne: "opt_sessionKey opts \<noteq> []" and s: "s = runQ acts initialQState"
    and k: "k = opt_sessionKey opts" and e: "entry = sessionEntry t opts now"
  have inv: "lanesOrdered s" unfolding s using runQ_ordered [OF lanesOrdered_initial] .
  then have so: "sorted (map priority (sessionQueue k s))" by (simp add: lanesOrdered_def)
  note sp = insertByPriority_split [of entry "sessionQueue k s"]
  note tf = sorted_takeWhile_filter [OF so, of "priority entry"]
  have two: "insertByPriority entry (sessionQueue k s)
       = filter (\<lambda>x. priority x \<le> priority entry) (sessionQueue k s)
           @ entry # filter (\<lambda>x. priority x > priority entry) (sessionQueue k s)"
    using sp tf by simp
  note ef = enqueueSessionTask_effect [OF inv ne, of t now, folded k e]
  show ?thesis
    by (intro conjI) (rule sp, rule two, rule ef(1), rule ef(2), rule ef(3))
qed


subsection \<open>Session tasks without a session key\<close>

lemma dequeueFrom_set:
  "dequeueFrom bs = Some (entry, bs') \<Longrightarrow> set (concat bs) = insert entry (set (concat bs'))"
proof (induction bs arbitrary: bs')
  case Nil
  then show ?case by simp
next
  case (Cons b bs)
  show ?case
  proof (cases b)
    case Nil
    with Cons.prems obtain r where r: "dequeueFrom bs = Some (entry, r)" and bs': "bs' = [] # r"
      by (auto split: option.splits)
    have "set (concat bs) = insert entry (set (concat r))" using Cons.IH [OF r] .
    then show ?thesis unfolding bs' Nil by simp
  next
    case (Cons a list)
    with Cons.prems have "entry = a" "bs' = list # bs" by auto
    then show ?thesis unfolding Cons by auto
  qed
qed

lemma dequeueHighestPriority_set:
  "dequeueHighestPriority st = (Some entry, st1) \<Longrightarrow>
     set (concat (buckets st)) = insert entry (set (concat (buckets st1)))"
proof -
  assume a: "dequeueHighestPriority st = (Some entry, st1)"
  then obtain bs where d: "dequeueFrom (buckets st) = Some (entry, bs)" and s: "st1 = st\<lparr> buckets := bs \<rparr>"
    by (auto simp: dequeueHighestPriority_def split: option.splits)
  have "buckets st1 = bs" unfolding s by simp
  then show ?thesis using dequeueFrom_set [OF d] by simp
qed

text \<open>
  Every entry \<^verbatim>\<open>pump\<close> finds queued is afterwards still queued, or has been started, or
  is the one entry whose \<^verbatim>\<open>onWait\<close> threw.
\<close>

lemma pumpLane_keeps_entries:
  "pumpLane now st taskId = (thrown, st', started, next) \<Longrightarrow>
     set (concat (buckets st)) = set (concat (buckets st')) \<union> snd ` set started \<union> set_option thrown
     \<and> (\<forall>e. thrown = Some e \<longrightarrow> (\<exists>q. waitWarning e now q = Thrown))"
proof (induction now st taskId arbitrary: thrown st' started "next" rule: pumpLane.induct)
  case (1 now st taskId)
  show ?case
  proof (cases "active st < maxConcurrent st \<and> getTotalQueued st > 0")
    case False
    then have "pumpLane now st taskId = (None, st\<lparr> draining := False \<rparr>, [], taskId)"
      by (subst pumpLane.simps) auto
    then show ?thesis using "1.prems" by auto
  next
    case True
    obtain r st1 where dq: "dequeueHighestPriority st = (r, st1)"
      by (cases "dequeueHighestPriority st")
    show ?thesis
    proof (cases r)
      case None
      then have "st1 = st"
        using dq by (auto simp: dequeueHighestPriority_def split: option.splits)
      moreover have "pumpLane now st taskId = (None, st1\<lparr> draining := False \<rparr>, [], taskId)"
        using True dq None by (subst pumpLane.simps) simp
      ultimately show ?thesis using "1.prems" by auto
    next
      case (Some entry)
      have mem: "set (concat (buckets st)) = insert entry (set (concat (buckets st1)))"
        using dequeueHighestPriority_set dq Some by simp
      show ?thesis
      proof (cases "waitWarning entry now (getTotalQueued st1)")
        case Thrown
        have "pumpLane now st taskId = (Some entry, st1, [], taskId)"
          using True dq Some Thrown by (subst pumpLane.simps) simp
        then show ?thesis using "1.prems" mem Thrown by auto
      next
        case Returned
        define st2 where "st2 = st1\<lparr> active := active st1 + 1,
                                   activeTaskIds := insert taskId (activeTaskIds st1) \<rparr>"
        obtain th3 st3 started3 next3 where
          rec: "pumpLane now st2 (taskId + 1) = (th3, st3, started3, next3)"
          by (cases "pumpLane now st2 (taskId + 1)") auto
        have res: "pumpLane now st taskId = (th3, st3, (taskId, entry) # started3, next3)"
          using True dq Some Returned rec unfolding st2_def by (subst pumpLane.simps) simp
        have IH: "set (concat (buckets st2))
                    = set (concat (buckets st3)) \<union> snd ` set started3 \<union> set_option th3
                  \<and> (\<forall>e. th3 = Some e \<longrightarrow> (\<exists>q. waitWarning e now q = Thrown))"
          using "1.IH" [OF True dq [symmetric] Some Returned] rec unfolding st2_def by blast
        have "set (concat (buckets st)) = insert entry (set (concat (buckets st2)))"
          using mem unfolding st2_def by simp
        then show ?thesis using IH res "1.prems" by auto
      qed
    qed
  qed
qed

text \<open>An entry is waiting in a bucket of the named lane or has been started there.\<close>

definition queuedOrRunning :: "string \<Rightarrow> QueueEntry \<Rightarrow> QState \<Rightarrow> bool" where
  "queuedOrRunning name entry s =
     (case map_of (lanes s) name of
        None \<Rightarrow> False
      | Some st \<Rightarrow> entry \<in> set (concat (buckets st)) \<or>
                   entry \<in> set (map (\<lambda>(n, t, e). e) (filter (\<lambda>(n, t, e). n = name) (laneRunning s))))"

text \<open>An entry has been dropped by a step: its \<^verbatim>\<open>onWait\<close> threw in that step.\<close>

definition droppedBy :: "QueueEntry \<Rightarrow> int \<Rightarrow> QState \<Rightarrow> QState \<Rightarrow> bool" where
  "droppedBy entry now s s' =
     (laneOnWaitErrors s' = laneOnWaitErrors s @ [entry] \<and>
      onWait entry \<noteq> None \<and> now - enqueuedAt entry \<ge> warnAfterMs entry)"

lemma waitWarning_Thrown:
  "waitWarning e now q = Thrown \<Longrightarrow> onWait e \<noteq> None \<and> now - enqueuedAt e \<ge> warnAfterMs e"
  by (auto simp: waitWarning_def Let_def split: if_splits option.splits)

lemma runPump_keeps_entries:
  assumes "entry \<in> set (concat (buckets st))"
  shows "queuedOrRunning name entry (snd (runPump name st now s))
         \<or> droppedBy entry now s (snd (runPump name st now s))"
proof -
  obtain thrown st' started nxt where p: "pumpLane now st (nextTaskId s) = (thrown, st', started, nxt)"
    by (cases "pumpLane now st (nextTaskId s)") auto
  note k = pumpLane_keeps_entries [OF p]
  from k assms
  have "entry \<in> set (concat (buckets st')) \<or> entry \<in> snd ` set started \<or> thrown = Some entry"
    by auto
  then consider (q) "entry \<in> set (concat (buckets st')) \<or> entry \<in> snd ` set started"
    | (d) "thrown = Some entry" by blast
  then show ?thesis
  proof cases
    case q
    then have "queuedOrRunning name entry (snd (runPump name st now s))"
      unfolding queuedOrRunning_def runPump_def p
      by (auto simp: update_conv image_iff)
    then show ?thesis by simp
  next
    case d
    obtain q where "waitWarning entry now q = Thrown" using k d by blast
    from waitWarning_Thrown [OF this]
    have "droppedBy entry now s (snd (runPump name st now s))"
      unfolding droppedBy_def runPump_def p d by simp
    then show ?thesis by simp
  qed
qed

lemma enqueueCommandInLane_queues:
  assumes "\<forall>st. map_of (lanes s) (cleanLane name) = Some st \<longrightarrow> buckets st \<noteq> []"
  shows "queuedOrRunning (cleanLane name)
           \<lparr> task = t, enqueuedAt = now,
             warnAfterMs = (case Option.bind opts opt_warnAfterMs of None \<Rightarrow> 2000 | Some w \<Rightarrow> w),
             priority = (case Option.bind opts opt_priority of None \<Rightarrow> Normal | Some p \<Rightarrow> p),
             sessionKey = None, onWait = Option.bind opts opt_onWait \<rparr>
           (enqueueCommandInLane name t opts now s)
         \<or> droppedBy
           \<lparr> task = t, enqueuedAt = now,
             warnAfterMs = (case Option.bind opts opt_warnAfterMs of None \<Rightarrow> 2000 | Some w \<Rightarrow> w),
             priority = (case Option.bind opts opt_priority of None \<Rightarrow> Normal | Some p \<Rightarrow> p),
             sessionKey = None, onWait = Option.bind opts opt_onWait \<rparr>
           now s (enqueueCommandInLane name t opts now s)"
proof -
  define c where "c = cleanLane name"
  define entry where "entry = \<lparr> task = t, enqueuedAt = now,
             warnAfterMs = (case Option.bind opts opt_warnAfterMs of None \<Rightarrow> 2000 | Some w \<Rightarrow> w),
             priority = (case Option.bind opts opt_priority of None \<Rightarrow> Normal | Some p \<Rightarrow> p),
             sessionKey = None, onWait = Option.bind opts opt_onWait \<rparr>"
  obtain st s1 where g: "getLaneState c s = (st, s1)" by (cases "getLaneState c s")
  have l1: "laneOnWaitErrors s1 = laneOnWaitErrors s"
    using g by (auto simp: getLaneState_def Let_def split: option.splits)
  have ne: "buckets st \<noteq> []"
    using g assms unfolding c_def [symmetric]
    by (auto simp: getLaneState_def Let_def createEmptyBuckets_def split: option.splits)
  from enqueue_defined [OF ne, of entry] obtain st' where
    en: "enqueueWithPriority st entry = Some st'"
    and b': "buckets st' = (buckets st)[nat (bucketIndex st entry) := buckets st ! nat (bucketIndex st entry) @ [entry]]"
    by blast
  from enqueue_buckets [OF en] have idx: "nat (bucketIndex st entry) < length (buckets st)" by blast
  have "entry \<in> set (buckets st' ! nat (bucketIndex st entry))" unfolding b' using idx by simp
  moreover have "nat (bucketIndex st entry) < length (buckets st')" unfolding b' using idx by simp
  ultimately have mem: "entry \<in> set (concat (buckets st'))"
    by (metis nth_mem set_concat UN_I)
  define s2 where "s2 = s1\<lparr> lanes := AList.update c st' (lanes s1) \<rparr>"
  have l2: "laneOnWaitErrors s2 = laneOnWaitErrors s" using l1 by (simp add: s2_def)
  have "enqueueCommandInLane name t opts now s =
          (case enqueueWithPriority st entry of
             None \<Rightarrow> s1
           | Some st' \<Rightarrow> snd (drainLane c now (s1\<lparr> lanes := AList.update c st' (lanes s1) \<rparr>)))"
    unfolding enqueueCommandInLane_def Let_def c_def [symmetric] g entry_def by simp
  then have eq: "enqueueCommandInLane name t opts now s = snd (drainLane c now s2)"
    unfolding en s2_def by simp
  have g2: "getLaneState c s2 = (st', s2)"
    by (simp add: getLaneState_def s2_def update_conv)
  have "queuedOrRunning c entry (snd (drainLane c now s2))
        \<or> droppedBy entry now s2 (snd (drainLane c now s2))"
  proof (cases "draining st'")
    case True
    then have "drainLane c now s2 = (Returned, s2)" unfolding drainLane_def g2 by simp
    then show ?thesis
      using mem by (simp add: queuedOrRunning_def s2_def update_conv)
  next
    case False
    have "entry \<in> set (concat (buckets (st'\<lparr> draining := True \<rparr>)))" using mem by simp
    from runPump_keeps_entries [OF this, where name = c and now = now and s = s2]
    show ?thesis unfolding drainLane_def g2 using False by simp
  qed
  then have "queuedOrRunning c entry (snd (drainLane c now s2))
        \<or> droppedBy entry now s (snd (drainLane c now s2))"
    unfolding droppedBy_def l2 .
  then show ?thesis unfolding eq c_def entry_def .
qed

text \<open>
  Claim C9. \<^verbatim>\<open>enqueueSessionTask\<close> with an empty session key is
  \<^verbatim>\<open>enqueueCommandInLane\<close> on the lane \<^verbatim>\<open>main\<close> with the same \<^verbatim>\<open>warnAfterMs\<close>,
  \<^verbatim>\<open>priority\<close> and \<^verbatim>\<open>onWait\<close> (defaults 2000 and Normal filled in); the session-lane
  map, the active-session count, the running session tasks and the limit are unchanged;
  and the entry is afterwards queued or running in lane \<^verbatim>\<open>main\<close> (given that the lane, if
  it exists already, has its buckets), unless the drain took it and its own \<^verbatim>\<open>onWait\<close>
  callback threw, which can only happen to an entry that has a callback and has waited
  for \<^verbatim>\<open>warnAfterMs\<close>.
\<close>

theorem enqueueSessionTask_without_key:
  "opt_sessionKey opts = [] \<Longrightarrow>
     enqueueSessionTask t opts now s
       = enqueueCommandInLane ''main'' t
           (Some \<lparr> opt_warnAfterMs = Some (case opt_warnAfterMs opts of None \<Rightarrow> 2000 | Some w \<Rightarrow> w),
                   opt_priority = Some (case opt_priority opts of None \<Rightarrow> Normal | Some p \<Rightarrow> p),
                   opt_onWait = opt_onWait opts \<rparr>) now s
   \<and> sessionLanes (enqueueSessionTask t opts now s) = sessionLanes s
   \<and> activeSessionCount (enqueueSessionTask t opts now s) = activeSessionCount s
   \<and> sessionRunning (enqueueSessionTask t opts now s) = sessionRunning s
   \<and> maxConcurrentSessions (enqueueSessionTask t opts now s) = maxConcurrentSessions s
   \<and> ((\<forall>st. map_of (lanes s) ''main'' = Some st \<longrightarrow> buckets st \<noteq> []) \<longrightarrow>
        queuedOrRunning ''main''
          \<lparr> task = t, enqueuedAt = now,
            warnAfterMs = (case opt_warnAfterMs opts of None \<Rightarrow> 2000 | Some w \<Rightarrow> w),
            priority = (case opt_priority opts of None \<Rightarrow> Normal | Some p \<Rightarrow> p),
            sessionKey = None, onWait = opt_onWait opts \<rparr>
          (enqueueSessionTask t opts now s)
        \<or> droppedBy
          \<lparr> task = t, enqueuedAt = now,
            warnAfterMs = (case opt_warnAfterMs opts of None \<Rightarrow> 2000 | Some w \<Rightarrow> w),
            priority = (case opt_priority opts of None \<Rightarrow> Normal | Some p \<Rightarrow> p),
            sessionKey = None, onWait = opt_onWait opts \<rparr>
          now s (enqueueSessionTask t opts now s))"
proof -
  assume k: "opt_sessionKey opts = []"
  let ?o = "Some \<lparr> opt_warnAfterMs = Some (case opt_warnAfterMs opts of None \<Rightarrow> 2000 | Some w \<Rightarrow> w),
                   opt_priority = Some (case opt_priority opts of None \<Rightarrow> Normal | Some p \<Rightarrow> p),
                   opt_onWait = opt_onWait opts \<rparr>"
  have eq: "enqueueSessionTask t opts now s = enqueueCommandInLane ''main'' t ?o now s"
    using k by (simp add: enqueueSessionTask_def Let_def CommandLane_Main_def)
  have cl: "cleanLane ''main'' = ''main''"
    by (simp add: cleanLane_def trim_def isWhiteSpace_def CommandLane_Main_def)
  note f = sessionPart_fields [OF enqueueCommandInLane_frame [of "''main''" t ?o now s]]
  have q: "(\<forall>st. map_of (lanes s) ''main'' = Some st \<longrightarrow> buckets st \<noteq> []) \<longrightarrow>
        queuedOrRunning ''main''
          \<lparr> task = t, enqueuedAt = now,
            warnAfterMs = (case opt_warnAfterMs opts of None \<Rightarrow> 2000 | Some w \<Rightarrow> w),
            priority = (case opt_priority opts of None \<Rightarrow> Normal | Some p \<Rightarrow> p),
            sessionKey = None, onWait = opt_onWait opts \<rparr>
          (enqueueCommandInLane ''main'' t ?o now s)
        \<or> droppedBy
          \<lparr> task = t, enqueuedAt = now,
            warnAfterMs = (case opt_warnAfterMs opts of None \<Rightarrow> 2000 | Some w \<Rightarrow> w),
            priority = (case opt_priority opts of None \<Rightarrow> Normal | Some p \<Rightarrow> p),
            sessionKey = None, onWait = opt_onWait opts \<rparr>
          now s (enqueueCommandInLane ''main'' t ?o now s)"
    using enqueueCommandInLane_queues [of s "''main''" t now ?o] unfolding cl by simp
  show ?thesis unfolding eq using f q by simp
qed


theorem session_enqueue_position_witness:
  "opt_sessionKey (sessionOpts ''s1'' Normal) \<noteq> []
   \<and> map task (sessionQueue ''s1''
        (runQ [EnqueueSessionTask 1 (sessionOpts ''s1'' Normal) 0,
               EnqueueSessionTask 2 (sessionOpts ''s1'' Normal) 1,
               EnqueueSessionTask 3 (sessionOpts ''s1'' Background) 2] initialQState)) = [2, 3]
   \<and> map task (sessionQueue ''s1''
        (enqueueSessionTask 4 (sessionOpts ''s1'' Normal) 3
          (runQ [EnqueueSessionTask 1 (sessionOpts ''s1'' Normal) 0,
                 EnqueueSessionTask 2 (sessionOpts ''s1'' Normal) 1,
                 EnqueueSessionTask 3 (sessionOpts ''s1'' Background) 2] initialQState))) = [2, 4, 3]"
proof -
  have h: "opt_sessionKey (sessionOpts ''s1'' Normal) \<noteq> []" by (simp add: sessionOpts_def)
  have k: "opt_sessionKey (sessionOpts ''s1'' Normal) = ''s1''" by (simp add: sessionOpts_def)
  have q: "map task (sessionQueue ''s1''
        (runQ [EnqueueSessionTask 1 (sessionOpts ''s1'' Normal) 0,
               EnqueueSessionTask 2 (sessionOpts ''s1'' Normal) 1,
               EnqueueSessionTask 3 (sessionOpts ''s1'' Background) 2] initialQState)) = [2, 3]"
    by (simp add: queue_eval)
  show ?thesis
    using h q session_enqueue_position [OF h refl k [symmetric] refl, where acts =
        "[EnqueueSessionTask 1 (sessionOpts ''s1'' Normal) 0,
          EnqueueSessionTask 2 (sessionOpts ''s1'' Normal) 1,
          EnqueueSessionTask 3 (sessionOpts ''s1'' Background) 2]" and t = 4 and now = 3]
    by (simp add: queue_eval sessionEntry_def)
qed

theorem enqueueSessionTask_without_key_witness:
  "opt_sessionKey (sessionOpts [] Urgent) = []
   \<and> sessionLanes (enqueueSessionTask 7 (sessionOpts [] Urgent) 5 initialQState) = []
   \<and> activeSessionCount (enqueueSessionTask 7 (sessionOpts [] Urgent) 5 initialQState) = 0
   \<and> queuedOrRunning ''main''
        \<lparr> task = 7, enqueuedAt = 5, warnAfterMs = 2000, priority = Urgent,
          sessionKey = None, onWait = None \<rparr>
        (enqueueSessionTask 7 (sessionOpts [] Urgent) 5 initialQState)"
proof -
  have h: "opt_sessionKey (sessionOpts [] Urgent) = []" by (simp add: sessionOpts_def)
  note th = enqueueSessionTask_without_key [OF h, of 7 5 initialQState]
  have a: "sessionLanes (enqueueSessionTask 7 (sessionOpts [] Urgent) 5 initialQState)
             = sessionLanes initialQState"
    by (rule th [THEN conjunct2, THEN conjunct1])
  have b: "activeSessionCount (enqueueSessionTask 7 (sessionOpts [] Urgent) 5 initialQState)
             = activeSessionCount initialQState"
    by (rule th [THEN conjunct2, THEN conjunct2, THEN conjunct1])
  have "\<forall>st. map_of (lanes initialQState) ''main'' = Some st \<longrightarrow> buckets st \<noteq> []"
    by (simp add: initialQState_def)
  from th [THEN conjunct2, THEN conjunct2, THEN conjunct2, THEN conjunct2, THEN conjunct2,
           THEN mp, OF this]
  have c: "queuedOrRunning ''main''
          \<lparr> task = 7, enqueuedAt = 5,
            warnAfterMs = (case opt_warnAfterMs (sessionOpts [] Urgent) of None \<Rightarrow> 2000 | Some w \<Rightarrow> w),
            priority = (case opt_priority (sessionOpts [] Urgent) of None \<Rightarrow> Normal | Some p \<Rightarrow> p),
            sessionKey = None, onWait = opt_onWait (sessionOpts [] Urgent) \<rparr>
          (enqueueSessionTask 7 (sessionOpts [] Urgent) 5 initialQState)"
    by (simp add: droppedBy_def sessionOpts_def)
  show ?thesis
    using h a b c by (simp add: sessionOpts_def initialQState_def)
qed


section \<open>Managed timers (src/infra/timer-manager.ts)\<close>

datatype TimerType = TimeoutTimer | IntervalTimer

text \<open>
  A timer id is the template string \<^verbatim>\<open>label-counter\<close>. The counter is written in
  decimal digits after the last hyphen, so the string determines the label and the
  counter: the model keeps the pair. The runtime handle and the wrapped callback of an
  entry are opaque; the user's callback is an identifier.
\<close>

type_synonym TimerId = "string \<times> nat"

record TimerEntry =
  te_id :: TimerId
  te_type :: TimerType
  te_label :: string
  te_createdAt :: int
  delayMs :: int
  te_callback :: nat

record TState =
  nextId :: nat
  activeTimers :: "(TimerId \<times> TimerEntry) list"
  totalCreated :: int
  totalFired :: int
  totalCancelled :: int

definition initialTState :: TState where
  "initialTState = \<lparr> nextId = 1, activeTimers = [], totalCreated = 0, totalFired = 0,
                       totalCancelled = 0 \<rparr>"

definition generateId :: "string \<Rightarrow> TState \<Rightarrow> TimerId \<times> TState" where
  "generateId label s = ((label, nextId s), s\<lparr> nextId := nextId s + 1 \<rparr>)"

definition managedSetTimeout :: "nat \<Rightarrow> int \<Rightarrow> string \<Rightarrow> int \<Rightarrow> TState \<Rightarrow> TimerId \<times> TState" where
  "managedSetTimeout callback delay label now s =
     (case generateId label s of
        (tid, s1) \<Rightarrow>
          (let entry = \<lparr> te_id = tid, te_type = TimeoutTimer, te_label = label,
                         te_createdAt = now, delayMs = delay, te_callback = callback \<rparr>
           in (tid, s1\<lparr> activeTimers := AList.update tid entry (activeTimers s1),
                       totalCreated := totalCreated s1 + 1 \<rparr>)))"

definition managedSetInterval :: "nat \<Rightarrow> int \<Rightarrow> string \<Rightarrow> int \<Rightarrow> TState \<Rightarrow> TimerId \<times> TState" where
  "managedSetInterval callback intervalMs label now s =
     (case generateId label s of
        (tid, s1) \<Rightarrow>
          (let entry = \<lparr> te_id = tid, te_type = IntervalTimer, te_label = label,
                         te_createdAt = now, delayMs = intervalMs, te_callback = callback \<rparr>
           in (tid, s1\<lparr> activeTimers := AList.update tid entry (activeTimers s1),
                       totalCreated := totalCreated s1 + 1 \<rparr>)))"

text \<open>
  The wrapped callbacks, up to the call of the user's callback (whose own calls into the
  registry are further steps): a timeout removes its entry and counts a firing, an
  interval counts a firing and stays registered.
\<close>

definition timeoutWrappedCallback :: "TimerId \<Rightarrow> TState \<Rightarrow> TState" where
  "timeoutWrappedCallback tid s =
     s\<lparr> activeTimers := AList.delete tid (activeTimers s), totalFired := totalFired s + 1 \<rparr>"

definition intervalWrappedCallback :: "TimerId \<Rightarrow> TState \<Rightarrow> TState" where
  "intervalWrappedCallback tid s = s\<lparr> totalFired := totalFired s + 1 \<rparr>"

text \<open>
  The runtime fires the handle of a registered timer only: every path that removes an
  entry cancels its handle first (\<^verbatim>\<open>clearTimeout\<close>, \<^verbatim>\<open>clearInterval\<close>) or is the single
  firing of a timeout. A firing for an id that is not registered does not occur and
  leaves the state as it is.
\<close>

definition timerFires :: "TimerId \<Rightarrow> TState \<Rightarrow> TState" where
  "timerFires tid s =
     (case map_of (activeTimers s) tid of
        None \<Rightarrow> s
      | Some entry \<Rightarrow>
          (case te_type entry of
             TimeoutTimer \<Rightarrow> timeoutWrappedCallback tid s
           | IntervalTimer \<Rightarrow> intervalWrappedCallback tid s))"

definition clearManagedTimer :: "TimerId \<Rightarrow> TState \<Rightarrow> bool \<times> TState" where
  "clearManagedTimer tid s =
     (case map_of (activeTimers s) tid of
        None \<Rightarrow> (False, s)
      | Some entry \<Rightarrow>
          (True, s\<lparr> activeTimers := AList.delete tid (activeTimers s),
                    totalCancelled := totalCancelled s + 1 \<rparr>))"

definition clearAllTimers :: "TState \<Rightarrow> nat \<times> TState" where
  "clearAllTimers s =
     (let count = length (activeTimers s)
      in (count, s\<lparr> activeTimers := [], totalCancelled := totalCancelled s + int count \<rparr>))"

text \<open>
  \<^verbatim>\<open>clearTimersByLabel\<close>: the loop over the Map's entries, deleting the entry it stands
  on when the pattern matches its label. A Map iteration visits every entry that is
  present at its turn, and the loop removes only the current one, so the walk is over the
  entries present at the start. The pattern is the predicate \<^verbatim>\<open>regex.test\<close> on labels:
  a string pattern, or a regular expression without the flags \<^verbatim>\<open>g\<close> and \<^verbatim>\<open>y\<close>, whose
  \<^verbatim>\<open>test\<close> keeps no position between calls.
\<close>

fun clearByLabelLoop ::
  "(TimerId \<times> TimerEntry) list \<Rightarrow> (string \<Rightarrow> bool) \<Rightarrow> nat \<Rightarrow> TState \<Rightarrow> nat \<times> TState" where
  "clearByLabelLoop [] matches count s = (count, s)"
| "clearByLabelLoop ((tid, entry) # rest) matches count s =
     (if matches (te_label entry)
      then clearByLabelLoop rest matches (count + 1)
             (s\<lparr> activeTimers := AList.delete tid (activeTimers s),
                 totalCancelled := totalCancelled s + 1 \<rparr>)
      else clearByLabelLoop rest matches count s)"

definition clearTimersByLabel :: "(string \<Rightarrow> bool) \<Rightarrow> TState \<Rightarrow> nat \<times> TState" where
  "clearTimersByLabel matches s = clearByLabelLoop (activeTimers s) matches 0 s"

record TimerStats =
  stat_active :: nat
  stat_timeouts :: nat
  stat_intervals :: nat
  stat_totalCreated :: int
  stat_totalFired :: int
  stat_totalCancelled :: int

definition getTimerStats :: "TState \<Rightarrow> TimerStats" where
  "getTimerStats s =
     \<lparr> stat_active = length (activeTimers s),
       stat_timeouts = length (filter (\<lambda>(tid, entry). te_type entry = TimeoutTimer) (activeTimers s)),
       stat_intervals = length (filter (\<lambda>(tid, entry). te_type entry \<noteq> TimeoutTimer) (activeTimers s)),
       stat_totalCreated = totalCreated s,
       stat_totalFired = totalFired s,
       stat_totalCancelled = totalCancelled s \<rparr>"

datatype TimerOp =
    SetTimeout nat int string int
  | SetInterval nat int string int
  | Fires TimerId
  | ClearTimer TimerId
  | ClearAll
  | ClearByLabel "string \<Rightarrow> bool"

fun execT :: "TimerOp \<Rightarrow> TState \<Rightarrow> TState" where
  "execT (SetTimeout callback delay label now) s = snd (managedSetTimeout callback delay label now s)"
| "execT (SetInterval callback intervalMs label now) s = snd (managedSetInterval callback intervalMs label now s)"
| "execT (Fires tid) s = timerFires tid s"
| "execT (ClearTimer tid) s = snd (clearManagedTimer tid s)"
| "execT ClearAll s = snd (clearAllTimers s)"
| "execT (ClearByLabel matches) s = snd (clearTimersByLabel matches s)"

fun runT :: "TimerOp list \<Rightarrow> TState \<Rightarrow> TState" where
  "runT [] s = s"
| "runT (op # ops) s = runT ops (execT op s)"

text \<open>The firings of a run that are ticks of a registered interval.\<close>

definition isIntervalTick :: "TimerOp \<Rightarrow> TState \<Rightarrow> bool" where
  "isIntervalTick op s =
     (case op of
        Fires tid \<Rightarrow> (case map_of (activeTimers s) tid of
                        None \<Rightarrow> False
                      | Some entry \<Rightarrow> te_type entry = IntervalTimer)
      | _ \<Rightarrow> False)"

fun intervalTicks :: "TimerOp list \<Rightarrow> TState \<Rightarrow> int" where
  "intervalTicks [] s = 0"
| "intervalTicks (op # ops) s =
     (if isIntervalTick op s then 1 else 0) + intervalTicks ops (execT op s)"

text \<open>
  Ids are unique and below the counter; \<open>balance\<close> is the difference between the number
  of active entries and totalCreated - totalFired - totalCancelled.
\<close>

definition wfT :: "TState \<Rightarrow> bool" where
  "wfT s = (distinct (map fst (activeTimers s)) \<and>
            (\<forall>tid \<in> fst ` set (activeTimers s). snd tid < nextId s))"

definition balance :: "TState \<Rightarrow> int" where
  "balance s = int (length (activeTimers s)) - (totalCreated s - totalFired s - totalCancelled s)"

lemma length_delete_present:
  "distinct (map fst al) \<Longrightarrow> k \<in> fst ` set al \<Longrightarrow> Suc (length (AList.delete k al)) = length al"
proof (induction al)
  case Nil
  then show ?case by simp
next
  case (Cons a al)
  obtain k' v' where a: "a = (k', v')" by (cases a)
  show ?case
  proof (cases "k' = k")
    case True
    then have "k \<notin> fst ` set al" using Cons.prems(1) a by auto
    then have "AList.delete k al = al" by simp
    then show ?thesis using True a by simp
  next
    case False
    then have "k \<in> fst ` set al" using Cons.prems(2) a by auto
    then show ?thesis using Cons False a by simp
  qed
qed

lemma length_update_fresh:
  "k \<notin> fst ` set al \<Longrightarrow> length (AList.update k v al) = Suc (length al)"
  by (induction al) auto

lemma wfT_delete:
  assumes "wfT s" "activeTimers s' = AList.delete tid (activeTimers s)" "nextId s' = nextId s"
  shows "wfT s'"
proof -
  have "set (AList.delete tid (activeTimers s)) \<subseteq> set (activeTimers s)"
    by (auto simp: AList.delete_eq)
  then show ?thesis
    using assms unfolding wfT_def by (auto simp: distinct_delete)
qed

lemma set_timer_step:
  assumes "wfT s"
  shows "wfT (s\<lparr> nextId := nextId s + 1,
                  activeTimers := AList.update (label, nextId s) entry (activeTimers s),
                  totalCreated := totalCreated s + 1 \<rparr>)"
    and "balance (s\<lparr> nextId := nextId s + 1,
                  activeTimers := AList.update (label, nextId s) entry (activeTimers s),
                  totalCreated := totalCreated s + 1 \<rparr>) = balance s"
proof -
  have fresh: "(label, nextId s) \<notin> fst ` set (activeTimers s)"
    using assms by (force simp: wfT_def)
  have "\<forall>tid \<in> fst ` set (AList.update (label, nextId s) entry (activeTimers s)). snd tid < nextId s + 1"
    using assms unfolding wfT_def dom_update by (auto simp: less_Suc_eq)
  then show "wfT (s\<lparr> nextId := nextId s + 1,
                  activeTimers := AList.update (label, nextId s) entry (activeTimers s),
                  totalCreated := totalCreated s + 1 \<rparr>)"
    using assms by (simp add: wfT_def distinct_update)
  show "balance (s\<lparr> nextId := nextId s + 1,
                  activeTimers := AList.update (label, nextId s) entry (activeTimers s),
                  totalCreated := totalCreated s + 1 \<rparr>) = balance s"
    by (simp add: balance_def length_update_fresh [OF fresh])
qed


lemma map_of_key: "map_of al k = Some v \<Longrightarrow> k \<in> fst ` set al"
  by (metis map_of_SomeD fst_conv image_eqI)

lemma delete_step:
  assumes "wfT s" "map_of (activeTimers s) tid = Some entry"
    and "activeTimers s' = AList.delete tid (activeTimers s)"
    and "nextId s' = nextId s" and "totalCreated s' = totalCreated s"
    and "totalFired s' + totalCancelled s' = totalFired s + totalCancelled s + 1"
  shows "wfT s'" and "balance s' = balance s"
proof -
  show "wfT s'" using wfT_delete [OF assms(1,3,4)] .
  have "Suc (length (AList.delete tid (activeTimers s))) = length (activeTimers s)"
    using length_delete_present [OF _ map_of_key [OF assms(2)]] assms(1) by (simp add: wfT_def)
  then show "balance s' = balance s"
    unfolding balance_def assms(3) assms(5) using assms(6) by linarith
qed

lemma clearByLabelLoop_step:
  "wfT s \<Longrightarrow> set rest \<subseteq> set (activeTimers s) \<Longrightarrow> distinct (map fst rest) \<Longrightarrow>
     wfT (snd (clearByLabelLoop rest matches count s)) \<and>
     balance (snd (clearByLabelLoop rest matches count s)) = balance s"
proof (induction rest arbitrary: s count)
  case Nil
  then show ?case by simp
next
  case (Cons a rest)
  obtain tid entry where a: "a = (tid, entry)" by (cases a)
  show ?case
  proof (cases "matches (te_label entry)")
    case False
    then show ?thesis using Cons a by simp
  next
    case True
    define s2 where "s2 = s\<lparr> activeTimers := AList.delete tid (activeTimers s),
                              totalCancelled := totalCancelled s + 1 \<rparr>"
    have d: "distinct (map fst (activeTimers s))" using Cons.prems(1) by (simp add: wfT_def)
    have "(tid, entry) \<in> set (activeTimers s)" using Cons.prems(2) a by simp
    then have m: "map_of (activeTimers s) tid = Some entry" using d by simp
    have st: "wfT s2" "balance s2 = balance s"
      by (rule delete_step [OF Cons.prems(1) m]; simp add: s2_def)+
    have nt: "\<forall>x \<in> set rest. fst x \<noteq> tid" using Cons.prems(3) a by auto
    have sub: "set rest \<subseteq> set (activeTimers s2)"
      using Cons.prems(2) nt by (auto simp: s2_def AList.delete_eq)
    have dr: "distinct (map fst rest)" using Cons.prems(3) by simp
    have "clearByLabelLoop (a # rest) matches count s = clearByLabelLoop rest matches (count + 1) s2"
      using True a by (simp add: s2_def)
    then show ?thesis using Cons.IH [OF st(1) sub dr, of "count + 1"] st(2) by simp
  qed
qed

lemma execT_step:
  assumes "wfT s"
  shows "wfT (execT op s)"
    and "balance (execT op s) = balance s + (if isIntervalTick op s then 1 else 0)"
proof -
  have "wfT (execT op s) \<and> balance (execT op s) = balance s + (if isIntervalTick op s then 1 else 0)"
  proof (cases op)
    case (SetTimeout callback delay label now)
    then show ?thesis
      using set_timer_step [OF assms]
      by (simp add: managedSetTimeout_def generateId_def isIntervalTick_def Let_def)
  next
    case (SetInterval callback intervalMs label now)
    then show ?thesis
      using set_timer_step [OF assms]
      by (simp add: managedSetInterval_def generateId_def isIntervalTick_def Let_def)
  next
    case (Fires tid)
    show ?thesis
    proof (cases "map_of (activeTimers s) tid")
      case None
      then show ?thesis using Fires assms by (simp add: timerFires_def isIntervalTick_def)
    next
      case (Some entry)
      show ?thesis
      proof (cases "te_type entry")
        case TimeoutTimer
        have "wfT (timeoutWrappedCallback tid s)" "balance (timeoutWrappedCallback tid s) = balance s"
          by (rule delete_step [OF assms Some]; simp add: timeoutWrappedCallback_def)+
        then show ?thesis
          using Fires Some TimeoutTimer by (simp add: timerFires_def isIntervalTick_def)
      next
        case IntervalTimer
        have "wfT (intervalWrappedCallback tid s)"
          using assms by (simp add: wfT_def intervalWrappedCallback_def)
        moreover have "balance (intervalWrappedCallback tid s) = balance s + 1"
          by (simp add: balance_def intervalWrappedCallback_def)
        ultimately show ?thesis
          using Fires Some IntervalTimer by (simp add: timerFires_def isIntervalTick_def)
      qed
    qed
  next
    case (ClearTimer tid)
    show ?thesis
    proof (cases "map_of (activeTimers s) tid")
      case None
      then show ?thesis using ClearTimer assms by (simp add: clearManagedTimer_def isIntervalTick_def)
    next
      case (Some entry)
      have "wfT (snd (clearManagedTimer tid s))" "balance (snd (clearManagedTimer tid s)) = balance s"
        by (rule delete_step [OF assms Some]; simp add: clearManagedTimer_def Some)+
      then show ?thesis using ClearTimer by (simp add: isIntervalTick_def)
    qed
  next
    case ClearAll
    then show ?thesis
      using assms by (simp add: clearAllTimers_def Let_def wfT_def balance_def isIntervalTick_def)
  next
    case (ClearByLabel matches)
    have "distinct (map fst (activeTimers s))" using assms by (simp add: wfT_def)
    then show ?thesis
      using clearByLabelLoop_step [OF assms subset_refl, of matches 0] ClearByLabel
      by (simp add: clearTimersByLabel_def isIntervalTick_def)
  qed
  then show "wfT (execT op s)"
    and "balance (execT op s) = balance s + (if isIntervalTick op s then 1 else 0)" by simp_all
qed

lemma runT_balance:
  "wfT s \<Longrightarrow> wfT (runT ops s) \<and> balance (runT ops s) = balance s + intervalTicks ops s"
proof (induction ops arbitrary: s)
  case Nil
  then show ?case by simp
next
  case (Cons op ops)
  note st = execT_step [OF Cons.prems, of op]
  show ?case using Cons.IH [OF st(1)] st(2) by simp
qed

lemma wfT_initial: "wfT initialTState" and balance_initial: "balance initialTState = 0"
  by (simp_all add: wfT_def balance_def initialTState_def)

text \<open>
  Claim C4 (amended). After every run of timer operations from the module's initial
  state, the number of active entries equals totalCreated - totalFired - totalCancelled
  plus the number of interval ticks of the run: a timeout firing removes its entry, a
  tick of an interval counts in totalFired and keeps the entry. Hence the equation of
  the claim holds whenever no interval has ticked.
\<close>

theorem timer_registry_balance:
  "int (stat_active (getTimerStats (runT ops initialTState)))
     = stat_totalCreated (getTimerStats (runT ops initialTState))
       - stat_totalFired (getTimerStats (runT ops initialTState))
       - stat_totalCancelled (getTimerStats (runT ops initialTState))
       + intervalTicks ops initialTState
   \<and> (intervalTicks ops initialTState = 0 \<longrightarrow>
        int (stat_active (getTimerStats (runT ops initialTState)))
          = stat_totalCreated (getTimerStats (runT ops initialTState))
            - stat_totalFired (getTimerStats (runT ops initialTState))
            - stat_totalCancelled (getTimerStats (runT ops initialTState)))"
  using runT_balance [OF wfT_initial, of ops] balance_initial
  by (simp add: balance_def getTimerStats_def)

lemmas timer_eval = initialTState_def managedSetTimeout_def managedSetInterval_def generateId_def
  timerFires_def timeoutWrappedCallback_def intervalWrappedCallback_def clearManagedTimer_def
  clearAllTimers_def clearTimersByLabel_def getTimerStats_def isIntervalTick_def Let_def

theorem timer_registry_balance_witness:
  "intervalTicks [SetTimeout 0 1000 ''t'' 0, SetInterval 1 100 ''i'' 0, SetTimeout 2 50 ''u'' 0,
                  Fires (''t'', 1), ClearTimer (''u'', 3)] initialTState = 0
   \<and> stat_active (getTimerStats (runT
         [SetTimeout 0 1000 ''t'' 0, SetInterval 1 100 ''i'' 0, SetTimeout 2 50 ''u'' 0,
          Fires (''t'', 1), ClearTimer (''u'', 3)] initialTState)) = 1
   \<and> stat_totalCreated (getTimerStats (runT
         [SetTimeout 0 1000 ''t'' 0, SetInterval 1 100 ''i'' 0, SetTimeout 2 50 ''u'' 0,
          Fires (''t'', 1), ClearTimer (''u'', 3)] initialTState))
       - stat_totalFired (getTimerStats (runT
         [SetTimeout 0 1000 ''t'' 0, SetInterval 1 100 ''i'' 0, SetTimeout 2 50 ''u'' 0,
          Fires (''t'', 1), ClearTimer (''u'', 3)] initialTState))
       - stat_totalCancelled (getTimerStats (runT
         [SetTimeout 0 1000 ''t'' 0, SetInterval 1 100 ''i'' 0, SetTimeout 2 50 ''u'' 0,
          Fires (''t'', 1), ClearTimer (''u'', 3)] initialTState)) = 1"
proof -
  have h: "intervalTicks [SetTimeout 0 1000 ''t'' 0, SetInterval 1 100 ''i'' 0, SetTimeout 2 50 ''u'' 0,
                  Fires (''t'', 1), ClearTimer (''u'', 3)] initialTState = 0"
    by (simp add: timer_eval)
  have a: "stat_active (getTimerStats (runT
         [SetTimeout 0 1000 ''t'' 0, SetInterval 1 100 ''i'' 0, SetTimeout 2 50 ''u'' 0,
          Fires (''t'', 1), ClearTimer (''u'', 3)] initialTState)) = 1"
    by (simp add: timer_eval)
  show ?thesis
    using h a timer_registry_balance [of
        "[SetTimeout 0 1000 ''t'' 0, SetInterval 1 100 ''i'' 0, SetTimeout 2 50 ''u'' 0,
          Fires (''t'', 1), ClearTimer (''u'', 3)]"]
    by simp
qed

text \<open>
  Claim C4 as stated fails: one interval and one tick of it leave one active entry, while
  totalCreated - totalFired - totalCancelled is 1 - 1 - 0 = 0.
\<close>

theorem timer_registry_counterexample:
  "stat_active (getTimerStats (runT [SetInterval 0 100 ''i'' 0, Fires (''i'', 1)] initialTState)) = 1
   \<and> stat_totalCreated (getTimerStats (runT [SetInterval 0 100 ''i'' 0, Fires (''i'', 1)] initialTState))
       - stat_totalFired (getTimerStats (runT [SetInterval 0 100 ''i'' 0, Fires (''i'', 1)] initialTState))
       - stat_totalCancelled (getTimerStats (runT [SetInterval 0 100 ''i'' 0, Fires (''i'', 1)] initialTState))
     = 0"
  by (simp add: timer_eval)

section \<open>Request coalescing (src/agents/request-coalescing.ts)\<close>

definition DEFAULT_WINDOW_MS :: int where "DEFAULT_WINDOW_MS = 1500"
definition MAX_WINDOW_MS :: int where "MAX_WINDOW_MS = 5000"
definition MAX_MESSAGES_PER_BATCH :: int where "MAX_MESSAGES_PER_BATCH = 10"

record CoalesceMessage =
  cm_text :: string
  images :: "(string \<times> string) list option"
  timestamp :: int
  senderId :: "string option"
  senderName :: "string option"

text \<open>
  A window object. \<^verbatim>\<open>timer\<close> is the handle \<^verbatim>\<open>setTimeout\<close> returned. \<^verbatim>\<open>resolve\<close> is a
  closure: the resolver of the first caller's promise, wrapped once per later caller as
  \<^verbatim>\<open>(msgs) => { originalResolve(msgs); resolve(msgs); }\<close>. Calling it calls the resolvers
  of a list of promises in order, and the model keeps that list of promise ids.
\<close>

record CoalesceWindow =
  cw_sessionKey :: string
  messages :: "CoalesceMessage list"
  cw_startedAt :: int
  timer :: nat
  resolve :: "nat list"

text \<open>
  The configuration after defaults are filled in (\<^verbatim>\<open>Required<CoalesceConfig>\<close>); a
  pattern is the predicate \<^verbatim>\<open>pattern.test\<close> on session keys.
\<close>

record CoalesceConfig =
  enabled :: bool
  windowMs :: int
  maxMessages :: int
  excludePatterns :: "(string \<Rightarrow> bool) list"

record CoalesceConfigInput =
  in_enabled :: "bool option"
  in_windowMs :: "int option"
  in_maxMessages :: "int option"
  in_excludePatterns :: "(string \<Rightarrow> bool) list option"

definition defaultConfig :: CoalesceConfig where
  "defaultConfig = \<lparr> enabled = True, windowMs = DEFAULT_WINDOW_MS,
                       maxMessages = MAX_MESSAGES_PER_BATCH, excludePatterns = [] \<rparr>"

text \<open>
  The module state. Window objects are mutable and shared between the Map and the local
  variable \<^verbatim>\<open>existing\<close> of \<^verbatim>\<open>coalesceMessage\<close>, so they live in a store
  (\<open>windowObjects\<close>, from references to objects) and \<^verbatim>\<open>activeWindows\<close> maps a session key
  to a reference. \<open>pendingTimers\<close> holds the handles the runtime will still fire, each
  with the session key its callback closes. \<open>settled\<close> records every call of a promise's
  resolver, with the list it passed; a promise that does not occur in it is pending.
\<close>

record CState =
  activeWindows :: "(string \<times> nat) list"
  windowObjects :: "nat \<rightharpoonup> CoalesceWindow"
  nextWindow :: nat
  globalConfig :: CoalesceConfig
  pendingTimers :: "(nat \<times> string) list"
  nextTimer :: nat
  nextPromise :: nat
  settled :: "(nat \<times> CoalesceMessage list) list"

definition initialCState :: CState where
  "initialCState = \<lparr> activeWindows = [], windowObjects = Map.empty, nextWindow = 0,
                       globalConfig = defaultConfig, pendingTimers = [], nextTimer = 0,
                       nextPromise = 0, settled = [] \<rparr>"

definition configureCoalescing :: "CoalesceConfigInput \<Rightarrow> CState \<Rightarrow> CState" where
  "configureCoalescing config s =
     s\<lparr> globalConfig :=
          \<lparr> enabled = (case in_enabled config of None \<Rightarrow> enabled defaultConfig | Some e \<Rightarrow> e),
            windowMs = min (case in_windowMs config of None \<Rightarrow> windowMs defaultConfig | Some w \<Rightarrow> w)
                           MAX_WINDOW_MS,
            maxMessages = (case in_maxMessages config of
                             None \<Rightarrow> maxMessages defaultConfig | Some m \<Rightarrow> m),
            excludePatterns = (case in_excludePatterns config of
                                 None \<Rightarrow> excludePatterns defaultConfig | Some ps \<Rightarrow> ps) \<rparr> \<rparr>"

text \<open>\<^verbatim>\<open>String.prototype.includes\<close>: the second string occurs in the first.\<close>

fun str_includes :: "string \<Rightarrow> string \<Rightarrow> bool" where
  "str_includes [] sub = (sub = [])"
| "str_includes (c # cs) sub = (take (length sub) (c # cs) = sub \<or> str_includes cs sub)"

definition shouldSkipCoalescing :: "string \<Rightarrow> CState \<Rightarrow> bool" where
  "shouldSkipCoalescing k s =
     (if \<not> enabled (globalConfig s) then True
      else if str_includes k ''subagent:'' then True
      else list_ex (\<lambda>pattern. pattern k) (excludePatterns (globalConfig s)))"

text \<open>Calling a window's \<^verbatim>\<open>resolve\<close> with a message list.\<close>

definition callResolve :: "nat list \<Rightarrow> CoalesceMessage list \<Rightarrow> CState \<Rightarrow> CState" where
  "callResolve chain msgs s = s\<lparr> settled := settled s @ map (\<lambda>p. (p, msgs)) chain \<rparr>"

definition closeWindow :: "string \<Rightarrow> CState \<Rightarrow> CState" where
  "closeWindow k s =
     (case map_of (activeWindows s) k of
        None \<Rightarrow> s
      | Some ref \<Rightarrow>
          (case windowObjects s ref of
             None \<Rightarrow> s
           | Some window \<Rightarrow>
               callResolve (resolve window) (messages window)
                 (s\<lparr> pendingTimers := AList.delete (timer window) (pendingTimers s),
                     activeWindows := AList.delete k (activeWindows s) \<rparr>)))"

text \<open>
  \<^verbatim>\<open>coalesceMessage\<close> returns the id of the promise it hands to its caller.
  \<^verbatim>\<open>Promise.resolve([message])\<close> is a promise whose resolver has been called. In the
  branch that joins a window, the push, the size check with \<^verbatim>\<open>closeWindow\<close>, and then
  the wrapping of \<^verbatim>\<open>existing.resolve\<close> follow in the order of the source; the last
  writes to the object \<^verbatim>\<open>existing\<close> refers to, whether the Map still holds it or not.
\<close>

definition coalesceMessage ::
  "string \<Rightarrow> CoalesceMessage \<Rightarrow> int \<Rightarrow> CState \<Rightarrow> nat \<times> CState" where
  "coalesceMessage k message now s =
     (let p = nextPromise s; s0 = s\<lparr> nextPromise := p + 1 \<rparr>
      in if shouldSkipCoalescing k s then (p, callResolve [p] [message] s0)
         else
           (case Option.bind (map_of (activeWindows s0) k) (\<lambda>ref. map_option (Pair ref) (windowObjects s0 ref)) of
              Some (ref, existing) \<Rightarrow>
                (let pushed = existing\<lparr> messages := messages existing @ [message] \<rparr>;
                     s1 = s0\<lparr> windowObjects := (windowObjects s0)(ref \<mapsto> pushed) \<rparr>;
                     s2 = (if int (length (messages pushed)) \<ge> maxMessages (globalConfig s1)
                           then closeWindow k s1 else s1)
                 in (p, s2\<lparr> windowObjects :=
                              (windowObjects s2)(ref \<mapsto> pushed\<lparr> resolve := resolve pushed @ [p] \<rparr>) \<rparr>))
            | None \<Rightarrow>
                (let t = nextTimer s0; ref = nextWindow s0;
                     window = \<lparr> cw_sessionKey = k, messages = [message], cw_startedAt = now,
                                 timer = t, resolve = [p] \<rparr>
                 in (p, s0\<lparr> nextTimer := t + 1, nextWindow := ref + 1,
                            pendingTimers := AList.update t k (pendingTimers s0),
                            windowObjects := (windowObjects s0)(ref \<mapsto> window),
                            activeWindows := AList.update k ref (activeWindows s0) \<rparr>))))"

text \<open>
  The callback of a window's timer is \<^verbatim>\<open>() => closeWindow(sessionKey)\<close>. A handle fires
  at most once, and not after \<^verbatim>\<open>clearTimeout\<close>.
\<close>

definition windowTimerFires :: "nat \<Rightarrow> CState \<Rightarrow> CState" where
  "windowTimerFires t s =
     (case map_of (pendingTimers s) t of
        None \<Rightarrow> s
      | Some k \<Rightarrow> closeWindow k (s\<lparr> pendingTimers := AList.delete t (pendingTimers s) \<rparr>))"

definition flushCoalesceWindow :: "string \<Rightarrow> CState \<Rightarrow> CState" where
  "flushCoalesceWindow k s = closeWindow k s"

text \<open>
  \<^verbatim>\<open>clearAllWindows\<close>: \<^verbatim>\<open>for (const sessionKey of activeWindows.keys())\<close>. Each round
  deletes the key it stands on and no other, and resolvers run their reactions later, so
  the loop visits the keys present at its start, in insertion order.
\<close>

fun clearAllLoop :: "string list \<Rightarrow> CState \<Rightarrow> CState" where
  "clearAllLoop [] s = s"
| "clearAllLoop (k # ks) s = clearAllLoop ks (closeWindow k s)"

definition clearAllWindows :: "CState \<Rightarrow> CState" where
  "clearAllWindows s = clearAllLoop (map fst (activeWindows s)) s"

definition hasActiveWindow :: "string \<Rightarrow> CState \<Rightarrow> bool" where
  "hasActiveWindow k s = (map_of (activeWindows s) k \<noteq> None)"

definition getPendingCount :: "string \<Rightarrow> CState \<Rightarrow> nat" where
  "getPendingCount k s =
     (case Option.bind (map_of (activeWindows s) k) (windowObjects s) of
        None \<Rightarrow> 0
      | Some window \<Rightarrow> length (messages window))"

datatype CoalesceOp =
    Coalesce string CoalesceMessage int
  | WindowTimerFires nat
  | Flush string
  | ClearAllWindows
  | Configure CoalesceConfigInput

fun execC :: "CoalesceOp \<Rightarrow> CState \<Rightarrow> CState" where
  "execC (Coalesce k message now) s = snd (coalesceMessage k message now s)"
| "execC (WindowTimerFires t) s = windowTimerFires t s"
| "execC (Flush k) s = flushCoalesceWindow k s"
| "execC ClearAllWindows s = clearAllWindows s"
| "execC (Configure config) s = configureCoalescing config s"

fun runC :: "CoalesceOp list \<Rightarrow> CState \<Rightarrow> CState" where
  "runC [] s = s"
| "runC (op # ops) s = runC ops (execC op s)"


subsection \<open>A promise no window refers to stays pending\<close>

text \<open>
  A promise that has been handed out, whose resolver has not been called, and that the
  \<^verbatim>\<open>resolve\<close> closure of no window in the Map reaches.
\<close>

definition unreachablePromise :: "nat \<Rightarrow> CState \<Rightarrow> bool" where
  "unreachablePromise p s =
     (p < nextPromise s \<and> p \<notin> fst ` set (settled s) \<and>
      (\<forall>k ref w. map_of (activeWindows s) k = Some ref \<longrightarrow> windowObjects s ref = Some w \<longrightarrow>
           p \<notin> set (resolve w)))"

lemma unreachable_closeWindow:
  assumes "unreachablePromise p s"
  shows "unreachablePromise p (closeWindow k s)"
proof (cases "map_of (activeWindows s) k")
  case None
  then show ?thesis using assms by (simp add: closeWindow_def)
next
  case (Some ref)
  show ?thesis
  proof (cases "windowObjects s ref")
    case None
    then show ?thesis using assms Some by (simp add: closeWindow_def)
  next
    case (Some window)
    have np: "p \<notin> set (resolve window)"
      using assms \<open>map_of (activeWindows s) k = Some ref\<close> Some
      unfolding unreachablePromise_def by blast
    have eq: "closeWindow k s =
        s\<lparr> pendingTimers := AList.delete (timer window) (pendingTimers s),
            activeWindows := AList.delete k (activeWindows s),
            settled := settled s @ map (\<lambda>p. (p, messages window)) (resolve window) \<rparr>"
      using \<open>map_of (activeWindows s) k = Some ref\<close> Some
      by (simp add: closeWindow_def callResolve_def)
    have sub: "map_of (AList.delete k (activeWindows s)) k' = Some r \<Longrightarrow>
               map_of (activeWindows s) k' = Some r" for k' r
      by (simp add: delete_conv split: if_splits)
    have a: "p < nextPromise (closeWindow k s)"
      unfolding eq using assms by (simp add: unreachablePromise_def)
    have b: "p \<notin> fst ` set (settled (closeWindow k s))"
      unfolding eq using assms np by (auto simp: unreachablePromise_def image_iff)
    have c: "p \<notin> set (resolve w)"
      if "map_of (activeWindows (closeWindow k s)) k' = Some r"
        and "windowObjects (closeWindow k s) r = Some w" for k' r w
    proof -
      have "map_of (activeWindows s) k' = Some r" using that(1) sub unfolding eq by simp
      moreover have "windowObjects s r = Some w" using that(2) unfolding eq by simp
      ultimately show ?thesis using assms unfolding unreachablePromise_def by blast
    qed
    show ?thesis unfolding unreachablePromise_def using a b c by blast
  qed
qed

lemma unreachable_clearAllLoop:
  "unreachablePromise p s \<Longrightarrow> unreachablePromise p (clearAllLoop ks s)"
  by (induction ks arbitrary: s) (simp_all add: unreachable_closeWindow)

lemma unreachable_coalesceMessage:
  assumes "unreachablePromise p s"
  shows "unreachablePromise p (snd (coalesceMessage k message now s))"
proof -
  define q where "q = nextPromise s"
  define s0 where "s0 = s\<lparr> nextPromise := q + 1 \<rparr>"
  have pq: "p \<noteq> q" "p < q + 1" using assms by (auto simp: unreachablePromise_def q_def)
  have u0: "unreachablePromise p s0"
    using assms pq by (simp add: unreachablePromise_def s0_def)
  show ?thesis
  proof (cases "shouldSkipCoalescing k s")
    case True
    then have "snd (coalesceMessage k message now s) = callResolve [q] [message] s0"
      unfolding coalesceMessage_def Let_def s0_def q_def by simp
    then show ?thesis
      using u0 pq by (simp add: unreachablePromise_def callResolve_def)
  next
    case False
    show ?thesis
    proof (cases "Option.bind (map_of (activeWindows s0) k) (\<lambda>ref. map_option (Pair ref) (windowObjects s0 ref))")
      case None
      define window where "window = \<lparr> cw_sessionKey = k, messages = [message], cw_startedAt = now,
                                 timer = nextTimer s0, resolve = [q] \<rparr>"
      have eq: "snd (coalesceMessage k message now s) =
          s0\<lparr> nextTimer := nextTimer s0 + 1, nextWindow := nextWindow s0 + 1,
              pendingTimers := AList.update (nextTimer s0) k (pendingTimers s0),
              windowObjects := (windowObjects s0)(nextWindow s0 \<mapsto> window),
              activeWindows := AList.update k (nextWindow s0) (activeWindows s0) \<rparr>"
        using False None unfolding coalesceMessage_def Let_def window_def s0_def q_def
        by simp
      show ?thesis
        unfolding eq unreachablePromise_def
        using u0 pq
        by (auto simp: unreachablePromise_def update_conv window_def split: if_splits)
    next
      case (Some a)
      obtain ref existing where a: "a = (ref, existing)" by (cases a)
      have look: "map_of (activeWindows s0) k = Some ref" "windowObjects s0 ref = Some existing"
        using Some a by (auto simp: Option.bind_eq_Some_conv)
      define pushed where "pushed = existing\<lparr> messages := messages existing @ [message] \<rparr>"
      define s1 where "s1 = s0\<lparr> windowObjects := (windowObjects s0)(ref \<mapsto> pushed) \<rparr>"
      define s2 where "s2 = (if int (length (messages pushed)) \<ge> maxMessages (globalConfig s1)
                           then closeWindow k s1 else s1)"
      have eq: "snd (coalesceMessage k message now s) =
          s2\<lparr> windowObjects := (windowObjects s2)(ref \<mapsto> pushed\<lparr> resolve := resolve pushed @ [q] \<rparr>) \<rparr>"
        using False Some a unfolding coalesceMessage_def Let_def s2_def s1_def pushed_def s0_def q_def
        by simp
      have ne: "p \<notin> set (resolve existing)"
        using u0 look unfolding unreachablePromise_def by blast
      have u1: "unreachablePromise p s1"
        using u0 ne unfolding unreachablePromise_def s1_def pushed_def
        by (auto split: if_splits)
      have u2: "unreachablePromise p s2"
        unfolding s2_def using u1 unreachable_closeWindow by simp
      show ?thesis
        unfolding eq unreachablePromise_def
        using u2 ne pq unfolding unreachablePromise_def pushed_def
        by (auto split: if_splits)
    qed
  qed
qed

lemma unreachable_execC:
  assumes "unreachablePromise p s"
  shows "unreachablePromise p (execC op s)"
proof (cases op)
  case (Coalesce k message now)
  then show ?thesis using unreachable_coalesceMessage [OF assms] by simp
next
  case (WindowTimerFires t)
  have "unreachablePromise p (s\<lparr> pendingTimers := ts \<rparr>)" for ts
    using assms by (simp add: unreachablePromise_def)
  then show ?thesis
    using WindowTimerFires assms unreachable_closeWindow
    by (simp add: windowTimerFires_def split: option.splits)
next
  case (Flush k)
  then show ?thesis using unreachable_closeWindow [OF assms] by (simp add: flushCoalesceWindow_def)
next
  case ClearAllWindows
  then show ?thesis using unreachable_clearAllLoop [OF assms] by (simp add: clearAllWindows_def)
next
  case (Configure config)
  then show ?thesis using assms by (simp add: configureCoalescing_def unreachablePromise_def)
qed

lemma unreachable_runC:
  "unreachablePromise p s \<Longrightarrow> unreachablePromise p (runC ops s)"
  by (induction ops arbitrary: s) (simp_all add: unreachable_execC)


subsection \<open>Closing all windows\<close>

text \<open>The window objects the Map holds, in the Map's order.\<close>

definition windowsOf :: "CState \<Rightarrow> CoalesceWindow list" where
  "windowsOf s = List.map_filter (\<lambda>(k, ref). windowObjects s ref) (activeWindows s)"

text \<open>The calls of promise resolvers that closing a window makes.\<close>

definition deliveries :: "CoalesceWindow \<Rightarrow> (nat \<times> CoalesceMessage list) list" where
  "deliveries w = map (\<lambda>p. (p, messages w)) (resolve w)"

definition wfWindows :: "CState \<Rightarrow> bool" where
  "wfWindows s = (distinct (map fst (activeWindows s)) \<and>
                  (\<forall>(k, ref) \<in> set (activeWindows s). windowObjects s ref \<noteq> None))"

lemma set_update_subset: "set (AList.update k v al) \<subseteq> insert (k, v) (set al)"
  by (induction al) auto

lemma set_delete_subset: "set (AList.delete k al) \<subseteq> set al"
  by (auto simp: AList.delete_eq)

lemma closeWindow_fields:
  "windowObjects (closeWindow k s) = windowObjects s"
  "set (activeWindows (closeWindow k s)) \<subseteq> set (activeWindows s)"
  "distinct (map fst (activeWindows s)) \<Longrightarrow> distinct (map fst (activeWindows (closeWindow k s)))"
  using set_delete_subset [of k "activeWindows s"]
  by (auto simp: closeWindow_def callResolve_def distinct_delete split: option.splits)

lemma wfWindows_closeWindow: "wfWindows s \<Longrightarrow> wfWindows (closeWindow k s)"
  unfolding wfWindows_def using closeWindow_fields [where k = k and s = s] by auto

lemma wfWindows_clearAllLoop: "wfWindows s \<Longrightarrow> wfWindows (clearAllLoop ks s)"
  by (induction ks arbitrary: s) (simp_all add: wfWindows_closeWindow)

lemma wfWindows_heap_write:
  assumes "wfWindows s"
  shows "wfWindows (s\<lparr> windowObjects := (windowObjects s)(ref \<mapsto> w) \<rparr>)"
  using assms unfolding wfWindows_def by auto

lemma wfWindows_coalesceMessage:
  assumes "wfWindows s"
  shows "wfWindows (snd (coalesceMessage k message now s))"
proof -
  define q where "q = nextPromise s"
  define s0 where "s0 = s\<lparr> nextPromise := q + 1 \<rparr>"
  have w0: "wfWindows s0" using assms by (simp add: wfWindows_def s0_def)
  show ?thesis
  proof (cases "shouldSkipCoalescing k s")
    case True
    then have "snd (coalesceMessage k message now s) = callResolve [q] [message] s0"
      unfolding coalesceMessage_def Let_def s0_def q_def by simp
    then show ?thesis using w0 by (simp add: wfWindows_def callResolve_def)
  next
    case False
    show ?thesis
    proof (cases "Option.bind (map_of (activeWindows s0) k) (\<lambda>ref. map_option (Pair ref) (windowObjects s0 ref))")
      case None
      define window where "window = \<lparr> cw_sessionKey = k, messages = [message], cw_startedAt = now,
                                 timer = nextTimer s0, resolve = [q] \<rparr>"
      have eq: "snd (coalesceMessage k message now s) =
          s0\<lparr> nextTimer := nextTimer s0 + 1, nextWindow := nextWindow s0 + 1,
              pendingTimers := AList.update (nextTimer s0) k (pendingTimers s0),
              windowObjects := (windowObjects s0)(nextWindow s0 \<mapsto> window),
              activeWindows := AList.update k (nextWindow s0) (activeWindows s0) \<rparr>"
        using False None unfolding coalesceMessage_def Let_def window_def s0_def q_def
        by simp
      show ?thesis
        unfolding eq wfWindows_def
        using w0 set_update_subset [of k "nextWindow s0" "activeWindows s0"]
        by (auto simp: wfWindows_def distinct_update)
    next
      case (Some a)
      obtain ref existing where a: "a = (ref, existing)" by (cases a)
      define pushed where "pushed = existing\<lparr> messages := messages existing @ [message] \<rparr>"
      define s1 where "s1 = s0\<lparr> windowObjects := (windowObjects s0)(ref \<mapsto> pushed) \<rparr>"
      define s2 where "s2 = (if int (length (messages pushed)) \<ge> maxMessages (globalConfig s1)
                           then closeWindow k s1 else s1)"
      have eq: "snd (coalesceMessage k message now s) =
          s2\<lparr> windowObjects := (windowObjects s2)(ref \<mapsto> pushed\<lparr> resolve := resolve pushed @ [q] \<rparr>) \<rparr>"
        using False Some a unfolding coalesceMessage_def Let_def s2_def s1_def pushed_def s0_def q_def
        by simp
      have w1: "wfWindows s1" unfolding s1_def by (rule wfWindows_heap_write [OF w0])
      have w2: "wfWindows s2" unfolding s2_def using w1 wfWindows_closeWindow by simp
      show ?thesis unfolding eq by (rule wfWindows_heap_write [OF w2])
    qed
  qed
qed

lemma wfWindows_execC:
  assumes "wfWindows s"
  shows "wfWindows (execC op s)"
proof (cases op)
  case (Coalesce k message now)
  then show ?thesis using wfWindows_coalesceMessage [OF assms] by simp
next
  case (WindowTimerFires t)
  have "wfWindows (s\<lparr> pendingTimers := ts \<rparr>)" for ts
    using assms by (simp add: wfWindows_def)
  then show ?thesis
    using WindowTimerFires assms wfWindows_closeWindow
    by (simp add: windowTimerFires_def split: option.splits)
next
  case (Flush k)
  then show ?thesis using wfWindows_closeWindow [OF assms] by (simp add: flushCoalesceWindow_def)
next
  case ClearAllWindows
  then show ?thesis using wfWindows_clearAllLoop [OF assms] by (simp add: clearAllWindows_def)
next
  case (Configure config)
  then show ?thesis using assms by (simp add: configureCoalescing_def wfWindows_def)
qed

lemma wfWindows_runC: "wfWindows s \<Longrightarrow> wfWindows (runC ops s)"
  by (induction ops arbitrary: s) (simp_all add: wfWindows_execC)

lemma wfWindows_initial: "wfWindows initialCState"
  by (simp add: wfWindows_def initialCState_def)

lemma clearAllLoop_all:
  "activeWindows s = al \<Longrightarrow> wfWindows s \<Longrightarrow>
     activeWindows (clearAllLoop (map fst al) s) = [] \<and>
     settled (clearAllLoop (map fst al) s) = settled s @ concat (map deliveries (windowsOf s)) \<and>
     pendingTimers (clearAllLoop (map fst al) s)
       = filter (\<lambda>(t, k). t \<notin> set (map timer (windowsOf s))) (pendingTimers s) \<and>
     windowObjects (clearAllLoop (map fst al) s) = windowObjects s"
proof (induction al arbitrary: s)
  case Nil
  then show ?case by (simp add: windowsOf_def List.map_filter_simps)
next
  case (Cons a al)
  obtain k ref where a: "a = (k, ref)" by (cases a)
  have aw: "activeWindows s = (k, ref) # al" using Cons.prems(1) a by simp
  have d: "distinct (map fst ((k, ref) # al))" using Cons.prems(2) aw by (simp add: wfWindows_def)
  obtain w where w: "windowObjects s ref = Some w"
    using Cons.prems(2) aw by (auto simp: wfWindows_def)
  have del: "AList.delete k ((k, ref) # al) = al"
    using d by (simp add: image_iff)
  define s1 where "s1 = closeWindow k s"
  have eq: "s1 = s\<lparr> pendingTimers := AList.delete (timer w) (pendingTimers s),
                    activeWindows := al,
                    settled := settled s @ deliveries w \<rparr>"
    unfolding s1_def closeWindow_def callResolve_def deliveries_def using aw w del by simp
  have aw1: "activeWindows s1 = al" unfolding eq by simp
  have wf1: "wfWindows s1" unfolding s1_def by (rule wfWindows_closeWindow [OF Cons.prems(2)])
  have wo: "windowsOf s = w # windowsOf s1"
    unfolding windowsOf_def aw eq using w by (simp add: List.map_filter_simps)
  note IH = Cons.IH [OF aw1 wf1]
  have loop: "clearAllLoop (map fst (a # al)) s = clearAllLoop (map fst al) s1"
    using a by (simp add: s1_def)
  have flt: "filter (\<lambda>(t, k). t \<notin> set (map timer (windowsOf s1)))
               (AList.delete (timer w) (pendingTimers s))
             = filter (\<lambda>(t, k). t \<notin> set (map timer (w # windowsOf s1))) (pendingTimers s)"
    unfolding AList.delete_eq filter_filter by (rule filter_cong) auto
  have f1: "settled s1 = settled s @ deliveries w"
    "pendingTimers s1 = AList.delete (timer w) (pendingTimers s)"
    "windowObjects s1 = windowObjects s"
    unfolding eq by simp_all
  show ?case
    unfolding loop wo using IH flt unfolding f1 by simp
qed

text \<open>
  Claim C10. In every reachable state \<^verbatim>\<open>clearAllWindows\<close> closes every active window:
  afterwards the Map is empty, the resolver chain of each window has been called with
  that window's accumulated messages (windows in Map order, callers in joining order),
  no window's timer is pending any more, and no window object has been changed.
\<close>

theorem clearAllWindows_closes_all:
  "s = runC ops initialCState \<Longrightarrow>
     activeWindows (clearAllWindows s) = [] \<and>
     settled (clearAllWindows s) = settled s @ concat (map deliveries (windowsOf s)) \<and>
     pendingTimers (clearAllWindows s)
       = filter (\<lambda>(t, k). t \<notin> set (map timer (windowsOf s))) (pendingTimers s) \<and>
     windowObjects (clearAllWindows s) = windowObjects s \<and>
     length (windowsOf s) = length (activeWindows s)"
proof -
  assume s: "s = runC ops initialCState"
  have wf: "wfWindows s" unfolding s by (rule wfWindows_runC [OF wfWindows_initial])
  have len: "length (windowsOf s) = length (activeWindows s)"
  proof -
    have "\<forall>(k, ref) \<in> set al. windowObjects s ref \<noteq> None \<Longrightarrow>
          length (List.map_filter (\<lambda>(k, ref). windowObjects s ref) al) = length al" for al
      by (induction al) (auto simp: List.map_filter_simps)
    then show ?thesis using wf unfolding windowsOf_def wfWindows_def by blast
  qed
  show ?thesis
    unfolding clearAllWindows_def using clearAllLoop_all [OF refl wf] len by simp
qed


text \<open>Messages and the configuration of the module's test for the concrete runs.\<close>

definition exampleMessage :: "string \<Rightarrow> int \<Rightarrow> CoalesceMessage" where
  "exampleMessage t ts = \<lparr> cm_text = t, images = None, timestamp = ts, senderId = None,
                           senderName = None \<rparr>"

definition maxThree :: CoalesceConfigInput where
  "maxThree = \<lparr> in_enabled = Some True, in_windowMs = Some 5000, in_maxMessages = Some 3,
                in_excludePatterns = None \<rparr>"

lemmas coalesce_eval = initialCState_def defaultConfig_def configureCoalescing_def
  shouldSkipCoalescing_def callResolve_def closeWindow_def coalesceMessage_def
  windowTimerFires_def flushCoalesceWindow_def clearAllWindows_def maxThree_def
  DEFAULT_WINDOW_MS_def MAX_WINDOW_MS_def MAX_MESSAGES_PER_BATCH_def Let_def

theorem clearAllWindows_closes_all_witness:
  "activeWindows (clearAllWindows (runC
       [Coalesce ''a'' (exampleMessage ''x'' 0) 0, Coalesce ''b'' (exampleMessage ''y'' 1) 1,
        Coalesce ''a'' (exampleMessage ''z'' 2) 2] initialCState)) = []
   \<and> settled (clearAllWindows (runC
       [Coalesce ''a'' (exampleMessage ''x'' 0) 0, Coalesce ''b'' (exampleMessage ''y'' 1) 1,
        Coalesce ''a'' (exampleMessage ''z'' 2) 2] initialCState))
     = [(0, [exampleMessage ''x'' 0, exampleMessage ''z'' 2]),
        (2, [exampleMessage ''x'' 0, exampleMessage ''z'' 2]),
        (1, [exampleMessage ''y'' 1])]
   \<and> pendingTimers (clearAllWindows (runC
       [Coalesce ''a'' (exampleMessage ''x'' 0) 0, Coalesce ''b'' (exampleMessage ''y'' 1) 1,
        Coalesce ''a'' (exampleMessage ''z'' 2) 2] initialCState)) = []"
proof -
  define s where "s = runC
       [Coalesce ''a'' (exampleMessage ''x'' 0) 0, Coalesce ''b'' (exampleMessage ''y'' 1) 1,
        Coalesce ''a'' (exampleMessage ''z'' 2) 2] initialCState"
  have w: "windowsOf s =
      [\<lparr> cw_sessionKey = ''a'', messages = [exampleMessage ''x'' 0, exampleMessage ''z'' 2],
          cw_startedAt = 0, timer = 0, resolve = [0, 2] \<rparr>,
       \<lparr> cw_sessionKey = ''b'', messages = [exampleMessage ''y'' 1],
          cw_startedAt = 1, timer = 1, resolve = [1] \<rparr>]"
    unfolding s_def by (simp add: coalesce_eval windowsOf_def List.map_filter_simps)
  have t: "pendingTimers s = [(0, ''a''), (1, ''b'')]" and e: "settled s = []"
    unfolding s_def by (simp_all add: coalesce_eval)
  show ?thesis
    using clearAllWindows_closes_all [OF s_def] unfolding s_def [symmetric] w t e
    by (simp add: deliveries_def)
qed

text \<open>
  Claim C1 fails on the code (a defect of the code, not of the claim). With
  \<^verbatim>\<open>maxMessages = 3\<close>, three calls of \<^verbatim>\<open>coalesceMessage\<close> on one session return the
  promises 0, 1 and 2. The third call closes the window before it wraps
  \<^verbatim>\<open>existing.resolve\<close>: the resolvers of promises 0 and 1 are called with the three
  messages, the window leaves the Map and its timer is cleared, and the wrapper that
  holds the resolver of promise 2 is stored on an object nothing refers to. After any
  further operations promise 2 is still pending.
\<close>

theorem coalesce_closing_caller_never_resolves:
  "fst (coalesceMessage ''session-1'' (exampleMessage ''3'' 2) 2
         (runC [Configure maxThree,
                Coalesce ''session-1'' (exampleMessage ''1'' 0) 0,
                Coalesce ''session-1'' (exampleMessage ''2'' 1) 1] initialCState)) = 2
   \<and> settled (runC [Configure maxThree,
                Coalesce ''session-1'' (exampleMessage ''1'' 0) 0,
                Coalesce ''session-1'' (exampleMessage ''2'' 1) 1,
                Coalesce ''session-1'' (exampleMessage ''3'' 2) 2] initialCState)
     = [(0, [exampleMessage ''1'' 0, exampleMessage ''2'' 1, exampleMessage ''3'' 2]),
        (1, [exampleMessage ''1'' 0, exampleMessage ''2'' 1, exampleMessage ''3'' 2])]
   \<and> activeWindows (runC [Configure maxThree,
                Coalesce ''session-1'' (exampleMessage ''1'' 0) 0,
                Coalesce ''session-1'' (exampleMessage ''2'' 1) 1,
                Coalesce ''session-1'' (exampleMessage ''3'' 2) 2] initialCState) = []
   \<and> pendingTimers (runC [Configure maxThree,
                Coalesce ''session-1'' (exampleMessage ''1'' 0) 0,
                Coalesce ''session-1'' (exampleMessage ''2'' 1) 1,
                Coalesce ''session-1'' (exampleMessage ''3'' 2) 2] initialCState) = []
   \<and> (\<forall>ops. 2 \<notin> fst ` set (settled (runC ops
          (runC [Configure maxThree,
                Coalesce ''session-1'' (exampleMessage ''1'' 0) 0,
                Coalesce ''session-1'' (exampleMessage ''2'' 1) 1,
                Coalesce ''session-1'' (exampleMessage ''3'' 2) 2] initialCState))))"
proof -
  define s3 where "s3 = runC [Configure maxThree,
                Coalesce ''session-1'' (exampleMessage ''1'' 0) 0,
                Coalesce ''session-1'' (exampleMessage ''2'' 1) 1,
                Coalesce ''session-1'' (exampleMessage ''3'' 2) 2] initialCState"
  have p: "fst (coalesceMessage ''session-1'' (exampleMessage ''3'' 2) 2
         (runC [Configure maxThree,
                Coalesce ''session-1'' (exampleMessage ''1'' 0) 0,
                Coalesce ''session-1'' (exampleMessage ''2'' 1) 1] initialCState)) = 2"
    by (simp add: coalesce_eval)
  have st: "settled s3
     = [(0, [exampleMessage ''1'' 0, exampleMessage ''2'' 1, exampleMessage ''3'' 2]),
        (1, [exampleMessage ''1'' 0, exampleMessage ''2'' 1, exampleMessage ''3'' 2])]"
    and aw: "activeWindows s3 = []" and pt: "pendingTimers s3 = []" and np: "nextPromise s3 = 3"
    unfolding s3_def by (simp_all add: coalesce_eval)
  have "unreachablePromise 2 s3"
    unfolding unreachablePromise_def st aw np by simp
  then have "\<forall>ops. 2 \<notin> fst ` set (settled (runC ops s3))"
    using unreachable_runC unfolding unreachablePromise_def by blast
  then show ?thesis using p st aw pt unfolding s3_def by blast
qed

section \<open>Auth preload cache (src/agents/auth-preload.ts)\<close>

text \<open>
  The type \<^verbatim>\<open>ResolvedProviderAuth\<close> (an object), the function \<^verbatim>\<open>normalizeProviderId\<close> and
  the resolver \<^verbatim>\<open>resolveApiKeyForProvider\<close> are imported from modules outside the source
  tree: the credential type is the type parameter \<open>'a\<close>, the normalisation is the
  parameter \<open>normId\<close>, and the resolver's outcome (an error or a credential) is a parameter
  of the step that resumes after the \<^verbatim>\<open>await\<close>. The arguments \<^verbatim>\<open>cfg\<close> and \<^verbatim>\<open>agentDir\<close>
  are only passed on to the resolver and are left out.
\<close>

record 'a CacheEntry =
  auth :: 'a
  provider :: string
  profileId :: "string option"
  resolvedAt :: int
  expiresAt :: int

definition AUTH_CACHE_TTL_MS :: int where "AUTH_CACHE_TTL_MS = 5 * 60 * 1000"
definition AUTH_CACHE_REFRESH_AHEAD_MS :: int where "AUTH_CACHE_REFRESH_AHEAD_MS = 60 * 1000"
definition AUTH_CACHE_MAX_SIZE :: nat where "AUTH_CACHE_MAX_SIZE = 50"

text \<open>
  The module state, and the calls of the resolver made so far (provider and profile id
  of each call, in order).
\<close>

record 'a AuthState =
  authCache :: "(string \<times> 'a CacheEntry) list"
  cacheAccessOrder :: "string list"
  refreshInProgress :: "string set"
  resolverCalls :: "(string \<times> string option) list"

definition initialAuthState :: "'a AuthState" where
  "initialAuthState = \<lparr> authCache = [], cacheAccessOrder = [], refreshInProgress = {},
                          resolverCalls = [] \<rparr>"

text \<open>\<^verbatim>\<open>profileId ? ... : ...\<close> tests truthiness: a missing and an empty profile id alike.\<close>

definition buildCacheKey :: "(string \<Rightarrow> string) \<Rightarrow> string \<Rightarrow> string option \<Rightarrow> string" where
  "buildCacheKey normId prov prof =
     (case prof of
        None \<Rightarrow> normId prov
      | Some p \<Rightarrow> if p = [] then normId prov else normId prov @ '':'' @ p)"

text \<open>
  \<^verbatim>\<open>evictOldest\<close>: the loop shifts one key off the access order per round, so it recurses
  on that list; \<^verbatim>\<open>if (oldest)\<close> skips the deletion for an empty key.
\<close>

fun evictLoop ::
  "string list \<Rightarrow> (string \<times> 'a CacheEntry) list \<Rightarrow> string list \<times> (string \<times> 'a CacheEntry) list" where
  "evictLoop [] cache = ([], cache)"
| "evictLoop (oldest # rest) cache =
     (if length cache \<ge> AUTH_CACHE_MAX_SIZE
      then evictLoop rest (if oldest \<noteq> [] then AList.delete oldest cache else cache)
      else (oldest # rest, cache))"

definition evictOldest :: "'a AuthState \<Rightarrow> 'a AuthState" where
  "evictOldest s =
     (case evictLoop (cacheAccessOrder s) (authCache s) of
        (order', cache') \<Rightarrow> s\<lparr> cacheAccessOrder := order', authCache := cache' \<rparr>)"

definition touchCacheEntry :: "string \<Rightarrow> 'a AuthState \<Rightarrow> 'a AuthState" where
  "touchCacheEntry key s = s\<lparr> cacheAccessOrder := remove1 key (cacheAccessOrder s) @ [key] \<rparr>"

definition setCacheEntry :: "string \<Rightarrow> 'a CacheEntry \<Rightarrow> 'a AuthState \<Rightarrow> 'a AuthState" where
  "setCacheEntry key entry s =
     (let s1 = evictOldest s;
          s2 = s1\<lparr> authCache := AList.update key entry (authCache s1) \<rparr>
      in touchCacheEntry key s2)"

definition getCacheEntry :: "string \<Rightarrow> 'a AuthState \<Rightarrow> 'a CacheEntry option \<times> 'a AuthState" where
  "getCacheEntry key s =
     (case map_of (authCache s) key of
        None \<Rightarrow> (None, s)
      | Some entry \<Rightarrow> (Some entry, touchCacheEntry key s))"

text \<open>
  \<^verbatim>\<open>scheduleBackgroundRefresh\<close> marks the key and starts \<^verbatim>\<open>preloadAuth\<close> with
  \<^verbatim>\<open>force: true\<close>, which runs up to its \<^verbatim>\<open>await\<close>: the resolver is called. The rest of
  the refresh is the step \<open>backgroundRefreshSettles\<close>.
\<close>

definition scheduleBackgroundRefresh ::
  "(string \<Rightarrow> string) \<Rightarrow> string \<Rightarrow> string option \<Rightarrow> 'a AuthState \<Rightarrow> 'a AuthState" where
  "scheduleBackgroundRefresh normId prov prof s =
     (let key = buildCacheKey normId prov prof
      in if key \<in> refreshInProgress s then s
         else s\<lparr> refreshInProgress := insert key (refreshInProgress s),
                 resolverCalls := resolverCalls s @ [(prov, prof)] \<rparr>)"

definition getCachedAuth ::
  "(string \<Rightarrow> string) \<Rightarrow> string \<Rightarrow> string option \<Rightarrow> int \<Rightarrow> 'a AuthState \<Rightarrow> 'a option \<times> 'a AuthState" where
  "getCachedAuth normId prov prof now s =
     (let key = buildCacheKey normId prov prof
      in case getCacheEntry key s of
           (None, s1) \<Rightarrow> (None, s1)
         | (Some entry, s1) \<Rightarrow>
             if now \<ge> expiresAt entry
             then (None, s1\<lparr> authCache := AList.delete key (authCache s1) \<rparr>)
             else if now \<ge> expiresAt entry - AUTH_CACHE_REFRESH_AHEAD_MS
             then (Some (auth entry), scheduleBackgroundRefresh normId prov prof s1)
             else (Some (auth entry), s1))"

record PreloadAuthParams =
  pa_provider :: string
  pa_profileId :: "string option"
  pa_force :: "bool option"

text \<open>
  \<^verbatim>\<open>preloadAuth\<close> up to its \<^verbatim>\<open>await\<close>: a cached credential, or the resolver has been
  called and the function is suspended.
\<close>

datatype 'a Lookup = Hit 'a | Miss

definition preloadAuth_start ::
  "(string \<Rightarrow> string) \<Rightarrow> PreloadAuthParams \<Rightarrow> int \<Rightarrow> 'a AuthState \<Rightarrow> 'a Lookup \<times> 'a AuthState" where
  "preloadAuth_start normId params now s =
     (let call = (\<lambda>s'. (Miss, s'\<lparr> resolverCalls :=
                                     resolverCalls s' @ [(pa_provider params, pa_profileId params)] \<rparr>))
      in if pa_force params = Some True then call s
         else (case getCachedAuth normId (pa_provider params) (pa_profileId params) now s of
                 (Some cached, s1) \<Rightarrow> (Hit cached, s1)
               | (None, s1) \<Rightarrow> call s1))"

text \<open>
  \<^verbatim>\<open>preloadAuth\<close> after the \<^verbatim>\<open>await\<close>, in the state of that moment: a rejection of the
  resolver is rethrown (\<open>Inl\<close>) and nothing is stored; a credential is stored with
  \<^verbatim>\<open>resolvedAt = Date.now()\<close> and \<^verbatim>\<open>expiresAt = now + AUTH_CACHE_TTL_MS\<close> and returned.
\<close>

definition preloadAuth_resume ::
  "(string \<Rightarrow> string) \<Rightarrow> PreloadAuthParams \<Rightarrow> 'e + 'a \<Rightarrow> int \<Rightarrow> 'a AuthState \<Rightarrow> ('e + 'a) \<times> 'a AuthState" where
  "preloadAuth_resume normId params outcome now s =
     (case outcome of
        Inl err \<Rightarrow> (Inl err, s)
      | Inr a \<Rightarrow>
          (Inr a,
           setCacheEntry (buildCacheKey normId (pa_provider params) (pa_profileId params))
             \<lparr> auth = a, provider = pa_provider params, profileId = pa_profileId params,
               resolvedAt = now, expiresAt = now + AUTH_CACHE_TTL_MS \<rparr> s))"

text \<open>The whole call when nothing else runs while the resolver works.\<close>

definition preloadAuth ::
  "(string \<Rightarrow> string) \<Rightarrow> PreloadAuthParams \<Rightarrow> int \<Rightarrow> 'e + 'a \<Rightarrow> int \<Rightarrow> 'a AuthState \<Rightarrow> ('e + 'a) \<times> 'a AuthState" where
  "preloadAuth normId params now outcome resolvedNow s =
     (case preloadAuth_start normId params now s of
        (Hit cached, s1) \<Rightarrow> (Inr cached, s1)
      | (Miss, s1) \<Rightarrow> preloadAuth_resume normId params outcome resolvedNow s1)"

definition backgroundRefreshSettles ::
  "(string \<Rightarrow> string) \<Rightarrow> string \<Rightarrow> string option \<Rightarrow> 'e + 'a \<Rightarrow> int \<Rightarrow> 'a AuthState \<Rightarrow> 'a AuthState" where
  "backgroundRefreshSettles normId prov prof outcome now s =
     (let s1 = snd (preloadAuth_resume normId
                      \<lparr> pa_provider = prov, pa_profileId = prof, pa_force = Some True \<rparr> outcome now s)
      in s1\<lparr> refreshInProgress := refreshInProgress s1 - {buildCacheKey normId prov prof} \<rparr>)"

definition invalidateAuth :: "(string \<Rightarrow> string) \<Rightarrow> string \<Rightarrow> string option \<Rightarrow> 'a AuthState \<Rightarrow> 'a AuthState" where
  "invalidateAuth normId prov prof s =
     s\<lparr> authCache := AList.delete (buildCacheKey normId prov prof) (authCache s) \<rparr>"

definition clearAuthCache :: "'a AuthState \<Rightarrow> 'a AuthState" where
  "clearAuthCache s = s\<lparr> authCache := [], cacheAccessOrder := [], refreshInProgress := {} \<rparr>"

lemma getCachedAuth_hit:
  assumes "getCachedAuth normId prov prof now s = (Some a, s')"
  shows "\<exists>entry. map_of (authCache s) (buildCacheKey normId prov prof) = Some entry \<and>
                 auth entry = a \<and> now < expiresAt entry"
  using assms
  by (auto simp: getCachedAuth_def getCacheEntry_def Let_def split: option.splits if_splits)

lemma getCachedAuth_fresh:
  assumes "map_of (authCache s) (buildCacheKey normId prov prof) = Some entry" "now < expiresAt entry"
  shows "fst (getCachedAuth normId prov prof now s) = Some (auth entry)"
  using assms by (simp add: getCachedAuth_def getCacheEntry_def Let_def)

lemma getCachedAuth_miss:
  assumes "map_of (authCache s) (buildCacheKey normId prov prof) = None \<or>
           (\<exists>entry. map_of (authCache s) (buildCacheKey normId prov prof) = Some entry \<and> now \<ge> expiresAt entry)"
  shows "fst (getCachedAuth normId prov prof now s) = None"
    and "resolverCalls (snd (getCachedAuth normId prov prof now s)) = resolverCalls s"
    and "map_of (authCache (snd (getCachedAuth normId prov prof now s))) (buildCacheKey normId prov prof) = None"
  using assms
  by (auto simp: getCachedAuth_def getCacheEntry_def touchCacheEntry_def Let_def delete_conv
      split: option.splits)

lemma setCacheEntry_stores:
  "map_of (authCache (setCacheEntry key entry s)) key = Some entry"
  by (simp add: setCacheEntry_def touchCacheEntry_def Let_def update_conv)


lemma preloadAuth_resume_stores:
  "fst (preloadAuth_resume normId params (Inr a) now s) = Inr a"
  "map_of (authCache (snd (preloadAuth_resume normId params (Inr a) now s)))
          (buildCacheKey normId (pa_provider params) (pa_profileId params))
     = Some \<lparr> auth = a, provider = pa_provider params, profileId = pa_profileId params,
              resolvedAt = now, expiresAt = now + AUTH_CACHE_TTL_MS \<rparr>"
  by (simp_all add: preloadAuth_resume_def setCacheEntry_stores)

lemma preloadAuth_start_hit:
  assumes "pa_force params \<noteq> Some True" "preloadAuth_start normId params now s = (Hit a, s')"
  shows "\<exists>entry. map_of (authCache s) (buildCacheKey normId (pa_provider params) (pa_profileId params))
                    = Some entry \<and> auth entry = a \<and> now < expiresAt entry"
proof -
  obtain r s1 where g: "getCachedAuth normId (pa_provider params) (pa_profileId params) now s = (r, s1)"
    by (cases "getCachedAuth normId (pa_provider params) (pa_profileId params) now s")
  have "r = Some a"
    using assms g by (cases r) (auto simp: preloadAuth_start_def Let_def)
  then have "getCachedAuth normId (pa_provider params) (pa_profileId params) now s = (Some a, s1)"
    using g by simp
  then show ?thesis by (rule getCachedAuth_hit)
qed

lemma preloadAuth_start_fresh:
  assumes "pa_force params \<noteq> Some True"
    and "map_of (authCache s) (buildCacheKey normId (pa_provider params) (pa_profileId params)) = Some entry"
    and "now < expiresAt entry"
  shows "fst (preloadAuth_start normId params now s) = Hit (auth entry)"
proof -
  obtain r s1 where g: "getCachedAuth normId (pa_provider params) (pa_profileId params) now s = (r, s1)"
    by (cases "getCachedAuth normId (pa_provider params) (pa_profileId params) now s")
  have "r = Some (auth entry)" using getCachedAuth_fresh [OF assms(2,3)] g by simp
  then show ?thesis using assms(1) g by (simp add: preloadAuth_start_def Let_def)
qed

lemma preloadAuth_start_miss:
  assumes "pa_force params \<noteq> Some True"
    and "map_of (authCache s) (buildCacheKey normId (pa_provider params) (pa_profileId params)) = None \<or>
         (\<exists>entry. map_of (authCache s) (buildCacheKey normId (pa_provider params) (pa_profileId params))
                     = Some entry \<and> now \<ge> expiresAt entry)"
  shows "fst (preloadAuth_start normId params now s) = Miss"
    and "resolverCalls (snd (preloadAuth_start normId params now s))
           = resolverCalls s @ [(pa_provider params, pa_profileId params)]"
proof -
  obtain r s1 where g: "getCachedAuth normId (pa_provider params) (pa_profileId params) now s = (r, s1)"
    by (cases "getCachedAuth normId (pa_provider params) (pa_profileId params) now s")
  note m = getCachedAuth_miss [OF assms(2)]
  have r: "r = None" and c: "resolverCalls s1 = resolverCalls s" using m(1,2) g by simp_all
  show "fst (preloadAuth_start normId params now s) = Miss"
    using assms(1) g r by (simp add: preloadAuth_start_def Let_def)
  show "resolverCalls (snd (preloadAuth_start normId params now s))
           = resolverCalls s @ [(pa_provider params, pa_profileId params)]"
    using assms(1) g r c by (simp add: preloadAuth_start_def Let_def)
qed

text \<open>
  Claim C8. For a call of \<^verbatim>\<open>preloadAuth\<close> without \<^verbatim>\<open>force\<close>: (1) a credential that
  comes from the cache is the credential of the key's entry, and \<open>now < expiresAt\<close> holds
  for that entry; (2) an entry with \<open>now < expiresAt\<close> is returned; (3) when the entry is
  absent or \<open>now \<ge> expiresAt\<close>, the resolver is called, and once it yields a
  credential the call stores an entry with \<open>expiresAt = resolvedAt + TTL\<close> under the key
  and returns the fresh credential (a rejection of the resolver is passed on); (4) the
  store after the \<^verbatim>\<open>await\<close> has this effect in whatever state the call resumes.
\<close>

theorem preloadAuth_cache_contract:
  "pa_force params \<noteq> Some True \<Longrightarrow>
   key = buildCacheKey normId (pa_provider params) (pa_profileId params) \<Longrightarrow>
     (\<forall>a s'. preloadAuth_start normId params now s = (Hit a, s') \<longrightarrow>
        (\<exists>entry. map_of (authCache s) key = Some entry \<and> auth entry = a \<and> now < expiresAt entry))
   \<and> (\<forall>entry. map_of (authCache s) key = Some entry \<and> now < expiresAt entry \<longrightarrow>
        fst (preloadAuth normId params now outcome resolvedNow s) = Inr (auth entry))
   \<and> (map_of (authCache s) key = None \<or>
        (\<exists>entry. map_of (authCache s) key = Some entry \<and> now \<ge> expiresAt entry) \<longrightarrow>
        fst (preloadAuth_start normId params now s) = Miss \<and>
        resolverCalls (snd (preloadAuth_start normId params now s))
          = resolverCalls s @ [(pa_provider params, pa_profileId params)] \<and>
        (\<forall>a. outcome = Inr a \<longrightarrow>
           fst (preloadAuth normId params now outcome resolvedNow s) = Inr a \<and>
           map_of (authCache (snd (preloadAuth normId params now outcome resolvedNow s))) key
             = Some \<lparr> auth = a, provider = pa_provider params, profileId = pa_profileId params,
                      resolvedAt = resolvedNow, expiresAt = resolvedNow + AUTH_CACHE_TTL_MS \<rparr>) \<and>
        (\<forall>err. outcome = Inl err \<longrightarrow>
           fst (preloadAuth normId params now outcome resolvedNow s) = Inl err))
   \<and> (\<forall>a s1. fst (preloadAuth_resume normId params (Inr a :: 'e + 'a) resolvedNow s1) = Inr a \<and>
        map_of (authCache (snd (preloadAuth_resume normId params (Inr a :: 'e + 'a) resolvedNow s1))) key
          = Some \<lparr> auth = a, provider = pa_provider params, profileId = pa_profileId params,
                   resolvedAt = resolvedNow, expiresAt = resolvedNow + AUTH_CACHE_TTL_MS \<rparr>)"
  for outcome :: "'e + 'a" and s :: "'a AuthState"
proof -
  assume f: "pa_force params \<noteq> Some True"
    and key: "key = buildCacheKey normId (pa_provider params) (pa_profileId params)"
  obtain l s1 where st: "preloadAuth_start normId params now s = (l, s1)"
    by (cases "preloadAuth_start normId params now s")
  have one: "\<forall>a s'. preloadAuth_start normId params now s = (Hit a, s') \<longrightarrow>
        (\<exists>entry. map_of (authCache s) key = Some entry \<and> auth entry = a \<and> now < expiresAt entry)"
  proof (intro allI impI)
    fix a s' assume h: "preloadAuth_start normId params now s = (Hit a, s')"
    show "\<exists>entry. map_of (authCache s) key = Some entry \<and> auth entry = a \<and> now < expiresAt entry"
      unfolding key by (rule preloadAuth_start_hit [OF f h])
  qed
  have two: "\<forall>entry. map_of (authCache s) key = Some entry \<and> now < expiresAt entry \<longrightarrow>
        fst (preloadAuth normId params now outcome resolvedNow s) = Inr (auth entry)"
  proof (intro allI impI)
    fix entry assume e: "map_of (authCache s) key = Some entry \<and> now < expiresAt entry"
    then have "l = Hit (auth entry)"
      using preloadAuth_start_fresh [OF f, of s normId entry now] st unfolding key by simp
    then show "fst (preloadAuth normId params now outcome resolvedNow s) = Inr (auth entry)"
      using st by (simp add: preloadAuth_def)
  qed
  have three: "map_of (authCache s) key = None \<or>
        (\<exists>entry. map_of (authCache s) key = Some entry \<and> now \<ge> expiresAt entry) \<longrightarrow>
        fst (preloadAuth_start normId params now s) = Miss \<and>
        resolverCalls (snd (preloadAuth_start normId params now s))
          = resolverCalls s @ [(pa_provider params, pa_profileId params)] \<and>
        (\<forall>a. outcome = Inr a \<longrightarrow>
           fst (preloadAuth normId params now outcome resolvedNow s) = Inr a \<and>
           map_of (authCache (snd (preloadAuth normId params now outcome resolvedNow s))) key
             = Some \<lparr> auth = a, provider = pa_provider params, profileId = pa_profileId params,
                      resolvedAt = resolvedNow, expiresAt = resolvedNow + AUTH_CACHE_TTL_MS \<rparr>) \<and>
        (\<forall>err. outcome = Inl err \<longrightarrow>
           fst (preloadAuth normId params now outcome resolvedNow s) = Inl err)"
  proof (intro impI)
    assume a: "map_of (authCache s) key = None \<or>
        (\<exists>entry. map_of (authCache s) key = Some entry \<and> now \<ge> expiresAt entry)"
    note m = preloadAuth_start_miss [OF f a [unfolded key]]
    have l: "l = Miss" using m(1) st by simp
    have pre: "preloadAuth normId params now outcome resolvedNow s
                 = preloadAuth_resume normId params outcome resolvedNow s1"
      using st l by (simp add: preloadAuth_def)
    have ok: "\<forall>a. outcome = Inr a \<longrightarrow>
           fst (preloadAuth normId params now outcome resolvedNow s) = Inr a \<and>
           map_of (authCache (snd (preloadAuth normId params now outcome resolvedNow s))) key
             = Some \<lparr> auth = a, provider = pa_provider params, profileId = pa_profileId params,
                      resolvedAt = resolvedNow, expiresAt = resolvedNow + AUTH_CACHE_TTL_MS \<rparr>"
      unfolding pre key using preloadAuth_resume_stores by auto
    have err: "\<forall>err. outcome = Inl err \<longrightarrow>
           fst (preloadAuth normId params now outcome resolvedNow s) = Inl err"
      unfolding pre by (simp add: preloadAuth_resume_def)
    show "fst (preloadAuth_start normId params now s) = Miss \<and>
        resolverCalls (snd (preloadAuth_start normId params now s))
          = resolverCalls s @ [(pa_provider params, pa_profileId params)] \<and>
        (\<forall>a. outcome = Inr a \<longrightarrow>
           fst (preloadAuth normId params now outcome resolvedNow s) = Inr a \<and>
           map_of (authCache (snd (preloadAuth normId params now outcome resolvedNow s))) key
             = Some \<lparr> auth = a, provider = pa_provider params, profileId = pa_profileId params,
                      resolvedAt = resolvedNow, expiresAt = resolvedNow + AUTH_CACHE_TTL_MS \<rparr>) \<and>
        (\<forall>err. outcome = Inl err \<longrightarrow>
           fst (preloadAuth normId params now outcome resolvedNow s) = Inl err)"
      using m ok err by blast
  qed
  have four: "\<forall>a s1. fst (preloadAuth_resume normId params (Inr a :: 'e + 'a) resolvedNow s1) = Inr a \<and>
        map_of (authCache (snd (preloadAuth_resume normId params (Inr a :: 'e + 'a) resolvedNow s1))) key
          = Some \<lparr> auth = a, provider = pa_provider params, profileId = pa_profileId params,
                   resolvedAt = resolvedNow, expiresAt = resolvedNow + AUTH_CACHE_TTL_MS \<rparr>"
    unfolding key using preloadAuth_resume_stores by auto
  show ?thesis using one two three four by blast
qed

definition exampleParams :: PreloadAuthParams where
  "exampleParams = \<lparr> pa_provider = ''openai'', pa_profileId = None, pa_force = None \<rparr>"

lemmas auth_eval = initialAuthState_def buildCacheKey_def evictOldest_def touchCacheEntry_def
  setCacheEntry_def getCacheEntry_def scheduleBackgroundRefresh_def getCachedAuth_def
  preloadAuth_start_def preloadAuth_resume_def preloadAuth_def exampleParams_def
  AUTH_CACHE_TTL_MS_def AUTH_CACHE_REFRESH_AHEAD_MS_def AUTH_CACHE_MAX_SIZE_def Let_def

theorem preloadAuth_cache_contract_witness:
  "pa_force exampleParams \<noteq> Some True
   \<and> map_of (authCache (initialAuthState :: string AuthState)) ''openai'' = None
   \<and> fst (preloadAuth (\<lambda>x. x) exampleParams 1000 (Inr ''sk-1'' :: string + string) 1010
             initialAuthState) = Inr ''sk-1''
   \<and> map_of (authCache (snd (preloadAuth (\<lambda>x. x) exampleParams 1000
                                (Inr ''sk-1'' :: string + string) 1010 initialAuthState))) ''openai''
       = Some \<lparr> auth = ''sk-1'', provider = ''openai'', profileId = None,
                resolvedAt = 1010, expiresAt = 301010 \<rparr>
   \<and> fst (preloadAuth (\<lambda>x. x) exampleParams 2000 (Inr ''sk-2'' :: string + string) 2010
            (snd (preloadAuth (\<lambda>x. x) exampleParams 1000 (Inr ''sk-1'' :: string + string) 1010
                    initialAuthState))) = Inr ''sk-1''"
proof -
  have f: "pa_force exampleParams \<noteq> Some True" by (simp add: exampleParams_def)
  have k: "''openai'' = buildCacheKey (\<lambda>x. x) (pa_provider exampleParams) (pa_profileId exampleParams)"
    by (simp add: buildCacheKey_def exampleParams_def)
  have n: "map_of (authCache (initialAuthState :: string AuthState)) ''openai'' = None"
    by (simp add: initialAuthState_def)
  note c1 = preloadAuth_cache_contract [OF f k, where now = 1000 and s = initialAuthState
      and outcome = "Inr ''sk-1'' :: string + string" and resolvedNow = 1010]
  have a: "fst (preloadAuth (\<lambda>x. x) exampleParams 1000 (Inr ''sk-1'' :: string + string) 1010
             initialAuthState) = Inr ''sk-1''"
    and b: "map_of (authCache (snd (preloadAuth (\<lambda>x. x) exampleParams 1000
                                (Inr ''sk-1'' :: string + string) 1010 initialAuthState))) ''openai''
       = Some \<lparr> auth = ''sk-1'', provider = ''openai'', profileId = None,
                resolvedAt = 1010, expiresAt = 301010 \<rparr>"
    using c1 n by (simp_all add: exampleParams_def AUTH_CACHE_TTL_MS_def)
  note c2 = preloadAuth_cache_contract [OF f k, where now = 2000
      and s = "snd (preloadAuth (\<lambda>x. x) exampleParams 1000 (Inr ''sk-1'' :: string + string) 1010
                    initialAuthState)"
      and outcome = "Inr ''sk-2'' :: string + string" and resolvedNow = 2010]
  have c: "fst (preloadAuth (\<lambda>x. x) exampleParams 2000 (Inr ''sk-2'' :: string + string) 2010
            (snd (preloadAuth (\<lambda>x. x) exampleParams 1000 (Inr ''sk-1'' :: string + string) 1010
                    initialAuthState))) = Inr ''sk-1''"
    using c2 b by simp
  show ?thesis using f n a b c by blast
qed

section \<open>Subagent registry (src/agents/subagent-registry.ts)\<close>

datatype Cleanup = CleanupDelete | CleanupKeep

text \<open>\<^verbatim>\<open>SubagentRunOutcome\<close>: status ok, error (with an optional message) or timeout.\<close>

datatype SubagentRunOutcome = OutcomeOk | OutcomeError "string option" | OutcomeTimeout

text \<open>
  A JavaScript number: a finite value, an infinity or \<^verbatim>\<open>NaN\<close>. The registry stores the
  numbers it finds in events as they are, and tests them for truthiness only.
\<close>

datatype JsNumber = Finite real | PosInfinity | NegInfinity | NaN

text \<open>The value \<^verbatim>\<open>Date.now()\<close> returns, a whole number of milliseconds, as a number.\<close>

definition clockValue :: "int \<Rightarrow> JsNumber" where
  "clockValue now = Finite (of_int now)"

text \<open>
  A run record. Times are JavaScript numbers (milliseconds); an optional field is an
  option. The fields \<^verbatim>\<open>createdAt\<close> and \<^verbatim>\<open>archiveAtMs\<close> only ever hold values computed
  from the clock and are integers. The delivery context \<^verbatim>\<open>requesterOrigin\<close> is opaque. The fields \<^verbatim>\<open>task\<close>,
  \<^verbatim>\<open>label\<close>, \<^verbatim>\<open>createdAt\<close> and \<^verbatim>\<open>startedAt\<close> carry the prefix \<open>sr_\<close>.
\<close>

record SubagentRunRecord =
  runId :: string
  childSessionKey :: string
  requesterSessionKey :: string
  requesterOrigin :: "string option"
  requesterDisplayKey :: string
  sr_task :: string
  cleanup :: Cleanup
  sr_label :: "string option"
  sr_createdAt :: int
  sr_startedAt :: "JsNumber option"
  endedAt :: "JsNumber option"
  outcome :: "SubagentRunOutcome option"
  archiveAtMs :: "int option"
  cleanupCompletedAt :: "JsNumber option"
  cleanupHandled :: "bool option"

text \<open>
  An agent event as the listener reads it: \<open>ev_startedAt\<close> and \<open>ev_endedAt\<close> are
  present when \<^verbatim>\<open>typeof\<close> gives \<^verbatim>\<open>"number"\<close>, \<open>ev_error\<close> when it gives \<^verbatim>\<open>"string"\<close>,
  and \<open>ev_aborted\<close> is the truthiness of \<^verbatim>\<open>data.aborted\<close>.
\<close>

record AgentEventData =
  ev_phase :: "string option"
  ev_startedAt :: "JsNumber option"
  ev_endedAt :: "JsNumber option"
  ev_error :: "string option"
  ev_aborted :: bool

record AgentEvent =
  ev_runId :: string
  ev_stream :: string
  ev_data :: "AgentEventData option"

text \<open>
  JavaScript truthiness of an optional number: present, and neither zero nor \<^verbatim>\<open>NaN\<close>.
\<close>

definition truthyNumber :: "JsNumber option \<Rightarrow> bool" where
  "truthyNumber n =
     (case n of
        None \<Rightarrow> False
      | Some (Finite t) \<Rightarrow> t \<noteq> 0
      | Some PosInfinity \<Rightarrow> True
      | Some NegInfinity \<Rightarrow> True
      | Some NaN \<Rightarrow> False)"

text \<open>
  The module state. \<^verbatim>\<open>subagentRuns\<close> is the Map from run ids to records, and
  \<^verbatim>\<open>completionWaiters\<close> the Map from run ids to the Set of waiter callbacks, in insertion
  order. Every call of \<^verbatim>\<open>waitForSubagentRun\<close> returns a promise, named by a number; for
  a call that registers a waiter the same number names its callback, its \<^verbatim>\<open>settled\<close>
  flag (\<open>settledWaiters\<close>), the run id its closure captured (\<open>waiterRunId\<close>) and its timer
  (\<open>waiterTimers\<close>, with the delay). The remaining fields record what the module did:
  \<open>resolved\<close> every call of a promise's resolver with its argument (\<open>None\<close> is
  \<^verbatim>\<open>null\<close>), \<open>endedAtAssignments\<close> every execution of \<^verbatim>\<open>entry.endedAt = endedAt\<close> with the
  run id and the value, \<open>completionEvents\<close> the \<^verbatim>\<open>subagent_complete\<close> events emitted, and
  \<open>announceFlows\<close> the announce flows started. Writing the registry to disk changes none of
  this and is left out.
\<close>

record RState =
  subagentRuns :: "(string \<times> SubagentRunRecord) list"
  listenerStarted :: bool
  completionWaiters :: "(string \<times> nat list) list"
  nextWaiter :: nat
  waiterRunId :: "nat \<rightharpoonup> string"
  settledWaiters :: "nat set"
  waiterTimers :: "(nat \<times> int) list"
  resolved :: "(nat \<times> SubagentRunRecord option) list"
  endedAtAssignments :: "(string \<times> JsNumber) list"
  completionEvents :: "SubagentRunRecord list"
  announceFlows :: "SubagentRunRecord list"

definition initialRState :: RState where
  "initialRState = \<lparr> subagentRuns = [], listenerStarted = False, completionWaiters = [],
                       nextWaiter = 0, waiterRunId = Map.empty, settledWaiters = {},
                       waiterTimers = [], resolved = [], endedAtAssignments = [],
                       completionEvents = [], announceFlows = [] \<rparr>"

text \<open>
  The closure \<^verbatim>\<open>finish\<close> of a waiter: guarded by \<^verbatim>\<open>settled\<close>, it clears the timer, takes
  the callback out of the Set of its run (dropping the Set when it becomes empty) and
  resolves the promise.
\<close>

definition finish :: "nat \<Rightarrow> SubagentRunRecord option \<Rightarrow> RState \<Rightarrow> RState" where
  "finish w record s =
     (if w \<in> settledWaiters s then s
      else
        (let s1 = s\<lparr> settledWaiters := insert w (settledWaiters s),
                      waiterTimers := AList.delete w (waiterTimers s) \<rparr>;
             s2 = (case waiterRunId s1 w of
                     None \<Rightarrow> s1
                   | Some r \<Rightarrow>
                       (case map_of (completionWaiters s1) r of
                          None \<Rightarrow> s1
                        | Some waiters \<Rightarrow>
                            (let waiters' = removeAll w waiters
                             in if length waiters' = 0
                                then s1\<lparr> completionWaiters := AList.delete r (completionWaiters s1) \<rparr>
                                else s1\<lparr> completionWaiters :=
                                           AList.update r waiters' (completionWaiters s1) \<rparr>)))
         in s2\<lparr> resolved := resolved s2 @ [(w, record)] \<rparr>))"

text \<open>
  \<^verbatim>\<open>notifyCompletionWaiters\<close> calls every waiter of the run with the record and drops the
  Set. A waiter removes only itself from the Set while the loop runs, so the loop visits
  the waiters present at its start, in insertion order.
\<close>

fun notifyLoop :: "nat list \<Rightarrow> SubagentRunRecord \<Rightarrow> RState \<Rightarrow> RState" where
  "notifyLoop [] record s = s"
| "notifyLoop (w # ws) record s = notifyLoop ws record (finish w (Some record) s)"

definition notifyCompletionWaiters :: "string \<Rightarrow> SubagentRunRecord \<Rightarrow> RState \<Rightarrow> RState" where
  "notifyCompletionWaiters r record s =
     (case map_of (completionWaiters s) r of
        None \<Rightarrow> s
      | Some waiters \<Rightarrow>
          if length waiters = 0 then s
          else (let s1 = notifyLoop waiters record s
                in s1\<lparr> completionWaiters := AList.delete r (completionWaiters s1) \<rparr>))"

definition beginSubagentCleanup :: "string \<Rightarrow> RState \<Rightarrow> bool \<times> RState" where
  "beginSubagentCleanup r s =
     (case map_of (subagentRuns s) r of
        None \<Rightarrow> (False, s)
      | Some entry \<Rightarrow>
          if truthyNumber (cleanupCompletedAt entry) then (False, s)
          else if cleanupHandled entry = Some True then (False, s)
          else (True, s\<lparr> subagentRuns :=
                            AList.update r (entry\<lparr> cleanupHandled := Some True \<rparr>) (subagentRuns s) \<rparr>))"

text \<open>
  The listener \<^verbatim>\<open>ensureListener\<close> installs, for an event delivered at clock value \<open>now\<close>.
  It writes to the record stored under the event's run id. Its part for the phases
  \<^verbatim>\<open>end\<close> and \<^verbatim>\<open>error\<close> is \<open>onRunEnded\<close>: the assignments of \<^verbatim>\<open>endedAt\<close> and
  \<^verbatim>\<open>outcome\<close>, the notification of the waiters, the \<^verbatim>\<open>subagent_complete\<close> event and the
  start of the announce flow unless cleanup has begun already. The event it emits comes
  back to this listener at once and is ignored there (its phase is neither start, end
  nor error), so emitting is recorded only.
\<close>

definition endedValue :: "AgentEvent \<Rightarrow> int \<Rightarrow> JsNumber" where
  "endedValue evt now =
     (case Option.bind (ev_data evt) ev_endedAt of Some t \<Rightarrow> t | None \<Rightarrow> clockValue now)"

definition eventOutcome :: "AgentEvent \<Rightarrow> SubagentRunOutcome" where
  "eventOutcome evt =
     (if Option.bind (ev_data evt) ev_phase = Some ''error''
      then OutcomeError (Option.bind (ev_data evt) ev_error)
      else if (case ev_data evt of None \<Rightarrow> False | Some d \<Rightarrow> ev_aborted d)
      then OutcomeTimeout
      else OutcomeOk)"

definition endedRecord :: "AgentEvent \<Rightarrow> int \<Rightarrow> SubagentRunRecord \<Rightarrow> SubagentRunRecord" where
  "endedRecord evt now entry =
     entry\<lparr> endedAt := Some (endedValue evt now), outcome := Some (eventOutcome evt) \<rparr>"

definition onRunEnded :: "AgentEvent \<Rightarrow> int \<Rightarrow> SubagentRunRecord \<Rightarrow> RState \<Rightarrow> RState" where
  "onRunEnded evt now entry s =
     (let entry1 = endedRecord evt now entry;
          s1 = s\<lparr> subagentRuns := AList.update (ev_runId evt) entry1 (subagentRuns s),
                 endedAtAssignments := endedAtAssignments s @ [(ev_runId evt, endedValue evt now)] \<rparr>;
          s2 = notifyCompletionWaiters (ev_runId evt) entry1 s1;
          s3 = s2\<lparr> completionEvents := completionEvents s2 @ [entry1] \<rparr>
      in case beginSubagentCleanup (ev_runId evt) s3 of
           (False, s4) \<Rightarrow> s4
         | (True, s4) \<Rightarrow>
             s4\<lparr> announceFlows := announceFlows s4 @ [entry1\<lparr> cleanupHandled := Some True \<rparr>] \<rparr>)"

definition onAgentEvent :: "AgentEvent \<Rightarrow> int \<Rightarrow> RState \<Rightarrow> RState" where
  "onAgentEvent evt now s =
     (if ev_stream evt \<noteq> ''lifecycle'' then s
      else
        (case map_of (subagentRuns s) (ev_runId evt) of
           None \<Rightarrow> s
         | Some entry \<Rightarrow>
             (let phase = Option.bind (ev_data evt) ev_phase
              in if phase = Some ''start'' then
                   (let startedAt = Option.bind (ev_data evt) ev_startedAt
                    in if truthyNumber startedAt
                       then s\<lparr> subagentRuns :=
                                 AList.update (ev_runId evt) (entry\<lparr> sr_startedAt := startedAt \<rparr>)
                                   (subagentRuns s) \<rparr>
                       else s)
                 else if phase \<noteq> Some ''end'' \<and> phase \<noteq> Some ''error'' then s
                 else onRunEnded evt now entry s)))"

definition finalizeSubagentCleanup :: "string \<Rightarrow> Cleanup \<Rightarrow> bool \<Rightarrow> int \<Rightarrow> RState \<Rightarrow> RState" where
  "finalizeSubagentCleanup r cl didAnnounce now s =
     (case map_of (subagentRuns s) r of
        None \<Rightarrow> s
      | Some entry \<Rightarrow>
          if \<not> didAnnounce
          then s\<lparr> subagentRuns :=
                    AList.update r (entry\<lparr> cleanupHandled := Some False \<rparr>) (subagentRuns s) \<rparr>
          else if cl = CleanupDelete
          then s\<lparr> subagentRuns := AList.delete r (subagentRuns s) \<rparr>
          else s\<lparr> subagentRuns :=
                    AList.update r (entry\<lparr> cleanupCompletedAt := Some (clockValue now) \<rparr>) (subagentRuns s) \<rparr>)"

record RegisterParams =
  rp_runId :: string
  rp_childSessionKey :: string
  rp_requesterSessionKey :: string
  rp_requesterOrigin :: "string option"
  rp_requesterDisplayKey :: string
  rp_task :: string
  rp_cleanup :: Cleanup
  rp_label :: "string option"

text \<open>
  \<^verbatim>\<open>registerSubagentRun\<close>; \<open>archiveAfterMs\<close> is what \<^verbatim>\<open>resolveArchiveAfterMs\<close> read from the
  configuration (\<open>None\<close> for \<^verbatim>\<open>undefined\<close>).
\<close>

definition registerSubagentRun :: "RegisterParams \<Rightarrow> int \<Rightarrow> int option \<Rightarrow> RState \<Rightarrow> RState" where
  "registerSubagentRun params now archiveAfterMs s =
     s\<lparr> subagentRuns :=
          AList.update (rp_runId params)
            \<lparr> runId = rp_runId params, childSessionKey = rp_childSessionKey params,
              requesterSessionKey = rp_requesterSessionKey params,
              requesterOrigin = rp_requesterOrigin params,
              requesterDisplayKey = rp_requesterDisplayKey params,
              sr_task = rp_task params, cleanup = rp_cleanup params, sr_label = rp_label params,
              sr_createdAt = now, sr_startedAt = Some (clockValue now), endedAt = None, outcome = None,
              archiveAtMs = (case archiveAfterMs of
                               None \<Rightarrow> None
                             | Some a \<Rightarrow> if a \<noteq> 0 then Some (now + a) else None),
              cleanupCompletedAt = None, cleanupHandled = Some False \<rparr>
            (subagentRuns s),
        listenerStarted := True \<rparr>"

text \<open>
  \<^verbatim>\<open>waitForSubagentRun\<close> returns the promise it hands out. \<^verbatim>\<open>entry?.endedAt\<close> tests
  truthiness. \<^verbatim>\<open>Promise.resolve(x)\<close> is a promise whose resolver has been called with
  \<open>x\<close>.
\<close>

definition waitForSubagentRun :: "string \<Rightarrow> int \<Rightarrow> RState \<Rightarrow> nat \<times> RState" where
  "waitForSubagentRun r timeoutMs s =
     (let p = nextWaiter s; s0 = s\<lparr> nextWaiter := p + 1 \<rparr>
      in case map_of (subagentRuns s0) r of
           None \<Rightarrow> (p, s0\<lparr> resolved := resolved s0 @ [(p, None)] \<rparr>)
         | Some entry \<Rightarrow>
             if truthyNumber (endedAt entry)
             then (p, s0\<lparr> resolved := resolved s0 @ [(p, Some entry)] \<rparr>)
             else
               (let waiters = (case map_of (completionWaiters s0) r of
                                 None \<Rightarrow> [] | Some ws \<Rightarrow> ws)
                in (p, s0\<lparr> waiterRunId := (waiterRunId s0)(p \<mapsto> r),
                           completionWaiters :=
                             AList.update r (if p \<in> set waiters then waiters else waiters @ [p])
                               (completionWaiters s0),
                           waiterTimers := AList.update p (max 1 timeoutMs) (waiterTimers s0) \<rparr>)))"

text \<open>The timer of a waiter fires: \<^verbatim>\<open>() => finish(null)\<close>, once, unless it was cleared.\<close>

definition waiterTimerFires :: "nat \<Rightarrow> RState \<Rightarrow> RState" where
  "waiterTimerFires w s =
     (case map_of (waiterTimers s) w of
        None \<Rightarrow> s
      | Some delay \<Rightarrow> finish w None (s\<lparr> waiterTimers := AList.delete w (waiterTimers s) \<rparr>))"

definition releaseSubagentRun :: "string \<Rightarrow> RState \<Rightarrow> RState" where
  "releaseSubagentRun r s = s\<lparr> subagentRuns := AList.delete r (subagentRuns s) \<rparr>"

definition getSubagentRun :: "string \<Rightarrow> RState \<Rightarrow> SubagentRunRecord option" where
  "getSubagentRun r s = map_of (subagentRuns s) r"

text \<open>
  The steps of the registry: calls of its functions, an event the bus delivers (only once
  the listener is installed), the firing of a waiter's timer, and the end of an announce
  flow.
\<close>

datatype RegistryOp =
    Register RegisterParams int "int option"
  | Deliver AgentEvent int
  | Wait string int
  | WaiterTimerFires nat
  | AnnounceDone string Cleanup bool int
  | Release string

fun execR :: "RegistryOp \<Rightarrow> RState \<Rightarrow> RState" where
  "execR (Register params now archiveAfterMs) s = registerSubagentRun params now archiveAfterMs s"
| "execR (Deliver evt now) s = (if listenerStarted s then onAgentEvent evt now s else s)"
| "execR (Wait r timeoutMs) s = snd (waitForSubagentRun r timeoutMs s)"
| "execR (WaiterTimerFires w) s = waiterTimerFires w s"
| "execR (AnnounceDone r cl didAnnounce now) s = finalizeSubagentCleanup r cl didAnnounce now s"
| "execR (Release r) s = releaseSubagentRun r s"

fun runR :: "RegistryOp list \<Rightarrow> RState \<Rightarrow> RState" where
  "runR [] s = s"
| "runR (op # ops) s = runR ops (execR op s)"


subsection \<open>Assignments of \<^verbatim>\<open>endedAt\<close>\<close>

text \<open>An event that takes the listener to \<^verbatim>\<open>entry.endedAt = endedAt\<close> when its run is known.\<close>

definition isEndOrError :: "AgentEvent \<Rightarrow> bool" where
  "isEndOrError evt =
     (ev_stream evt = ''lifecycle'' \<and>
      (Option.bind (ev_data evt) ev_phase = Some ''end'' \<or>
       Option.bind (ev_data evt) ev_phase = Some ''error''))"

text \<open>A sequence of events delivered to the listener, each with the clock value at delivery.\<close>

fun deliverAll :: "(AgentEvent \<times> int) list \<Rightarrow> RState \<Rightarrow> RState" where
  "deliverAll [] s = s"
| "deliverAll ((evt, now) # rest) s = deliverAll rest (onAgentEvent evt now s)"

definition assignmentsTo :: "string \<Rightarrow> RState \<Rightarrow> (string \<times> JsNumber) list" where
  "assignmentsTo r s = filter (\<lambda>(r', t). r' = r) (endedAtAssignments s)"

lemma finish_frame:
  "subagentRuns (finish w record s) = subagentRuns s"
  "endedAtAssignments (finish w record s) = endedAtAssignments s"
  "completionEvents (finish w record s) = completionEvents s"
  "announceFlows (finish w record s) = announceFlows s"
  "listenerStarted (finish w record s) = listenerStarted s"
  "nextWaiter (finish w record s) = nextWaiter s"
  "waiterRunId (finish w record s) = waiterRunId s"
  by (simp_all add: finish_def Let_def split: option.splits)

lemma notifyLoop_frame:
  "subagentRuns (notifyLoop ws record s) = subagentRuns s \<and>
   endedAtAssignments (notifyLoop ws record s) = endedAtAssignments s \<and>
   completionEvents (notifyLoop ws record s) = completionEvents s \<and>
   announceFlows (notifyLoop ws record s) = announceFlows s \<and>
   listenerStarted (notifyLoop ws record s) = listenerStarted s \<and>
   nextWaiter (notifyLoop ws record s) = nextWaiter s \<and>
   waiterRunId (notifyLoop ws record s) = waiterRunId s"
  by (induction ws arbitrary: s) (simp_all add: finish_frame)

lemma notifyCompletionWaiters_frame:
  "subagentRuns (notifyCompletionWaiters r record s) = subagentRuns s"
  "endedAtAssignments (notifyCompletionWaiters r record s) = endedAtAssignments s"
  "completionEvents (notifyCompletionWaiters r record s) = completionEvents s"
  "announceFlows (notifyCompletionWaiters r record s) = announceFlows s"
  "listenerStarted (notifyCompletionWaiters r record s) = listenerStarted s"
  "nextWaiter (notifyCompletionWaiters r record s) = nextWaiter s"
  "waiterRunId (notifyCompletionWaiters r record s) = waiterRunId s"
  by (simp_all add: notifyCompletionWaiters_def Let_def notifyLoop_frame split: option.splits)

lemma beginSubagentCleanup_frame:
  "endedAtAssignments (snd (beginSubagentCleanup r s)) = endedAtAssignments s"
  "map_of (subagentRuns s) r' \<noteq> None \<Longrightarrow> map_of (subagentRuns (snd (beginSubagentCleanup r s))) r' \<noteq> None"
  by (auto simp: beginSubagentCleanup_def update_conv split: option.splits)

lemma onRunEnded_assignments:
  "endedAtAssignments (onRunEnded evt now entry s)
     = endedAtAssignments s @ [(ev_runId evt, endedValue evt now)]"
proof -
  define s3 where "s3 = (notifyCompletionWaiters (ev_runId evt) (endedRecord evt now entry)
      (s\<lparr> subagentRuns := AList.update (ev_runId evt) (endedRecord evt now entry) (subagentRuns s),
          endedAtAssignments := endedAtAssignments s @ [(ev_runId evt, endedValue evt now)] \<rparr>))
      \<lparr> completionEvents := completionEvents (notifyCompletionWaiters (ev_runId evt) (endedRecord evt now entry)
      (s\<lparr> subagentRuns := AList.update (ev_runId evt) (endedRecord evt now entry) (subagentRuns s),
          endedAtAssignments := endedAtAssignments s @ [(ev_runId evt, endedValue evt now)] \<rparr>))
          @ [endedRecord evt now entry] \<rparr>"
  have e3: "endedAtAssignments s3 = endedAtAssignments s @ [(ev_runId evt, endedValue evt now)]"
    unfolding s3_def by (simp add: notifyCompletionWaiters_frame)
  obtain b s4 where bc: "beginSubagentCleanup (ev_runId evt) s3 = (b, s4)"
    by (cases "beginSubagentCleanup (ev_runId evt) s3")
  have e4: "endedAtAssignments s4 = endedAtAssignments s3"
    using beginSubagentCleanup_frame(1) [of "ev_runId evt" s3] bc by simp
  have "endedAtAssignments (onRunEnded evt now entry s) = endedAtAssignments s4"
    unfolding onRunEnded_def Let_def s3_def [symmetric] bc by (cases b) simp_all
  then show ?thesis using e3 e4 by simp
qed

lemma onRunEnded_registered:
  "map_of (subagentRuns (onRunEnded evt now entry s)) r \<noteq> None"
  if "map_of (subagentRuns s) r \<noteq> None"
proof -
  define s3 where "s3 = (notifyCompletionWaiters (ev_runId evt) (endedRecord evt now entry)
      (s\<lparr> subagentRuns := AList.update (ev_runId evt) (endedRecord evt now entry) (subagentRuns s),
          endedAtAssignments := endedAtAssignments s @ [(ev_runId evt, endedValue evt now)] \<rparr>))
      \<lparr> completionEvents := completionEvents (notifyCompletionWaiters (ev_runId evt) (endedRecord evt now entry)
      (s\<lparr> subagentRuns := AList.update (ev_runId evt) (endedRecord evt now entry) (subagentRuns s),
          endedAtAssignments := endedAtAssignments s @ [(ev_runId evt, endedValue evt now)] \<rparr>))
          @ [endedRecord evt now entry] \<rparr>"
  have r3: "map_of (subagentRuns s3) r \<noteq> None"
    unfolding s3_def using that by (simp add: notifyCompletionWaiters_frame update_conv)
  obtain b s4 where bc: "beginSubagentCleanup (ev_runId evt) s3 = (b, s4)"
    by (cases "beginSubagentCleanup (ev_runId evt) s3")
  have r4: "map_of (subagentRuns s4) r \<noteq> None"
    using beginSubagentCleanup_frame(2) [OF r3, of "ev_runId evt"] bc by simp
  have "subagentRuns (onRunEnded evt now entry s) = subagentRuns s4"
    unfolding onRunEnded_def Let_def s3_def [symmetric] bc by (cases b) simp_all
  then show ?thesis using r4 by simp
qed

lemma onAgentEvent_assignments:
  "endedAtAssignments (onAgentEvent evt now s) =
     endedAtAssignments s @
       (if isEndOrError evt \<and> map_of (subagentRuns s) (ev_runId evt) \<noteq> None
        then [(ev_runId evt, endedValue evt now)] else [])"
  by (auto simp: onAgentEvent_def isEndOrError_def Let_def onRunEnded_assignments
      split: option.splits)

lemma onAgentEvent_registered:
  "map_of (subagentRuns s) r \<noteq> None \<Longrightarrow> map_of (subagentRuns (onAgentEvent evt now s)) r \<noteq> None"
  using onRunEnded_registered
  by (auto simp: onAgentEvent_def Let_def update_conv split: option.splits)

lemma deliverAll_assignments:
  "map_of (subagentRuns s) r \<noteq> None \<Longrightarrow>
     length (assignmentsTo r (deliverAll evs s))
       = length (assignmentsTo r s)
         + length (filter (\<lambda>(evt, now). isEndOrError evt \<and> ev_runId evt = r) evs)"
proof (induction evs arbitrary: s)
  case Nil
  then show ?case by simp
next
  case (Cons a evs)
  obtain evt now where a: "a = (evt, now)" by (cases a)
  have reg: "map_of (subagentRuns (onAgentEvent evt now s)) r \<noteq> None"
    using onAgentEvent_registered [OF Cons.prems] .
  have step: "length (assignmentsTo r (onAgentEvent evt now s))
       = length (assignmentsTo r s) + (if isEndOrError evt \<and> ev_runId evt = r then 1 else 0)"
    unfolding assignmentsTo_def onAgentEvent_assignments using Cons.prems by auto
  show ?case using Cons.IH [OF reg] step a by simp
qed


lemma beginSubagentCleanup_endedAt:
  "Option.bind (map_of (subagentRuns (snd (beginSubagentCleanup r s))) r') endedAt
     = Option.bind (map_of (subagentRuns s) r') endedAt"
  by (auto simp: beginSubagentCleanup_def update_conv split: option.splits)

lemma onRunEnded_endedAt:
  "Option.bind (map_of (subagentRuns (onRunEnded evt now entry s)) (ev_runId evt)) endedAt
     = Some (endedValue evt now)"
proof -
  define s3 where "s3 = (notifyCompletionWaiters (ev_runId evt) (endedRecord evt now entry)
      (s\<lparr> subagentRuns := AList.update (ev_runId evt) (endedRecord evt now entry) (subagentRuns s),
          endedAtAssignments := endedAtAssignments s @ [(ev_runId evt, endedValue evt now)] \<rparr>))
      \<lparr> completionEvents := completionEvents (notifyCompletionWaiters (ev_runId evt) (endedRecord evt now entry)
      (s\<lparr> subagentRuns := AList.update (ev_runId evt) (endedRecord evt now entry) (subagentRuns s),
          endedAtAssignments := endedAtAssignments s @ [(ev_runId evt, endedValue evt now)] \<rparr>))
          @ [endedRecord evt now entry] \<rparr>"
  have r3: "Option.bind (map_of (subagentRuns s3) (ev_runId evt)) endedAt = Some (endedValue evt now)"
    unfolding s3_def by (simp add: notifyCompletionWaiters_frame update_conv endedRecord_def)
  obtain b s4 where bc: "beginSubagentCleanup (ev_runId evt) s3 = (b, s4)"
    by (cases "beginSubagentCleanup (ev_runId evt) s3")
  have r4: "Option.bind (map_of (subagentRuns s4) (ev_runId evt)) endedAt = Some (endedValue evt now)"
    using beginSubagentCleanup_endedAt [of "ev_runId evt" s3 "ev_runId evt"] bc r3 by simp
  have "subagentRuns (onRunEnded evt now entry s) = subagentRuns s4"
    unfolding onRunEnded_def Let_def s3_def [symmetric] bc by (cases b) simp_all
  then show ?thesis using r4 by simp
qed

lemma onAgentEvent_endedAt:
  assumes "isEndOrError evt" "map_of (subagentRuns s) (ev_runId evt) \<noteq> None"
  shows "Option.bind (map_of (subagentRuns (onAgentEvent evt now s)) (ev_runId evt)) endedAt
           = Some (endedValue evt now)"
  using assms onRunEnded_endedAt
  by (auto simp: onAgentEvent_def isEndOrError_def Let_def split: option.splits)

text \<open>
  Claim C3 (amended). While a run is registered, the listener assigns \<^verbatim>\<open>endedAt\<close> once
  for every lifecycle event of phase \<^verbatim>\<open>end\<close> or \<^verbatim>\<open>error\<close> delivered for it: after a
  sequence of events the number of assignments has grown by the number of such events,
  and each of them leaves its own value in the field. So \<^verbatim>\<open>endedAt\<close> is assigned at most
  once exactly when at most one end or error event is delivered for the run; a duplicate
  assigns it again.
\<close>

theorem endedAt_assigned_per_end_event:
  "map_of (subagentRuns s) r \<noteq> None \<Longrightarrow>
     length (assignmentsTo r (deliverAll evs s))
       = length (assignmentsTo r s)
         + length (filter (\<lambda>(evt, now). isEndOrError evt \<and> ev_runId evt = r) evs)
   \<and> (length (filter (\<lambda>(evt, now). isEndOrError evt \<and> ev_runId evt = r) evs) \<le> 1 \<longrightarrow>
        length (assignmentsTo r (deliverAll evs s)) \<le> length (assignmentsTo r s) + 1)
   \<and> (\<forall>evt now. isEndOrError evt \<and> ev_runId evt = r \<longrightarrow>
        Option.bind (map_of (subagentRuns (onAgentEvent evt now s)) r) endedAt
          = Some (endedValue evt now))"
proof -
  assume reg: "map_of (subagentRuns s) r \<noteq> None"
  note a = deliverAll_assignments [OF reg, of evs]
  have c: "\<forall>evt now. isEndOrError evt \<and> ev_runId evt = r \<longrightarrow>
        Option.bind (map_of (subagentRuns (onAgentEvent evt now s)) r) endedAt
          = Some (endedValue evt now)"
    using onAgentEvent_endedAt reg by blast
  show ?thesis using a c by simp
qed

text \<open>A run and two lifecycle events for the concrete cases.\<close>

definition exampleRun :: "string \<Rightarrow> RegisterParams" where
  "exampleRun r = \<lparr> rp_runId = r, rp_childSessionKey = ''agent:main:subagent:child'',
                    rp_requesterSessionKey = ''agent:main:main'', rp_requesterOrigin = None,
                    rp_requesterDisplayKey = ''main'', rp_task = ''Test task'',
                    rp_cleanup = CleanupKeep, rp_label = None \<rparr>"

definition endEvent :: "string \<Rightarrow> real \<Rightarrow> AgentEvent" where
  "endEvent r t = \<lparr> ev_runId = r, ev_stream = ''lifecycle'',
                    ev_data = Some \<lparr> ev_phase = Some ''end'', ev_startedAt = None,
                                     ev_endedAt = Some (Finite t), ev_error = None, ev_aborted = False \<rparr> \<rparr>"

definition startEvent :: "string \<Rightarrow> real \<Rightarrow> AgentEvent" where
  "startEvent r t = \<lparr> ev_runId = r, ev_stream = ''lifecycle'',
                      ev_data = Some \<lparr> ev_phase = Some ''start'', ev_startedAt = Some (Finite t),
                                       ev_endedAt = None, ev_error = None, ev_aborted = False \<rparr> \<rparr>"

lemmas registry_eval = initialRState_def registerSubagentRun_def onAgentEvent_def onRunEnded_def
  endedRecord_def endedValue_def eventOutcome_def notifyCompletionWaiters_def
  beginSubagentCleanup_def finish_def waitForSubagentRun_def waiterTimerFires_def
  finalizeSubagentCleanup_def releaseSubagentRun_def getSubagentRun_def truthyNumber_def
  exampleRun_def endEvent_def startEvent_def isEndOrError_def assignmentsTo_def Let_def
  clockValue_def

theorem endedAt_assigned_per_end_event_witness:
  "map_of (subagentRuns (registerSubagentRun (exampleRun ''run-1'') 10 None initialRState)) ''run-1''
     \<noteq> None
   \<and> length (assignmentsTo ''run-1''
        (deliverAll [(startEvent ''run-1'' 20, 21), (endEvent ''run-1'' 100, 101),
                     (endEvent ''run-2'' 150, 151)]
           (registerSubagentRun (exampleRun ''run-1'') 10 None initialRState))) = 1"
proof -
  have h: "map_of (subagentRuns (registerSubagentRun (exampleRun ''run-1'') 10 None initialRState))
             ''run-1'' \<noteq> None"
    by (simp add: registry_eval)
  show ?thesis
    using h endedAt_assigned_per_end_event [OF h, of
        "[(startEvent ''run-1'' 20, 21), (endEvent ''run-1'' 100, 101),
          (endEvent ''run-2'' 150, 151)]"]
    by (simp add: registry_eval)
qed

text \<open>
  Claim C3 as stated fails: two end events for the same registered run assign \<^verbatim>\<open>endedAt\<close>
  in two steps, first to 100 and then to 200.
\<close>

theorem endedAt_assigned_twice_counterexample:
  "assignmentsTo ''run-1''
      (deliverAll [(endEvent ''run-1'' 100, 101), (endEvent ''run-1'' 200, 201)]
         (registerSubagentRun (exampleRun ''run-1'') 10 None initialRState))
     = [(''run-1'', Finite 100), (''run-1'', Finite 200)]
   \<and> Option.bind (getSubagentRun ''run-1''
        (deliverAll [(endEvent ''run-1'' 100, 101)]
           (registerSubagentRun (exampleRun ''run-1'') 10 None initialRState))) endedAt = Some (Finite 100)
   \<and> Option.bind (getSubagentRun ''run-1''
        (deliverAll [(endEvent ''run-1'' 100, 101), (endEvent ''run-1'' 200, 201)]
           (registerSubagentRun (exampleRun ''run-1'') 10 None initialRState))) endedAt = Some (Finite 200)"
  by (simp add: registry_eval)

subsection \<open>Waiters\<close>

text \<open>
  The waiters registered for a run, in registration order; a waiter is pending while its
  \<^verbatim>\<open>settled\<close> flag is unset.
\<close>

definition waitersOf :: "string \<Rightarrow> RState \<Rightarrow> nat list" where
  "waitersOf r s = (case map_of (completionWaiters s) r of None \<Rightarrow> [] | Some ws \<Rightarrow> ws)"

definition pendingWaiter :: "nat \<Rightarrow> RState \<Rightarrow> bool" where
  "pendingWaiter w s = (waiterRunId s w \<noteq> None \<and> w \<notin> settledWaiters s)"

text \<open>
  The invariant of the waiter bookkeeping: no promise is resolved twice; a resolved
  promise has been handed out, and if it belongs to a waiter the waiter is settled; a
  settled waiter is resolved; a pending waiter has its timer armed and stands in the Set
  of its run; the Sets hold pending waiters of their own run, each once; timers belong to
  pending waiters.
\<close>

definition RInv :: "RState \<Rightarrow> bool" where
  "RInv s =
     (distinct (map fst (completionWaiters s)) \<and>
      distinct (map fst (resolved s)) \<and>
      (\<forall>p \<in> fst ` set (resolved s).
          p < nextWaiter s \<and> (waiterRunId s p \<noteq> None \<longrightarrow> p \<in> settledWaiters s)) \<and>
      (\<forall>w \<in> settledWaiters s. w \<in> fst ` set (resolved s)) \<and>
      (\<forall>w r. waiterRunId s w = Some r \<longrightarrow>
          w < nextWaiter s \<and>
          (w \<notin> settledWaiters s \<longrightarrow> map_of (waiterTimers s) w \<noteq> None \<and> w \<in> set (waitersOf r s))) \<and>
      (\<forall>r w. w \<in> set (waitersOf r s) \<longrightarrow> waiterRunId s w = Some r \<and> w \<notin> settledWaiters s) \<and>
      (\<forall>r. distinct (waitersOf r s)) \<and>
      (\<forall>w. map_of (waiterTimers s) w \<noteq> None \<longrightarrow> pendingWaiter w s))"

lemma RInv_D:
  assumes "RInv s"
  shows "distinct (map fst (completionWaiters s))"
    and "distinct (map fst (resolved s))"
    and "\<And>p. p \<in> fst ` set (resolved s) \<Longrightarrow> p < nextWaiter s"
    and "\<And>p. p \<in> fst ` set (resolved s) \<Longrightarrow> waiterRunId s p \<noteq> None \<Longrightarrow> p \<in> settledWaiters s"
    and "\<And>w. w \<in> settledWaiters s \<Longrightarrow> w \<in> fst ` set (resolved s)"
    and "\<And>w r. waiterRunId s w = Some r \<Longrightarrow> w < nextWaiter s"
    and "\<And>w r. waiterRunId s w = Some r \<Longrightarrow> w \<notin> settledWaiters s \<Longrightarrow> map_of (waiterTimers s) w \<noteq> None"
    and "\<And>w r. waiterRunId s w = Some r \<Longrightarrow> w \<notin> settledWaiters s \<Longrightarrow> w \<in> set (waitersOf r s)"
    and "\<And>r w. w \<in> set (waitersOf r s) \<Longrightarrow> waiterRunId s w = Some r"
    and "\<And>r w. w \<in> set (waitersOf r s) \<Longrightarrow> w \<notin> settledWaiters s"
    and "\<And>r. distinct (waitersOf r s)"
    and "\<And>w. map_of (waiterTimers s) w \<noteq> None \<Longrightarrow> pendingWaiter w s"
proof -
  note r1 = assms [unfolded RInv_def]
  note c1 = r1 [THEN conjunct1] and r2 = r1 [THEN conjunct2]
  note c2 = r2 [THEN conjunct1] and r3 = r2 [THEN conjunct2]
  note c3 = r3 [THEN conjunct1] and r4 = r3 [THEN conjunct2]
  note c4 = r4 [THEN conjunct1] and r5 = r4 [THEN conjunct2]
  note c5 = r5 [THEN conjunct1] and r6 = r5 [THEN conjunct2]
  note c6 = r6 [THEN conjunct1] and r7 = r6 [THEN conjunct2]
  note c7 = r7 [THEN conjunct1] and c8 = r7 [THEN conjunct2]
  show "distinct (map fst (completionWaiters s))" by (rule c1)
  show "distinct (map fst (resolved s))" by (rule c2)
  show "\<And>p. p \<in> fst ` set (resolved s) \<Longrightarrow> p < nextWaiter s" using c3 by blast
  show "\<And>p. p \<in> fst ` set (resolved s) \<Longrightarrow> waiterRunId s p \<noteq> None \<Longrightarrow> p \<in> settledWaiters s"
    using c3 by blast
  show "\<And>w. w \<in> settledWaiters s \<Longrightarrow> w \<in> fst ` set (resolved s)" using c4 by blast
  show "\<And>w r. waiterRunId s w = Some r \<Longrightarrow> w < nextWaiter s" using c5 by blast
  show "\<And>w r. waiterRunId s w = Some r \<Longrightarrow> w \<notin> settledWaiters s \<Longrightarrow> map_of (waiterTimers s) w \<noteq> None"
    using c5 by blast
  show "\<And>w r. waiterRunId s w = Some r \<Longrightarrow> w \<notin> settledWaiters s \<Longrightarrow> w \<in> set (waitersOf r s)"
    using c5 by blast
  show "\<And>r w. w \<in> set (waitersOf r s) \<Longrightarrow> waiterRunId s w = Some r" using c6 by blast
  show "\<And>r w. w \<in> set (waitersOf r s) \<Longrightarrow> w \<notin> settledWaiters s" using c6 by blast
  show "\<And>r. distinct (waitersOf r s)" using c7 by blast
  show "\<And>w. map_of (waiterTimers s) w \<noteq> None \<Longrightarrow> pendingWaiter w s" using c8 by blast
qed

lemma RInv_I:
  assumes "distinct (map fst (completionWaiters s))"
    and "distinct (map fst (resolved s))"
    and "\<And>p. p \<in> fst ` set (resolved s) \<Longrightarrow> p < nextWaiter s"
    and "\<And>p. p \<in> fst ` set (resolved s) \<Longrightarrow> waiterRunId s p \<noteq> None \<Longrightarrow> p \<in> settledWaiters s"
    and "\<And>w. w \<in> settledWaiters s \<Longrightarrow> w \<in> fst ` set (resolved s)"
    and "\<And>w r. waiterRunId s w = Some r \<Longrightarrow> w < nextWaiter s"
    and "\<And>w r. waiterRunId s w = Some r \<Longrightarrow> w \<notin> settledWaiters s \<Longrightarrow> map_of (waiterTimers s) w \<noteq> None"
    and "\<And>w r. waiterRunId s w = Some r \<Longrightarrow> w \<notin> settledWaiters s \<Longrightarrow> w \<in> set (waitersOf r s)"
    and "\<And>r w. w \<in> set (waitersOf r s) \<Longrightarrow> waiterRunId s w = Some r"
    and "\<And>r w. w \<in> set (waitersOf r s) \<Longrightarrow> w \<notin> settledWaiters s"
    and "\<And>r. distinct (waitersOf r s)"
    and "\<And>w. map_of (waiterTimers s) w \<noteq> None \<Longrightarrow> pendingWaiter w s"
  shows "RInv s"
  unfolding RInv_def
proof (intro conjI)
  show "distinct (map fst (completionWaiters s))" by (rule assms(1))
  show "distinct (map fst (resolved s))" by (rule assms(2))
  show "\<forall>p \<in> fst ` set (resolved s).
          p < nextWaiter s \<and> (waiterRunId s p \<noteq> None \<longrightarrow> p \<in> settledWaiters s)"
    using assms(3,4) by blast
  show "\<forall>w \<in> settledWaiters s. w \<in> fst ` set (resolved s)" using assms(5) by blast
  show "\<forall>w r. waiterRunId s w = Some r \<longrightarrow>
          w < nextWaiter s \<and>
          (w \<notin> settledWaiters s \<longrightarrow> map_of (waiterTimers s) w \<noteq> None \<and> w \<in> set (waitersOf r s))"
    using assms(6,7,8) by blast
  show "\<forall>r w. w \<in> set (waitersOf r s) \<longrightarrow> waiterRunId s w = Some r \<and> w \<notin> settledWaiters s"
    using assms(9,10) by blast
  show "\<forall>r. distinct (waitersOf r s)" using assms(11) by blast
  show "\<forall>w. map_of (waiterTimers s) w \<noteq> None \<longrightarrow> pendingWaiter w s" using assms(12) by blast
qed

lemma waitersOf_update:
  "completionWaiters s' = AList.update r ws (completionWaiters s) \<Longrightarrow>
     waitersOf r' s' = (if r' = r then ws else waitersOf r' s)"
  by (simp add: waitersOf_def update_conv)

lemma waitersOf_delete:
  "completionWaiters s' = AList.delete r (completionWaiters s) \<Longrightarrow>
     waitersOf r' s' = (if r' = r then [] else waitersOf r' s)"
  by (simp add: waitersOf_def delete_conv)

lemma finish_settled: "w \<in> settledWaiters s \<Longrightarrow> finish w rcd s = s"
  by (simp add: finish_def)

lemma finish_pending:
  assumes "RInv s" "waiterRunId s w = Some r" "w \<notin> settledWaiters s"
  shows "resolved (finish w rcd s) = resolved s @ [(w, rcd)]"
    and "settledWaiters (finish w rcd s) = insert w (settledWaiters s)"
    and "waiterTimers (finish w rcd s) = AList.delete w (waiterTimers s)"
    and "waitersOf r' (finish w rcd s) = (if r' = r then removeAll w (waitersOf r s) else waitersOf r' s)"
    and "distinct (map fst (completionWaiters (finish w rcd s)))"
proof -
  note I = RInv_D [OF assms(1)]
  have mem: "w \<in> set (waitersOf r s)" using I(8) assms(2,3) by blast
  then obtain ws where ws: "map_of (completionWaiters s) r = Some ws"
    by (cases "map_of (completionWaiters s) r") (auto simp: waitersOf_def)
  have wo: "waitersOf r s = ws" using ws by (simp add: waitersOf_def)
  define cw' where "cw' = (if length (removeAll w ws) = 0
      then AList.delete r (completionWaiters s)
      else AList.update r (removeAll w ws) (completionWaiters s))"
  have eq: "finish w rcd s =
      s\<lparr> settledWaiters := insert w (settledWaiters s),
          waiterTimers := AList.delete w (waiterTimers s),
          completionWaiters := cw',
          resolved := resolved s @ [(w, rcd)] \<rparr>"
    using assms(2,3) ws unfolding finish_def Let_def cw'_def by simp
  show "resolved (finish w rcd s) = resolved s @ [(w, rcd)]" unfolding eq by simp
  show "settledWaiters (finish w rcd s) = insert w (settledWaiters s)" unfolding eq by simp
  show "waiterTimers (finish w rcd s) = AList.delete w (waiterTimers s)" unfolding eq by simp
  have c: "completionWaiters (finish w rcd s) = cw'" unfolding eq by simp
  show "waitersOf r' (finish w rcd s) = (if r' = r then removeAll w (waitersOf r s) else waitersOf r' s)"
  proof (cases "length (removeAll w ws) = 0")
    case True
    then have "completionWaiters (finish w rcd s) = AList.delete r (completionWaiters s)"
      using c by (simp add: cw'_def)
    from waitersOf_delete [OF this, of r'] True show ?thesis unfolding wo by simp
  next
    case False
    then have "completionWaiters (finish w rcd s) = AList.update r (removeAll w ws) (completionWaiters s)"
      using c by (simp add: cw'_def)
    from waitersOf_update [OF this, of r'] show ?thesis unfolding wo by simp
  qed
  show "distinct (map fst (completionWaiters (finish w rcd s)))"
    unfolding c cw'_def using I(1) by (simp add: distinct_update distinct_delete)
qed


lemma fst_set_append1: "fst ` set (xs @ [(a, b)]) = insert a (fst ` set xs)"
  by auto

lemma finish_RInv:
  assumes "RInv s" "waiterRunId s w = Some r" "w \<notin> settledWaiters s"
  shows "RInv (finish w rcd s)"
proof -
  note I = RInv_D [OF assms(1)]
  note f = finish_pending [OF assms, where rcd = rcd] and fr = finish_frame [of w rcd s]
  let ?s = "finish w rcd s"
  have nres: "w \<notin> fst ` set (resolved s)" using I(4) assms(2,3) by auto
  show ?thesis
  proof (rule RInv_I)
    show "distinct (map fst (completionWaiters ?s))" by (rule f(5))
    show "distinct (map fst (resolved ?s))"
      unfolding f(1) using I(2) nres by (simp add: image_iff)
    show "\<And>p. p \<in> fst ` set (resolved ?s) \<Longrightarrow> p < nextWaiter ?s"
      unfolding f(1) fr(6) fst_set_append1 using I(3) I(6) [OF assms(2)] by auto
    show "\<And>p. p \<in> fst ` set (resolved ?s) \<Longrightarrow> waiterRunId ?s p \<noteq> None \<Longrightarrow> p \<in> settledWaiters ?s"
      unfolding f(1) f(2) fr(7) fst_set_append1 using I(4) by auto
    show "\<And>w'. w' \<in> settledWaiters ?s \<Longrightarrow> w' \<in> fst ` set (resolved ?s)"
      unfolding f(1) f(2) fst_set_append1 using I(5) by auto
    show "\<And>w' r'. waiterRunId ?s w' = Some r' \<Longrightarrow> w' < nextWaiter ?s"
      unfolding fr(6) fr(7) using I(6) by blast
    show "\<And>w' r'. waiterRunId ?s w' = Some r' \<Longrightarrow> w' \<notin> settledWaiters ?s \<Longrightarrow>
            map_of (waiterTimers ?s) w' \<noteq> None"
      unfolding fr(7) f(2) f(3) using I(7) by (auto simp: delete_conv)
    show "\<And>w' r'. waiterRunId ?s w' = Some r' \<Longrightarrow> w' \<notin> settledWaiters ?s \<Longrightarrow>
            w' \<in> set (waitersOf r' ?s)"
      unfolding fr(7) f(2) f(4) using I(8) by auto
    show "\<And>r' w'. w' \<in> set (waitersOf r' ?s) \<Longrightarrow> waiterRunId ?s w' = Some r'"
      unfolding fr(7) f(4) using I(9) by (auto split: if_splits)
    show "\<And>r' w'. w' \<in> set (waitersOf r' ?s) \<Longrightarrow> w' \<notin> settledWaiters ?s"
      unfolding f(2) f(4) using I(10) I(9) assms(2) by (auto split: if_splits)
    show "\<And>r'. distinct (waitersOf r' ?s)"
      unfolding f(4) using I(11) by (auto simp: distinct_removeAll)
    show "\<And>w'. map_of (waiterTimers ?s) w' \<noteq> None \<Longrightarrow> pendingWaiter w' ?s"
      unfolding pendingWaiter_def fr(7) f(2) f(3)
      using I(12) by (auto simp: delete_conv pendingWaiter_def split: if_splits)
  qed
qed

lemma notifyLoop_effect:
  "RInv s \<Longrightarrow> set ws \<subseteq> set (waitersOf r s) \<Longrightarrow> distinct ws \<Longrightarrow>
     RInv (notifyLoop ws rcd s) \<and>
     resolved (notifyLoop ws rcd s) = resolved s @ map (\<lambda>w. (w, Some rcd)) ws \<and>
     (\<forall>r'. waitersOf r' (notifyLoop ws rcd s)
            = (if r' = r then filter (\<lambda>w. w \<notin> set ws) (waitersOf r s) else waitersOf r' s))"
proof (induction ws arbitrary: s)
  case Nil
  then show ?case by simp
next
  case (Cons w ws)
  note I = RInv_D [OF Cons.prems(1)]
  have mem: "w \<in> set (waitersOf r s)" using Cons.prems(2) by simp
  have run: "waiterRunId s w = Some r" and uns: "w \<notin> settledWaiters s"
    using I(9) [OF mem] I(10) [OF mem] by simp_all
  note f = finish_pending [OF Cons.prems(1) run uns, where rcd = "Some rcd"]
  have inv1: "RInv (finish w (Some rcd) s)" by (rule finish_RInv [OF Cons.prems(1) run uns])
  have wnot: "w \<notin> set ws" and dws: "distinct ws" using Cons.prems(3) by simp_all
  have sub: "set ws \<subseteq> set (waitersOf r (finish w (Some rcd) s))"
    unfolding f(4) using Cons.prems(2) wnot by auto
  note IH = Cons.IH [OF inv1 sub dws]
  have flt: "filter (\<lambda>w'. w' \<notin> set ws) (removeAll w (waitersOf r s))
             = filter (\<lambda>w'. w' \<notin> set (w # ws)) (waitersOf r s)"
    unfolding removeAll_filter_not_eq filter_filter by (rule filter_cong) auto
  show ?case
    using IH unfolding f(1) f(4) flt [symmetric] by simp
qed

text \<open>The fields the waiter bookkeeping consists of.\<close>

definition waiterPart ::
  "RState \<Rightarrow> (string \<times> nat list) list \<times> nat \<times> (nat \<rightharpoonup> string) \<times> nat set \<times> (nat \<times> int) list
             \<times> (nat \<times> SubagentRunRecord option) list" where
  "waiterPart s = (completionWaiters s, nextWaiter s, waiterRunId s, settledWaiters s,
                   waiterTimers s, resolved s)"

lemma waiterPart_RInv: "waiterPart s' = waiterPart s \<Longrightarrow> RInv s' = RInv s"
  by (simp add: waiterPart_def RInv_def waitersOf_def pendingWaiter_def)

lemma waiterPart_waitersOf: "waiterPart s' = waiterPart s \<Longrightarrow> waitersOf r s' = waitersOf r s"
  by (simp add: waiterPart_def waitersOf_def)

lemma waiterPart_resolved: "waiterPart s' = waiterPart s \<Longrightarrow> resolved s' = resolved s"
  by (simp add: waiterPart_def)

lemma RInv_drop_empty:
  assumes "RInv s" "waitersOf r s = []"
  shows "RInv (s\<lparr> completionWaiters := AList.delete r (completionWaiters s) \<rparr>)"
    and "waitersOf r' (s\<lparr> completionWaiters := AList.delete r (completionWaiters s) \<rparr>) = waitersOf r' s"
proof -
  let ?s = "s\<lparr> completionWaiters := AList.delete r (completionWaiters s) \<rparr>"
  have w: "waitersOf r' ?s = waitersOf r' s" for r'
    using waitersOf_delete [of ?s r s r'] assms(2) by simp
  show "waitersOf r' ?s = waitersOf r' s" by (rule w)
  have d: "distinct (map fst (completionWaiters ?s))"
    using RInv_D(1) [OF assms(1)] by (simp add: distinct_delete)
  have "RInv ?s = RInv s"
    unfolding RInv_def w pendingWaiter_def using d RInv_D(1) [OF assms(1)] by simp
  then show "RInv ?s" using assms(1) by simp
qed

lemma notifyCompletionWaiters_effect:
  assumes "RInv s"
  shows "RInv (notifyCompletionWaiters r rcd s)"
    and "resolved (notifyCompletionWaiters r rcd s)
           = resolved s @ map (\<lambda>w. (w, Some rcd)) (waitersOf r s)"
    and "waitersOf r' (notifyCompletionWaiters r rcd s) = (if r' = r then [] else waitersOf r' s)"
proof -
  have all: "RInv (notifyCompletionWaiters r rcd s) \<and>
      resolved (notifyCompletionWaiters r rcd s)
           = resolved s @ map (\<lambda>w. (w, Some rcd)) (waitersOf r s) \<and>
      (\<forall>r'. waitersOf r' (notifyCompletionWaiters r rcd s) = (if r' = r then [] else waitersOf r' s))"
  proof (cases "map_of (completionWaiters s) r")
    case None
    then have "notifyCompletionWaiters r rcd s = s" "waitersOf r s = []"
      by (simp_all add: notifyCompletionWaiters_def waitersOf_def)
    then show ?thesis using assms by auto
  next
    case (Some ws)
    then have wo: "waitersOf r s = ws" by (simp add: waitersOf_def)
    show ?thesis
    proof (cases "length ws = 0")
      case True
      then have "notifyCompletionWaiters r rcd s = s"
        using Some by (simp add: notifyCompletionWaiters_def)
      then show ?thesis using assms wo True by auto
    next
      case False
      define s1 where "s1 = notifyLoop ws rcd s"
      have eq: "notifyCompletionWaiters r rcd s
                  = s1\<lparr> completionWaiters := AList.delete r (completionWaiters s1) \<rparr>"
        using Some False by (simp add: notifyCompletionWaiters_def s1_def Let_def)
      have sub: "set ws \<subseteq> set (waitersOf r s)" unfolding wo by simp
      have dws: "distinct ws" using RInv_D(11) [OF assms, of r] unfolding wo .
      from notifyLoop_effect [OF assms sub dws, where rcd = rcd]
      have inv1: "RInv s1"
        and res1: "resolved s1 = resolved s @ map (\<lambda>w. (w, Some rcd)) ws"
        and w1: "\<And>r'. waitersOf r' s1 = (if r' = r then filter (\<lambda>w. w \<notin> set ws) (waitersOf r s) else waitersOf r' s)"
        unfolding s1_def by auto
      have e1: "waitersOf r s1 = []" unfolding w1 wo by simp
      note d = RInv_drop_empty [OF inv1 e1]
      have "resolved (s1\<lparr> completionWaiters := AList.delete r (completionWaiters s1) \<rparr>) = resolved s1"
        by simp
      then show ?thesis
        unfolding eq using d(1) d(2) res1 w1 e1 unfolding wo by auto
    qed
  qed
  show "RInv (notifyCompletionWaiters r rcd s)"
    and "resolved (notifyCompletionWaiters r rcd s)
           = resolved s @ map (\<lambda>w. (w, Some rcd)) (waitersOf r s)"
    and "waitersOf r' (notifyCompletionWaiters r rcd s) = (if r' = r then [] else waitersOf r' s)"
    using all by auto
qed


lemma beginSubagentCleanup_waiterPart:
  "waiterPart (snd (beginSubagentCleanup r s)) = waiterPart s"
  by (simp add: beginSubagentCleanup_def waiterPart_def split: option.splits)

lemma onRunEnded_waiterPart:
  "waiterPart (onRunEnded evt now entry s)
     = waiterPart (notifyCompletionWaiters (ev_runId evt) (endedRecord evt now entry)
         (s\<lparr> subagentRuns := AList.update (ev_runId evt) (endedRecord evt now entry) (subagentRuns s),
             endedAtAssignments := endedAtAssignments s @ [(ev_runId evt, endedValue evt now)] \<rparr>))"
proof -
  define s2 where "s2 = notifyCompletionWaiters (ev_runId evt) (endedRecord evt now entry)
         (s\<lparr> subagentRuns := AList.update (ev_runId evt) (endedRecord evt now entry) (subagentRuns s),
             endedAtAssignments := endedAtAssignments s @ [(ev_runId evt, endedValue evt now)] \<rparr>)"
  define s3 where "s3 = s2\<lparr> completionEvents := completionEvents s2 @ [endedRecord evt now entry] \<rparr>"
  obtain b s4 where bc: "beginSubagentCleanup (ev_runId evt) s3 = (b, s4)"
    by (cases "beginSubagentCleanup (ev_runId evt) s3")
  have w4: "waiterPart s4 = waiterPart s3"
    using beginSubagentCleanup_waiterPart [of "ev_runId evt" s3] bc by simp
  have w3: "waiterPart s3 = waiterPart s2" by (simp add: s3_def waiterPart_def)
  have "waiterPart (onRunEnded evt now entry s) = waiterPart s4"
    unfolding onRunEnded_def Let_def s2_def [symmetric] s3_def [symmetric] bc
    by (cases b) (simp_all add: waiterPart_def)
  then show ?thesis using w4 w3 unfolding s2_def by simp
qed

lemma onRunEnded_effect:
  assumes "RInv s"
  shows "RInv (onRunEnded evt now entry s)"
    and "resolved (onRunEnded evt now entry s)
           = resolved s @ map (\<lambda>w. (w, Some (endedRecord evt now entry))) (waitersOf (ev_runId evt) s)"
    and "waitersOf r' (onRunEnded evt now entry s) = (if r' = ev_runId evt then [] else waitersOf r' s)"
proof -
  define s1 where "s1 =
     s\<lparr> subagentRuns := AList.update (ev_runId evt) (endedRecord evt now entry) (subagentRuns s),
        endedAtAssignments := endedAtAssignments s @ [(ev_runId evt, endedValue evt now)] \<rparr>"
  have p1: "waiterPart s1 = waiterPart s" by (simp add: s1_def waiterPart_def)
  have inv1: "RInv s1" using waiterPart_RInv [OF p1] assms by simp
  note n = notifyCompletionWaiters_effect [OF inv1, where r = "ev_runId evt"
      and rcd = "endedRecord evt now entry"]
  note wp = onRunEnded_waiterPart [of evt now entry s, folded s1_def]
  show "RInv (onRunEnded evt now entry s)"
    using waiterPart_RInv [OF wp] n(1) by simp
  show "resolved (onRunEnded evt now entry s)
           = resolved s @ map (\<lambda>w. (w, Some (endedRecord evt now entry))) (waitersOf (ev_runId evt) s)"
    unfolding waiterPart_resolved [OF wp] n(2)
      waiterPart_resolved [OF p1] waiterPart_waitersOf [OF p1] by (rule refl)
  show "waitersOf r' (onRunEnded evt now entry s) = (if r' = ev_runId evt then [] else waitersOf r' s)"
    unfolding waiterPart_waitersOf [OF wp] n(3) waiterPart_waitersOf [OF p1] by (rule refl)
qed

lemma onAgentEvent_end:
  "isEndOrError evt \<Longrightarrow> map_of (subagentRuns s) (ev_runId evt) = Some entry \<Longrightarrow>
     onAgentEvent evt now s = onRunEnded evt now entry s"
  by (auto simp: onAgentEvent_def isEndOrError_def Let_def)

lemma onAgentEvent_RInv:
  assumes "RInv s"
  shows "RInv (onAgentEvent evt now s)"
proof (cases "ev_stream evt = ''lifecycle''")
  case False
  then show ?thesis using assms by (simp add: onAgentEvent_def)
next
  case True
  show ?thesis
  proof (cases "map_of (subagentRuns s) (ev_runId evt)")
    case None
    then show ?thesis using assms True by (simp add: onAgentEvent_def)
  next
    case (Some entry)
    show ?thesis
    proof (cases "isEndOrError evt")
      case True
      show ?thesis unfolding onAgentEvent_end [OF True Some]
        by (rule onRunEnded_effect(1) [OF assms])
    next
      case False
      have "waiterPart (onAgentEvent evt now s) = waiterPart s"
        using False True Some
        by (auto simp: onAgentEvent_def isEndOrError_def Let_def waiterPart_def)
      from waiterPart_RInv [OF this] show ?thesis using assms by simp
    qed
  qed
qed

lemma fresh_promise:
  assumes "RInv s"
  shows "nextWaiter s \<notin> fst ` set (resolved s)"
    and "waiterRunId s (nextWaiter s) = None"
    and "nextWaiter s \<notin> settledWaiters s"
    and "nextWaiter s \<notin> set (waitersOf r s)"
    and "map_of (waiterTimers s) (nextWaiter s) = None"
proof -
  note I = RInv_D [OF assms]
  show a: "nextWaiter s \<notin> fst ` set (resolved s)" using I(3) [of "nextWaiter s"] by auto
  show b: "waiterRunId s (nextWaiter s) = None"
    using I(6) [of "nextWaiter s"] by (cases "waiterRunId s (nextWaiter s)") auto
  show "nextWaiter s \<notin> settledWaiters s" using I(5) a by blast
  show "nextWaiter s \<notin> set (waitersOf r s)" using I(9) [of "nextWaiter s" r] b by auto
  show "map_of (waiterTimers s) (nextWaiter s) = None"
    using I(12) [of "nextWaiter s"] b
    by (cases "map_of (waiterTimers s) (nextWaiter s)") (auto simp: pendingWaiter_def)
qed

lemma waitForSubagentRun_unknown:
  "map_of (subagentRuns s) r = None \<Longrightarrow>
     waitForSubagentRun r t s
       = (nextWaiter s, s\<lparr> nextWaiter := nextWaiter s + 1,
                           resolved := resolved s @ [(nextWaiter s, None)] \<rparr>)"
  by (simp add: waitForSubagentRun_def Let_def)

lemma waitForSubagentRun_ended:
  "map_of (subagentRuns s) r = Some entry \<Longrightarrow> truthyNumber (endedAt entry) \<Longrightarrow>
     waitForSubagentRun r t s
       = (nextWaiter s, s\<lparr> nextWaiter := nextWaiter s + 1,
                           resolved := resolved s @ [(nextWaiter s, Some entry)] \<rparr>)"
  by (simp add: waitForSubagentRun_def Let_def)

lemma waitForSubagentRun_register:
  assumes "RInv s" "map_of (subagentRuns s) r = Some entry" "\<not> truthyNumber (endedAt entry)"
  shows "waitForSubagentRun r t s
       = (nextWaiter s,
          s\<lparr> nextWaiter := nextWaiter s + 1,
             waiterRunId := (waiterRunId s)(nextWaiter s \<mapsto> r),
             completionWaiters :=
               AList.update r (waitersOf r s @ [nextWaiter s]) (completionWaiters s),
             waiterTimers := AList.update (nextWaiter s) (max 1 t) (waiterTimers s) \<rparr>)"
proof -
  have nin: "nextWaiter s \<notin> set (waitersOf r s)" by (rule fresh_promise(4) [OF assms(1)])
  have wo: "(case map_of (completionWaiters s) r of None \<Rightarrow> [] | Some ws \<Rightarrow> ws) = waitersOf r s"
    by (simp add: waitersOf_def)
  show ?thesis
    using assms(2,3) nin unfolding waitForSubagentRun_def Let_def by (simp add: wo)
qed

lemma RInv_resolve_fresh:
  assumes "RInv s"
  shows "RInv (s\<lparr> nextWaiter := nextWaiter s + 1, resolved := resolved s @ [(nextWaiter s, v)] \<rparr>)"
proof -
  note I = RInv_D [OF assms] and F = fresh_promise [OF assms]
  let ?s = "s\<lparr> nextWaiter := nextWaiter s + 1, resolved := resolved s @ [(nextWaiter s, v)] \<rparr>"
  have wo: "waitersOf r' ?s = waitersOf r' s" for r' by (simp add: waitersOf_def)
  have pe: "pendingWaiter w ?s = pendingWaiter w s" for w by (simp add: pendingWaiter_def)
  show ?thesis
  proof (rule RInv_I)
    show "distinct (map fst (completionWaiters ?s))" using I(1) by simp
    show "distinct (map fst (resolved ?s))" using I(2) F(1) by (simp add: image_iff)
    show "\<And>p. p \<in> fst ` set (resolved ?s) \<Longrightarrow> p < nextWaiter ?s"
      using I(3) by (auto simp: less_Suc_eq)
    show "\<And>p. p \<in> fst ` set (resolved ?s) \<Longrightarrow> waiterRunId ?s p \<noteq> None \<Longrightarrow> p \<in> settledWaiters ?s"
      using I(4) F(2) by auto
    show "\<And>w'. w' \<in> settledWaiters ?s \<Longrightarrow> w' \<in> fst ` set (resolved ?s)"
      using I(5) by auto
    show "\<And>w' r'. waiterRunId ?s w' = Some r' \<Longrightarrow> w' < nextWaiter ?s"
      using I(6) by (auto simp: less_Suc_eq)
    show "\<And>w' r'. waiterRunId ?s w' = Some r' \<Longrightarrow> w' \<notin> settledWaiters ?s \<Longrightarrow>
            map_of (waiterTimers ?s) w' \<noteq> None"
      using I(7) by simp
    show "\<And>w' r'. waiterRunId ?s w' = Some r' \<Longrightarrow> w' \<notin> settledWaiters ?s \<Longrightarrow>
            w' \<in> set (waitersOf r' ?s)"
      unfolding wo using I(8) by simp
    show "\<And>r' w'. w' \<in> set (waitersOf r' ?s) \<Longrightarrow> waiterRunId ?s w' = Some r'"
      unfolding wo using I(9) by simp
    show "\<And>r' w'. w' \<in> set (waitersOf r' ?s) \<Longrightarrow> w' \<notin> settledWaiters ?s"
      unfolding wo using I(10) by simp
    show "\<And>r'. distinct (waitersOf r' ?s)" unfolding wo by (rule I(11))
    show "\<And>w'. map_of (waiterTimers ?s) w' \<noteq> None \<Longrightarrow> pendingWaiter w' ?s"
      unfolding pe using I(12) by simp
  qed
qed

lemma RInv_register_waiter:
  assumes "RInv s"
  shows "RInv (s\<lparr> nextWaiter := nextWaiter s + 1,
             waiterRunId := (waiterRunId s)(nextWaiter s \<mapsto> r),
             completionWaiters :=
               AList.update r (waitersOf r s @ [nextWaiter s]) (completionWaiters s),
             waiterTimers := AList.update (nextWaiter s) d (waiterTimers s) \<rparr>)"
proof -
  note I = RInv_D [OF assms] and F = fresh_promise [OF assms]
  let ?p = "nextWaiter s"
  let ?s = "s\<lparr> nextWaiter := nextWaiter s + 1,
             waiterRunId := (waiterRunId s)(nextWaiter s \<mapsto> r),
             completionWaiters :=
               AList.update r (waitersOf r s @ [nextWaiter s]) (completionWaiters s),
             waiterTimers := AList.update (nextWaiter s) d (waiterTimers s) \<rparr>"
  have cw: "completionWaiters ?s = AList.update r (waitersOf r s @ [?p]) (completionWaiters s)"
    by simp
  note wo = waitersOf_update [OF cw]
  have nx: "nextWaiter ?s = ?p + 1" and rs: "resolved ?s = resolved s"
    and st: "settledWaiters ?s = settledWaiters s"
    and wr: "waiterRunId ?s = (waiterRunId s)(?p \<mapsto> r)"
    and wt: "waiterTimers ?s = AList.update ?p d (waiterTimers s)"
    by simp_all
  have lt: "waiterRunId s w = Some r' \<Longrightarrow> w \<noteq> ?p" for w r' using F(2) by auto
  show ?thesis
  proof (rule RInv_I)
    show "distinct (map fst (completionWaiters ?s))"
      unfolding cw using I(1) by (simp add: distinct_update)
    show "distinct (map fst (resolved ?s))" unfolding rs by (rule I(2))
    show "\<And>p. p \<in> fst ` set (resolved ?s) \<Longrightarrow> p < nextWaiter ?s"
      unfolding rs nx using I(3) by (auto simp: less_Suc_eq)
    show "\<And>p. p \<in> fst ` set (resolved ?s) \<Longrightarrow> waiterRunId ?s p \<noteq> None \<Longrightarrow> p \<in> settledWaiters ?s"
      unfolding rs st wr using I(4) F(1) by (auto split: if_splits)
    show "\<And>w'. w' \<in> settledWaiters ?s \<Longrightarrow> w' \<in> fst ` set (resolved ?s)"
      unfolding rs st by (rule I(5))
    show "\<And>w' r'. waiterRunId ?s w' = Some r' \<Longrightarrow> w' < nextWaiter ?s"
      unfolding wr nx using I(6) by (auto simp: less_Suc_eq split: if_splits)
    show "\<And>w' r'. waiterRunId ?s w' = Some r' \<Longrightarrow> w' \<notin> settledWaiters ?s \<Longrightarrow>
            map_of (waiterTimers ?s) w' \<noteq> None"
      unfolding wr st wt using I(7) by (auto simp: update_conv split: if_splits)
    show "\<And>w' r'. waiterRunId ?s w' = Some r' \<Longrightarrow> w' \<notin> settledWaiters ?s \<Longrightarrow>
            w' \<in> set (waitersOf r' ?s)"
      unfolding wr st wo using I(8) by (auto split: if_splits)
    show "\<And>r' w'. w' \<in> set (waitersOf r' ?s) \<Longrightarrow> waiterRunId ?s w' = Some r'"
      unfolding wr wo using I(9) lt by (auto split: if_splits)
    show "\<And>r' w'. w' \<in> set (waitersOf r' ?s) \<Longrightarrow> w' \<notin> settledWaiters ?s"
      unfolding st wo using I(10) F(3) by (auto split: if_splits)
    show "\<And>r'. distinct (waitersOf r' ?s)"
      unfolding wo using I(11) F(4) by auto
    show "\<And>w'. map_of (waiterTimers ?s) w' \<noteq> None \<Longrightarrow> pendingWaiter w' ?s"
      unfolding pendingWaiter_def wr st wt
      using I(12) F(3) lt by (auto simp: update_conv pendingWaiter_def split: if_splits)
  qed
qed

lemma waitForSubagentRun_RInv:
  assumes "RInv s"
  shows "RInv (snd (waitForSubagentRun r t s))"
proof (cases "map_of (subagentRuns s) r")
  case None
  show ?thesis unfolding waitForSubagentRun_unknown [OF None] snd_conv
    by (rule RInv_resolve_fresh [OF assms])
next
  case (Some entry)
  show ?thesis
  proof (cases "truthyNumber (endedAt entry)")
    case True
    show ?thesis unfolding waitForSubagentRun_ended [OF Some True] snd_conv
      by (rule RInv_resolve_fresh [OF assms])
  next
    case False
    show ?thesis unfolding waitForSubagentRun_register [OF assms Some False] snd_conv
      by (rule RInv_register_waiter [OF assms])
  qed
qed

lemma finish_timer_cleared:
  "w \<notin> settledWaiters s \<Longrightarrow>
     finish w rcd (s\<lparr> waiterTimers := AList.delete w (waiterTimers s) \<rparr>) = finish w rcd s"
  by (simp add: finish_def Let_def delete_idem split: option.splits)

lemma waiterTimerFires_armed:
  assumes "RInv s" "map_of (waiterTimers s) w \<noteq> None"
  shows "waiterTimerFires w s = finish w None s"
proof -
  have "w \<notin> settledWaiters s" using RInv_D(12) [OF assms] by (simp add: pendingWaiter_def)
  from finish_timer_cleared [OF this] show ?thesis
    using assms(2) by (auto simp: waiterTimerFires_def)
qed

lemma waiterTimerFires_RInv:
  assumes "RInv s"
  shows "RInv (waiterTimerFires w s)"
proof (cases "map_of (waiterTimers s) w")
  case None
  then show ?thesis using assms by (simp add: waiterTimerFires_def)
next
  case (Some d)
  then have armed: "map_of (waiterTimers s) w \<noteq> None" by simp
  from RInv_D(12) [OF assms armed] obtain r
    where run: "waiterRunId s w = Some r" and uns: "w \<notin> settledWaiters s"
    by (auto simp: pendingWaiter_def)
  show ?thesis unfolding waiterTimerFires_armed [OF assms armed]
    by (rule finish_RInv [OF assms run uns])
qed

lemma execR_RInv: "RInv s \<Longrightarrow> RInv (execR op s)"
proof (cases op)
  case (Register params now archiveAfterMs)
  assume inv: "RInv s"
  have "waiterPart (registerSubagentRun params now archiveAfterMs s) = waiterPart s"
    by (simp add: registerSubagentRun_def waiterPart_def)
  from waiterPart_RInv [OF this] show ?thesis using inv Register by simp
next
  case (Deliver evt now)
  assume inv: "RInv s"
  show ?thesis using inv onAgentEvent_RInv [OF inv] Deliver by simp
next
  case (Wait r t)
  assume inv: "RInv s"
  show ?thesis using waitForSubagentRun_RInv [OF inv] Wait by simp
next
  case (WaiterTimerFires w)
  assume inv: "RInv s"
  show ?thesis using waiterTimerFires_RInv [OF inv] WaiterTimerFires by simp
next
  case (AnnounceDone r cl didAnnounce now)
  assume inv: "RInv s"
  have "waiterPart (finalizeSubagentCleanup r cl didAnnounce now s) = waiterPart s"
    by (simp add: finalizeSubagentCleanup_def waiterPart_def split: option.splits)
  from waiterPart_RInv [OF this] show ?thesis using inv AnnounceDone by simp
next
  case (Release r)
  assume inv: "RInv s"
  have "waiterPart (releaseSubagentRun r s) = waiterPart s"
    by (simp add: releaseSubagentRun_def waiterPart_def)
  from waiterPart_RInv [OF this] show ?thesis using inv Release by simp
qed

lemma runR_RInv: "RInv s \<Longrightarrow> RInv (runR ops s)"
  by (induction ops arbitrary: s) (simp_all add: execR_RInv)

lemma initialRState_RInv: "RInv initialRState"
  by (simp add: RInv_def initialRState_def waitersOf_def pendingWaiter_def)


lemma timer_unarmed:
  assumes "RInv s" "\<not> pendingWaiter w s"
  shows "waiterTimerFires w s = s"
proof -
  have "map_of (waiterTimers s) w = None"
    using RInv_D(12) [OF assms(1), of w] assms(2) by (cases "map_of (waiterTimers s) w") auto
  then show ?thesis by (simp add: waiterTimerFires_def)
qed

lemma pending_timeout:
  assumes "RInv s" "pendingWaiter w s"
  shows "w \<notin> fst ` set (resolved s)"
    and "map_of (waiterTimers s) w \<noteq> None"
    and "\<exists>r. waiterRunId s w = Some r \<and> w \<in> set (waitersOf r s)"
    and "resolved (waiterTimerFires w s) = resolved s @ [(w, None)]"
    and "\<not> pendingWaiter w (waiterTimerFires w s)"
proof -
  note I = RInv_D [OF assms(1)]
  from assms(2) obtain r where run: "waiterRunId s w = Some r" and uns: "w \<notin> settledWaiters s"
    by (auto simp: pendingWaiter_def)
  show "w \<notin> fst ` set (resolved s)" using I(4) [of w] run uns by auto
  show armed: "map_of (waiterTimers s) w \<noteq> None" by (rule I(7) [OF run uns])
  show "\<exists>r. waiterRunId s w = Some r \<and> w \<in> set (waitersOf r s)"
    using run I(8) [OF run uns] by blast
  note f = finish_pending [OF assms(1) run uns, where rcd = None]
  show "resolved (waiterTimerFires w s) = resolved s @ [(w, None)]"
    unfolding waiterTimerFires_armed [OF assms(1) armed] by (rule f(1))
  show "\<not> pendingWaiter w (waiterTimerFires w s)"
    unfolding waiterTimerFires_armed [OF assms(1) armed] pendingWaiter_def f(2) by simp
qed

lemma waitForSubagentRun_registers:
  assumes "RInv s" "map_of (subagentRuns s) r = Some entry" "\<not> truthyNumber (endedAt entry)"
  shows "fst (waitForSubagentRun r t s) = nextWaiter s
     \<and> resolved (snd (waitForSubagentRun r t s)) = resolved s
     \<and> nextWaiter s \<notin> fst ` set (resolved s)
     \<and> waitersOf r (snd (waitForSubagentRun r t s)) = waitersOf r s @ [nextWaiter s]
     \<and> map_of (waiterTimers (snd (waitForSubagentRun r t s))) (nextWaiter s) = Some (max 1 t)
     \<and> pendingWaiter (nextWaiter s) (snd (waitForSubagentRun r t s))"
proof -
  note F = fresh_promise [OF assms(1)]
  note eq = waitForSubagentRun_register [OF assms, of t]
  define s' where "s' = snd (waitForSubagentRun r t s)"
  have s': "s' = s\<lparr> nextWaiter := nextWaiter s + 1,
             waiterRunId := (waiterRunId s)(nextWaiter s \<mapsto> r),
             completionWaiters :=
               AList.update r (waitersOf r s @ [nextWaiter s]) (completionWaiters s),
             waiterTimers := AList.update (nextWaiter s) (max 1 t) (waiterTimers s) \<rparr>"
    unfolding s'_def eq by simp
  have cw: "completionWaiters s' = AList.update r (waitersOf r s @ [nextWaiter s]) (completionWaiters s)"
    unfolding s' by simp
  have a: "fst (waitForSubagentRun r t s) = nextWaiter s" unfolding eq by simp
  have b: "resolved s' = resolved s" unfolding s' by simp
  have c: "waitersOf r s' = waitersOf r s @ [nextWaiter s]"
    using waitersOf_update [OF cw, of r] by simp
  have d: "map_of (waiterTimers s') (nextWaiter s) = Some (max 1 t)"
    unfolding s' by (simp add: update_conv)
  have e: "pendingWaiter (nextWaiter s) s'"
    unfolding s' pendingWaiter_def using F(3) by simp
  show ?thesis using a b F(1) c d e unfolding s'_def by simp
qed

lemma onAgentEvent_notifies:
  assumes "RInv s" "isEndOrError evt" "map_of (subagentRuns s) (ev_runId evt) = Some entry"
  shows "resolved (onAgentEvent evt now s)
           = resolved s @ map (\<lambda>w. (w, Some (endedRecord evt now entry))) (waitersOf (ev_runId evt) s)
     \<and> waitersOf (ev_runId evt) (onAgentEvent evt now s) = []"
  unfolding onAgentEvent_end [OF assms(2,3)]
  using onRunEnded_effect(2) [OF assms(1), where evt = evt and now = now and entry = entry]
    onRunEnded_effect(3) [OF assms(1), where evt = evt and now = now and entry = entry
      and r' = "ev_runId evt"]
  by simp

subsection \<open>Records that have ended\<close>

text \<open>
  The module takes a record for ended when its \<^verbatim>\<open>endedAt\<close> is truthy
  (\<^verbatim>\<open>entry?.endedAt\<close> in \<^verbatim>\<open>waitForSubagentRun\<close>, \<^verbatim>\<open>!entry.endedAt\<close> in
  \<^verbatim>\<open>getActiveSubagentRuns\<close>). The listener is the only writer of the field. When every
  end or error event delivered carries a real time (a number other than 0 and \<^verbatim>\<open>NaN\<close>,
  or none, in which case the clock is read and is not 0), a record has \<^verbatim>\<open>endedAt\<close> set
  exactly when the field is truthy.
\<close>

fun wellTimed :: "RegistryOp list \<Rightarrow> bool" where
  "wellTimed [] = True"
| "wellTimed (op # ops) =
     ((case op of
         Deliver evt now \<Rightarrow> isEndOrError evt \<longrightarrow> truthyNumber (Some (endedValue evt now))
       | _ \<Rightarrow> True) \<and> wellTimed ops)"

definition endedInv :: "RState \<Rightarrow> bool" where
  "endedInv s =
     (\<forall>r. Option.bind (map_of (subagentRuns s) r) endedAt \<noteq> None \<longrightarrow>
          truthyNumber (Option.bind (map_of (subagentRuns s) r) endedAt))"

lemma onRunEnded_endedAt_all:
  "Option.bind (map_of (subagentRuns (onRunEnded evt now entry s)) r') endedAt
     = (if r' = ev_runId evt then Some (endedValue evt now)
        else Option.bind (map_of (subagentRuns s) r') endedAt)"
proof -
  define s3 where "s3 = (notifyCompletionWaiters (ev_runId evt) (endedRecord evt now entry)
      (s\<lparr> subagentRuns := AList.update (ev_runId evt) (endedRecord evt now entry) (subagentRuns s),
          endedAtAssignments := endedAtAssignments s @ [(ev_runId evt, endedValue evt now)] \<rparr>))
      \<lparr> completionEvents := completionEvents (notifyCompletionWaiters (ev_runId evt) (endedRecord evt now entry)
      (s\<lparr> subagentRuns := AList.update (ev_runId evt) (endedRecord evt now entry) (subagentRuns s),
          endedAtAssignments := endedAtAssignments s @ [(ev_runId evt, endedValue evt now)] \<rparr>))
          @ [endedRecord evt now entry] \<rparr>"
  have r3: "Option.bind (map_of (subagentRuns s3) r') endedAt
     = (if r' = ev_runId evt then Some (endedValue evt now)
        else Option.bind (map_of (subagentRuns s) r') endedAt)"
    unfolding s3_def by (simp add: notifyCompletionWaiters_frame update_conv endedRecord_def)
  obtain b s4 where bc: "beginSubagentCleanup (ev_runId evt) s3 = (b, s4)"
    by (cases "beginSubagentCleanup (ev_runId evt) s3")
  have r4: "Option.bind (map_of (subagentRuns s4) r') endedAt
     = Option.bind (map_of (subagentRuns s3) r') endedAt"
    using beginSubagentCleanup_endedAt [of "ev_runId evt" s3 r'] bc by simp
  have "subagentRuns (onRunEnded evt now entry s) = subagentRuns s4"
    unfolding onRunEnded_def Let_def s3_def [symmetric] bc by (cases b) simp_all
  then show ?thesis using r4 r3 by simp
qed

lemma onAgentEvent_endedAt_all:
  "Option.bind (map_of (subagentRuns (onAgentEvent evt now s)) r') endedAt
     = (if isEndOrError evt \<and> map_of (subagentRuns s) (ev_runId evt) \<noteq> None \<and> r' = ev_runId evt
        then Some (endedValue evt now)
        else Option.bind (map_of (subagentRuns s) r') endedAt)"
proof (cases "isEndOrError evt \<and> map_of (subagentRuns s) (ev_runId evt) \<noteq> None")
  case True
  then obtain entry where e: "map_of (subagentRuns s) (ev_runId evt) = Some entry" by auto
  have "onAgentEvent evt now s = onRunEnded evt now entry s"
    using True e by (auto simp: onAgentEvent_def isEndOrError_def Let_def)
  then show ?thesis using True onRunEnded_endedAt_all [of evt now entry s r'] by simp
next
  case False
  then show ?thesis
    by (auto simp: onAgentEvent_def isEndOrError_def Let_def update_conv split: option.splits)
qed

lemma waitForSubagentRun_subagentRuns:
  "subagentRuns (snd (waitForSubagentRun r t s)) = subagentRuns s"
  by (simp add: waitForSubagentRun_def Let_def split: option.splits)

lemma waiterTimerFires_subagentRuns:
  "subagentRuns (waiterTimerFires w s) = subagentRuns s"
  by (simp add: waiterTimerFires_def finish_frame split: option.splits)

lemma finalizeSubagentCleanup_endedAt:
  "Option.bind (map_of (subagentRuns (finalizeSubagentCleanup r cl didAnnounce now s)) r') endedAt = None
   \<or> Option.bind (map_of (subagentRuns (finalizeSubagentCleanup r cl didAnnounce now s)) r') endedAt
       = Option.bind (map_of (subagentRuns s) r') endedAt"
  by (auto simp: finalizeSubagentCleanup_def update_conv delete_conv split: option.splits)

lemma releaseSubagentRun_endedAt:
  "Option.bind (map_of (subagentRuns (releaseSubagentRun r s)) r') endedAt = None
   \<or> Option.bind (map_of (subagentRuns (releaseSubagentRun r s)) r') endedAt
       = Option.bind (map_of (subagentRuns s) r') endedAt"
  by (auto simp: releaseSubagentRun_def delete_conv)

lemma execR_endedInv:
  assumes "endedInv s" "wellTimed [op]"
  shows "endedInv (execR op s)"
proof (cases op)
  case (Register params now archiveAfterMs)
  show ?thesis using assms(1) unfolding Register endedInv_def
    by (simp add: registerSubagentRun_def update_conv)
next
  case (Deliver evt now)
  have t: "isEndOrError evt \<Longrightarrow> truthyNumber (Some (endedValue evt now))"
    using assms(2) Deliver by simp
  show ?thesis
  proof (cases "listenerStarted s")
    case False
    then show ?thesis using assms(1) Deliver by simp
  next
    case True
    show ?thesis unfolding endedInv_def
    proof (intro allI impI)
      fix r
      assume n: "Option.bind (map_of (subagentRuns (execR op s)) r) endedAt \<noteq> None"
      have eq: "Option.bind (map_of (subagentRuns (execR op s)) r) endedAt
          = (if isEndOrError evt \<and> map_of (subagentRuns s) (ev_runId evt) \<noteq> None \<and> r = ev_runId evt
             then Some (endedValue evt now)
             else Option.bind (map_of (subagentRuns s) r) endedAt)"
        using True Deliver onAgentEvent_endedAt_all [of evt now s r] by simp
      show "truthyNumber (Option.bind (map_of (subagentRuns (execR op s)) r) endedAt)"
      proof (cases "isEndOrError evt \<and> map_of (subagentRuns s) (ev_runId evt) \<noteq> None \<and> r = ev_runId evt")
        case True
        then show ?thesis unfolding eq using t by simp
      next
        case False
        then have "Option.bind (map_of (subagentRuns (execR op s)) r) endedAt
                     = Option.bind (map_of (subagentRuns s) r) endedAt"
          unfolding eq by (simp only: if_False)
        then show ?thesis using n assms(1) unfolding endedInv_def by simp
      qed
    qed
  qed
next
  case (Wait r t)
  show ?thesis using assms(1) unfolding Wait endedInv_def
    by (simp add: waitForSubagentRun_subagentRuns)
next
  case (WaiterTimerFires w)
  show ?thesis using assms(1) unfolding WaiterTimerFires endedInv_def
    by (simp add: waiterTimerFires_subagentRuns)
next
  case (AnnounceDone r cl didAnnounce now)
  show ?thesis unfolding AnnounceDone endedInv_def execR.simps
  proof (intro allI impI)
    fix r'
    assume n: "Option.bind (map_of (subagentRuns (finalizeSubagentCleanup r cl didAnnounce now s)) r')
                 endedAt \<noteq> None"
    with finalizeSubagentCleanup_endedAt [of r cl didAnnounce now s r']
    have eq: "Option.bind (map_of (subagentRuns (finalizeSubagentCleanup r cl didAnnounce now s)) r') endedAt
       = Option.bind (map_of (subagentRuns s) r') endedAt" by blast
    show "truthyNumber (Option.bind
            (map_of (subagentRuns (finalizeSubagentCleanup r cl didAnnounce now s)) r') endedAt)"
      using n assms(1) unfolding eq endedInv_def by blast
  qed
next
  case (Release r)
  show ?thesis unfolding Release endedInv_def execR.simps
  proof (intro allI impI)
    fix r'
    assume n: "Option.bind (map_of (subagentRuns (releaseSubagentRun r s)) r') endedAt \<noteq> None"
    with releaseSubagentRun_endedAt [of r s r']
    have eq: "Option.bind (map_of (subagentRuns (releaseSubagentRun r s)) r') endedAt
       = Option.bind (map_of (subagentRuns s) r') endedAt" by blast
    show "truthyNumber (Option.bind (map_of (subagentRuns (releaseSubagentRun r s)) r') endedAt)"
      using n assms(1) unfolding eq endedInv_def by blast
  qed
qed

lemma runR_endedInv: "endedInv s \<Longrightarrow> wellTimed ops \<Longrightarrow> endedInv (runR ops s)"
proof (induction ops arbitrary: s)
  case Nil
  then show ?case by simp
next
  case (Cons op ops)
  have "wellTimed [op]" and w: "wellTimed ops" using Cons.prems(2) by simp_all
  from execR_endedInv [OF Cons.prems(1) this(1)] have "endedInv (execR op s)" .
  from Cons.IH [OF this w] show ?case by simp
qed

lemma initialRState_endedInv: "endedInv initialRState"
  by (simp add: endedInv_def initialRState_def)

text \<open>
  Claim C7. In every state the registry reaches, \<^verbatim>\<open>waitForSubagentRun\<close> hands out a
  fresh promise and (1) resolves it at once with \<^verbatim>\<open>null\<close> when the run id is unknown;
  (2) resolves it at once with the record when the record has \<^verbatim>\<open>endedAt\<close> set, provided
  the end and error events delivered so far carried real times; (3) whatever the events
  carried, resolves it at once with the record when \<^verbatim>\<open>endedAt\<close> is truthy, which is the
  test the code makes; and (4) otherwise leaves it unresolved and registers a pending
  waiter for it, last in the Set of the run, with a timer of \<^verbatim>\<open>Math.max(1, timeoutMs)\<close>.
  (5) No promise is ever resolved twice. (6) A pending waiter is unresolved, has its timer
  armed and stands in the Set of its run; when its timer fires it is resolved with
  \<^verbatim>\<open>null\<close> and is pending no longer; (7) the timer of a waiter that is not pending does
  nothing. (8) A lifecycle event of phase \<^verbatim>\<open>end\<close> or \<^verbatim>\<open>error\<close> for a registered run
  resolves every waiter in the Set of that run, in registration order, with one and the
  same record, and empties the Set.
\<close>

theorem waitForSubagentRun_resolves_once:
  "s = runR ops initialRState \<Longrightarrow>
     (map_of (subagentRuns s) r = None \<longrightarrow>
        waitForSubagentRun r t s
          = (nextWaiter s, s\<lparr> nextWaiter := nextWaiter s + 1,
                              resolved := resolved s @ [(nextWaiter s, None)] \<rparr>))
   \<and> (wellTimed ops \<longrightarrow>
        (\<forall>entry. map_of (subagentRuns s) r = Some entry \<and> endedAt entry \<noteq> None \<longrightarrow>
           waitForSubagentRun r t s
             = (nextWaiter s, s\<lparr> nextWaiter := nextWaiter s + 1,
                                 resolved := resolved s @ [(nextWaiter s, Some entry)] \<rparr>)))
   \<and> (\<forall>entry. map_of (subagentRuns s) r = Some entry \<and> truthyNumber (endedAt entry) \<longrightarrow>
        waitForSubagentRun r t s
          = (nextWaiter s, s\<lparr> nextWaiter := nextWaiter s + 1,
                              resolved := resolved s @ [(nextWaiter s, Some entry)] \<rparr>))
   \<and> (\<forall>entry. map_of (subagentRuns s) r = Some entry \<and> \<not> truthyNumber (endedAt entry) \<longrightarrow>
        fst (waitForSubagentRun r t s) = nextWaiter s
        \<and> resolved (snd (waitForSubagentRun r t s)) = resolved s
        \<and> nextWaiter s \<notin> fst ` set (resolved s)
        \<and> waitersOf r (snd (waitForSubagentRun r t s)) = waitersOf r s @ [nextWaiter s]
        \<and> map_of (waiterTimers (snd (waitForSubagentRun r t s))) (nextWaiter s) = Some (max 1 t)
        \<and> pendingWaiter (nextWaiter s) (snd (waitForSubagentRun r t s)))
   \<and> distinct (map fst (resolved s))
   \<and> (\<forall>w. pendingWaiter w s \<longrightarrow>
        w \<notin> fst ` set (resolved s)
        \<and> map_of (waiterTimers s) w \<noteq> None
        \<and> (\<exists>r'. waiterRunId s w = Some r' \<and> w \<in> set (waitersOf r' s))
        \<and> resolved (waiterTimerFires w s) = resolved s @ [(w, None)]
        \<and> \<not> pendingWaiter w (waiterTimerFires w s))
   \<and> (\<forall>w. \<not> pendingWaiter w s \<longrightarrow> waiterTimerFires w s = s)
   \<and> (\<forall>evt now entry.
        isEndOrError evt \<and> map_of (subagentRuns s) (ev_runId evt) = Some entry \<longrightarrow>
        resolved (onAgentEvent evt now s)
          = resolved s @ map (\<lambda>w. (w, Some (endedRecord evt now entry)))
                             (waitersOf (ev_runId evt) s)
        \<and> waitersOf (ev_runId evt) (onAgentEvent evt now s) = [])"
proof -
  assume s: "s = runR ops initialRState"
  have inv: "RInv s" unfolding s by (rule runR_RInv [OF initialRState_RInv])
  have c1: "map_of (subagentRuns s) r = None \<longrightarrow>
        waitForSubagentRun r t s
          = (nextWaiter s, s\<lparr> nextWaiter := nextWaiter s + 1,
                              resolved := resolved s @ [(nextWaiter s, None)] \<rparr>)"
    by (rule impI) (rule waitForSubagentRun_unknown)
  have c2: "\<forall>entry. map_of (subagentRuns s) r = Some entry \<and> truthyNumber (endedAt entry) \<longrightarrow>
        waitForSubagentRun r t s
          = (nextWaiter s, s\<lparr> nextWaiter := nextWaiter s + 1,
                              resolved := resolved s @ [(nextWaiter s, Some entry)] \<rparr>)"
    using waitForSubagentRun_ended by blast
  have c0: "wellTimed ops \<longrightarrow>
        (\<forall>entry. map_of (subagentRuns s) r = Some entry \<and> endedAt entry \<noteq> None \<longrightarrow>
           waitForSubagentRun r t s
             = (nextWaiter s, s\<lparr> nextWaiter := nextWaiter s + 1,
                                 resolved := resolved s @ [(nextWaiter s, Some entry)] \<rparr>))"
  proof (intro impI allI)
    fix entry
    assume w: "wellTimed ops"
      and "map_of (subagentRuns s) r = Some entry \<and> endedAt entry \<noteq> None"
    then have a: "map_of (subagentRuns s) r = Some entry" and b: "endedAt entry \<noteq> None"
      by simp_all
    have "endedInv s" unfolding s by (rule runR_endedInv [OF initialRState_endedInv w])
    then have "Option.bind (map_of (subagentRuns s) r) endedAt \<noteq> None \<longrightarrow>
          truthyNumber (Option.bind (map_of (subagentRuns s) r) endedAt)"
      unfolding endedInv_def by (rule spec)
    then have "truthyNumber (endedAt entry)" using a b by simp
    then show "waitForSubagentRun r t s
             = (nextWaiter s, s\<lparr> nextWaiter := nextWaiter s + 1,
                                 resolved := resolved s @ [(nextWaiter s, Some entry)] \<rparr>)"
      by (rule waitForSubagentRun_ended [OF a])
  qed
  have c3: "\<forall>entry. map_of (subagentRuns s) r = Some entry \<and> \<not> truthyNumber (endedAt entry) \<longrightarrow>
        fst (waitForSubagentRun r t s) = nextWaiter s
        \<and> resolved (snd (waitForSubagentRun r t s)) = resolved s
        \<and> nextWaiter s \<notin> fst ` set (resolved s)
        \<and> waitersOf r (snd (waitForSubagentRun r t s)) = waitersOf r s @ [nextWaiter s]
        \<and> map_of (waiterTimers (snd (waitForSubagentRun r t s))) (nextWaiter s) = Some (max 1 t)
        \<and> pendingWaiter (nextWaiter s) (snd (waitForSubagentRun r t s))"
  proof (intro allI impI)
    fix entry
    assume "map_of (subagentRuns s) r = Some entry \<and> \<not> truthyNumber (endedAt entry)"
    then have a: "map_of (subagentRuns s) r = Some entry" and b: "\<not> truthyNumber (endedAt entry)"
      by simp_all
    show "fst (waitForSubagentRun r t s) = nextWaiter s
        \<and> resolved (snd (waitForSubagentRun r t s)) = resolved s
        \<and> nextWaiter s \<notin> fst ` set (resolved s)
        \<and> waitersOf r (snd (waitForSubagentRun r t s)) = waitersOf r s @ [nextWaiter s]
        \<and> map_of (waiterTimers (snd (waitForSubagentRun r t s))) (nextWaiter s) = Some (max 1 t)
        \<and> pendingWaiter (nextWaiter s) (snd (waitForSubagentRun r t s))"
      by (rule waitForSubagentRun_registers [OF inv a b])
  qed
  have c4: "distinct (map fst (resolved s))" by (rule RInv_D(2) [OF inv])
  have c5: "\<forall>w. pendingWaiter w s \<longrightarrow>
        w \<notin> fst ` set (resolved s)
        \<and> map_of (waiterTimers s) w \<noteq> None
        \<and> (\<exists>r'. waiterRunId s w = Some r' \<and> w \<in> set (waitersOf r' s))
        \<and> resolved (waiterTimerFires w s) = resolved s @ [(w, None)]
        \<and> \<not> pendingWaiter w (waiterTimerFires w s)"
  proof (intro allI impI)
    fix w
    assume p: "pendingWaiter w s"
    note t = pending_timeout [OF inv p]
    show "w \<notin> fst ` set (resolved s)
        \<and> map_of (waiterTimers s) w \<noteq> None
        \<and> (\<exists>r'. waiterRunId s w = Some r' \<and> w \<in> set (waitersOf r' s))
        \<and> resolved (waiterTimerFires w s) = resolved s @ [(w, None)]
        \<and> \<not> pendingWaiter w (waiterTimerFires w s)"
      by (intro conjI) (rule t(1), rule t(2), rule t(3), rule t(4), rule t(5))
  qed
  have c6: "\<forall>w. \<not> pendingWaiter w s \<longrightarrow> waiterTimerFires w s = s"
    using timer_unarmed [OF inv] by blast
  have c7: "\<forall>evt now entry.
        isEndOrError evt \<and> map_of (subagentRuns s) (ev_runId evt) = Some entry \<longrightarrow>
        resolved (onAgentEvent evt now s)
          = resolved s @ map (\<lambda>w. (w, Some (endedRecord evt now entry)))
                             (waitersOf (ev_runId evt) s)
        \<and> waitersOf (ev_runId evt) (onAgentEvent evt now s) = []"
  proof (intro allI impI)
    fix evt now entry
    assume "isEndOrError evt \<and> map_of (subagentRuns s) (ev_runId evt) = Some entry"
    then have a: "isEndOrError evt" and b: "map_of (subagentRuns s) (ev_runId evt) = Some entry"
      by simp_all
    show "resolved (onAgentEvent evt now s)
          = resolved s @ map (\<lambda>w. (w, Some (endedRecord evt now entry)))
                             (waitersOf (ev_runId evt) s)
        \<and> waitersOf (ev_runId evt) (onAgentEvent evt now s) = []"
      by (rule onAgentEvent_notifies [OF inv a b])
  qed
  show ?thesis
    by (intro conjI) (rule c1, rule c0, rule c2, rule c3, rule c4, rule c5, rule c6, rule c7)
qed

text \<open>
  Two callers wait for a registered run; then a wait for an unknown run resolves with
  \<^verbatim>\<open>null\<close> at once, the timer of the second waiter resolves it with \<^verbatim>\<open>null\<close>, and an end
  event resolves both waiters with the record that ended at 100. A caller that waits for
  a run after its end event resolves at once with the record.
\<close>

definition twoWaiters :: "RegistryOp list" where
  "twoWaiters = [Register (exampleRun ''run-1'') 10 None, Wait ''run-1'' 1000, Wait ''run-1'' 0]"

definition endedRun :: "RegistryOp list" where
  "endedRun = [Register (exampleRun ''run-1'') 10 None, Deliver (endEvent ''run-1'' 100) 101]"

theorem waitForSubagentRun_resolves_once_witness:
  "map_of (subagentRuns (runR twoWaiters initialRState)) ''run-2'' = None
   \<and> fst (waitForSubagentRun ''run-2'' 50 (runR twoWaiters initialRState)) = 2
   \<and> resolved (snd (waitForSubagentRun ''run-2'' 50 (runR twoWaiters initialRState))) = [(2, None)]
   \<and> waitersOf ''run-1'' (runR twoWaiters initialRState) = [0, 1]
   \<and> map_of (waiterTimers (runR twoWaiters initialRState)) 1 = Some 1
   \<and> pendingWaiter 1 (runR twoWaiters initialRState)
   \<and> resolved (waiterTimerFires 1 (runR twoWaiters initialRState)) = [(1, None)]
   \<and> isEndOrError (endEvent ''run-1'' 100)
   \<and> map (\<lambda>(w, v). (w, Option.bind v endedAt))
        (resolved (onAgentEvent (endEvent ''run-1'' 100) 101 (runR twoWaiters initialRState)))
      = [(0, Some (Finite 100)), (1, Some (Finite 100))]
   \<and> wellTimed endedRun
   \<and> Option.bind (getSubagentRun ''run-1'' (runR endedRun initialRState)) endedAt
       = Some (Finite 100)
   \<and> resolved (snd (waitForSubagentRun ''run-1'' 1000 (runR endedRun initialRState)))
       = [(0, getSubagentRun ''run-1'' (runR endedRun initialRState))]"
proof -
  let ?s = "runR twoWaiters initialRState"
  note T = waitForSubagentRun_resolves_once [OF refl, where ops = twoWaiters and r = "''run-2''"
      and t = 50]
  have unknown: "map_of (subagentRuns ?s) ''run-2'' = None"
    by (simp add: twoWaiters_def registry_eval)
  obtain entry where known: "map_of (subagentRuns ?s) ''run-1'' = Some entry"
    by (simp add: twoWaiters_def registry_eval)
  have ws: "waitersOf ''run-1'' ?s = [0, 1]"
    by (simp add: twoWaiters_def registry_eval waitersOf_def)
  have nx: "nextWaiter ?s = 2" and rs: "resolved ?s = []"
    by (simp_all add: twoWaiters_def registry_eval)
  have tm: "map_of (waiterTimers ?s) 1 = Some 1"
    by (simp add: twoWaiters_def registry_eval)
  have pend: "pendingWaiter 1 ?s"
    by (simp add: twoWaiters_def registry_eval pendingWaiter_def)
  have isEnd: "isEndOrError (endEvent ''run-1'' 100)" by (simp add: registry_eval)
  have rid: "ev_runId (endEvent ''run-1'' 100) = ''run-1''" by (simp add: endEvent_def)
  have known': "map_of (subagentRuns ?s) (ev_runId (endEvent ''run-1'' 100)) = Some entry"
    unfolding rid by (rule known)
  have a: "waitForSubagentRun ''run-2'' 50 ?s
          = (nextWaiter ?s, ?s\<lparr> nextWaiter := nextWaiter ?s + 1,
                                resolved := resolved ?s @ [(nextWaiter ?s, None)] \<rparr>)"
    using T [THEN conjunct1] unknown by (rule mp)
  have b: "resolved (waiterTimerFires 1 ?s) = resolved ?s @ [(1, None)]"
    using T [THEN conjunct2, THEN conjunct2, THEN conjunct2, THEN conjunct2, THEN conjunct2,
             THEN conjunct1] pend
    by blast
  have c: "resolved (onAgentEvent (endEvent ''run-1'' 100) 101 ?s)
          = resolved ?s @ map (\<lambda>w. (w, Some (endedRecord (endEvent ''run-1'' 100) 101 entry)))
                             (waitersOf (ev_runId (endEvent ''run-1'' 100)) ?s)"
    by (rule T [THEN conjunct2, THEN conjunct2, THEN conjunct2, THEN conjunct2, THEN conjunct2,
                THEN conjunct2, THEN conjunct2, rule_format, OF conjI, OF isEnd known',
                THEN conjunct1])
  have e: "Option.bind (Some (endedRecord (endEvent ''run-1'' 100) 101 entry)) endedAt
             = Some (Finite 100)"
    by (simp add: endedRecord_def endedValue_def endEvent_def)
  have a1: "fst (waitForSubagentRun ''run-2'' 50 ?s) = 2" unfolding a nx by simp
  have a2: "resolved (snd (waitForSubagentRun ''run-2'' 50 ?s)) = [(2, None)]"
    unfolding a nx rs by simp
  have b1: "resolved (waiterTimerFires 1 ?s) = [(1, None)]" unfolding b rs by simp
  have c1: "map (\<lambda>(w, v). (w, Option.bind v endedAt))
        (resolved (onAgentEvent (endEvent ''run-1'' 100) 101 ?s))
          = [(0, Some (Finite 100)), (1, Some (Finite 100))]"
    unfolding c rid ws rs using e by simp
  let ?e = "runR endedRun initialRState"
  note E = waitForSubagentRun_resolves_once [OF refl, where ops = endedRun and r = "''run-1''"
      and t = 1000]
  have wt: "wellTimed endedRun" by (simp add: endedRun_def registry_eval)
  obtain ended where ek: "map_of (subagentRuns ?e) ''run-1'' = Some ended"
    and ee: "endedAt ended = Some (Finite 100)"
    by (simp add: endedRun_def registry_eval)
  have en: "endedAt ended \<noteq> None" unfolding ee by simp
  have d: "waitForSubagentRun ''run-1'' 1000 ?e
          = (nextWaiter ?e, ?e\<lparr> nextWaiter := nextWaiter ?e + 1,
                                resolved := resolved ?e @ [(nextWaiter ?e, Some ended)] \<rparr>)"
    by (rule E [THEN conjunct2, THEN conjunct1, rule_format, OF wt, OF conjI, OF ek en])
  have enx: "nextWaiter ?e = 0" and ers: "resolved ?e = []"
    by (simp_all add: endedRun_def registry_eval)
  have d1: "Option.bind (getSubagentRun ''run-1'' ?e) endedAt = Some (Finite 100)"
    unfolding getSubagentRun_def ek using ee by simp
  have d2: "resolved (snd (waitForSubagentRun ''run-1'' 1000 ?e))
              = [(0, getSubagentRun ''run-1'' ?e)]"
    unfolding d enx ers getSubagentRun_def ek by simp
  show ?thesis
    by (intro conjI) (rule unknown, rule a1, rule a2, rule ws, rule tm, rule pend, rule b1,
        rule isEnd, rule c1, rule wt, rule d1, rule d2)
qed

text \<open>
  The case the hypothesis on the events sets apart. An end event may carry any number; on
  0 (and likewise on \<^verbatim>\<open>NaN\<close>) the listener stores a value that is not truthy, the module
  goes on taking the run for not ended, and a caller waits like for a running run: a
  waiter with a timer is registered, and the timeout resolves it with \<^verbatim>\<open>null\<close>.
\<close>

definition endedAtZero :: "RegistryOp list" where
  "endedAtZero = [Register (exampleRun ''run-1'') 10 None, Deliver (endEvent ''run-1'' 0) 5]"

lemma waitForSubagentRun_endedAt_zero:
  "\<not> wellTimed endedAtZero
   \<and> Option.bind (getSubagentRun ''run-1'' (runR endedAtZero initialRState)) endedAt = Some (Finite 0)
   \<and> fst (waitForSubagentRun ''run-1'' 1000 (runR endedAtZero initialRState)) = 0
   \<and> resolved (snd (waitForSubagentRun ''run-1'' 1000 (runR endedAtZero initialRState))) = []
   \<and> waitersOf ''run-1'' (snd (waitForSubagentRun ''run-1'' 1000 (runR endedAtZero initialRState)))
       = [0]
   \<and> map_of (waiterTimers (snd (waitForSubagentRun ''run-1'' 1000 (runR endedAtZero initialRState)))) 0
       = Some 1000
   \<and> resolved (waiterTimerFires 0
        (snd (waitForSubagentRun ''run-1'' 1000 (runR endedAtZero initialRState)))) = [(0, None)]"
  by (simp add: endedAtZero_def registry_eval waitersOf_def)

end
